(* ===== verification/Exos_Prelude.thy ===== *)
theory Exos_Prelude
  imports Main "HOL-Library.Word"
begin

text \<open>
  Shared material of the development: the machine types of the kernel sources, the error
  numbers of \<^verbatim>\<open>kernel/include/syscall.h\<close>, the list lemmas the components share, and the two
  interfaces that more than one component provides: a bounded first-in first-out store (the ring
  of a pipe, the two rings of a pseudo terminal, the mailbox of a process) and its trace lemma.
\<close>

section \<open>Types and error numbers\<close>

type_synonym u8 = "8 word"
type_synonym u16 = "16 word"
type_synonym u32 = "32 word"
type_synonym u64 = "64 word"

text \<open>The errors of \<^verbatim>\<open>syscall.h\<close> the modelled functions return. A C function that returns
  \<^verbatim>\<open>int32_t\<close>, an error as \<^verbatim>\<open>ERR(e)\<close> and a count otherwise, is modelled with a result
  \<open>errno + 'a\<close>.\<close>

datatype errno = EPERM | ENOENT | ESRCH | EINTR | EIO | EBADF | EAGAIN | ENOMEM | EBUSY | EEXIST
  | ENODEV | EINVAL | EFAULT | ENFILE | EMFILE | ENOTTY | ENOSPC | EPIPE | ETIMEDOUT

text \<open>A pointer a program passes to the kernel: null, refused by \<^verbatim>\<open>syscall_verify_ptr\<close>, or good.\<close>

datatype 'a uptr = Nullo | Fuori | Punta 'a

text \<open>One turn of a blocking loop, from the test of its condition to the call of \<^verbatim>\<open>sched_block\<close>, runs
  with interrupts off: it returns a value to the caller, it goes to sleep, or it leaves to allocate room for
  one more waiter and starts again.\<close>

datatype 'a giro = Ritorna 'a | Dormi | Cresce

named_theorems frame_simps \<open>what an operation leaves as it was\<close>

section \<open>Lists\<close>

lemma map_list_update_nth:
  "i < length xs \<Longrightarrow> map f (xs[i := x]) = (map f xs)[i := f x]"
  by (simp add: map_update)

lemma list_update_same_conv_map:
  "(\<And>x. f (g x) = f x) \<Longrightarrow> map f (xs[i := g (xs ! i)]) = map f xs"
  by (cases "i < length xs") (auto simp: map_update list_update_same_conv list_update_beyond)

lemma nth_list_update_proj:
  "(\<And>x. f (g x) = f x) \<Longrightarrow> f (xs[i := g (xs ! i)] ! j) = f (xs ! j)"
  by (cases "i < length xs"; cases "i = j") (auto simp: list_update_beyond)

lemma mod_add_inj:
  fixes t i j n :: nat
  assumes "i < n" "j < n" "(t + i) mod n = (t + j) mod n"
  shows "i = j"
proof -
  have "i mod n = j mod n" using assms(3) by (simp add: mod_add_cong nat_mod_eq_iff)
  with assms(1,2) show ?thesis by simp
qed

lemma find_SomeD: "find P xs = Some x \<Longrightarrow> x \<in> set xs \<and> P x"
  by (auto simp: find_Some_iff)

lemma find_append:
  "find P (xs @ ys) = (case find P xs of None \<Rightarrow> find P ys | Some x \<Rightarrow> Some x)"
  by (induction xs) auto

lemma take_take_append: "take n (take n xs @ ys) = take n (xs @ ys)"
  by (cases "length xs \<le> n") (simp_all add: take_append)

section \<open>Rings\<close>

text \<open>Reading \<open>n\<close> elements of a ring from position \<open>t\<close>, and writing a list into it from position
  \<open>s\<close>: the copy loops of \<^verbatim>\<open>pipe_leggi\<close>, \<^verbatim>\<open>pipe_scrivi\<close>, \<^verbatim>\<open>metti\<close>, \<^verbatim>\<open>prendi\<close> and of the mailboxes.\<close>

definition ring_read :: "'a list \<Rightarrow> nat \<Rightarrow> nat \<Rightarrow> 'a list" where
  "ring_read buf t n = map (\<lambda>i. buf ! ((t + i) mod length buf)) [0..<n]"

fun ring_write :: "'a list \<Rightarrow> nat \<Rightarrow> 'a list \<Rightarrow> 'a list" where
  "ring_write buf s [] = buf"
| "ring_write buf s (x # xs) = ring_write (buf[s mod length buf := x]) (Suc s) xs"

lemma length_ring_read [simp]: "length (ring_read buf t n) = n"
  by (simp add: ring_read_def)

lemma ring_read_0 [simp]: "ring_read buf t 0 = []"
  by (simp add: ring_read_def)

lemma length_ring_write [simp]: "length (ring_write buf s xs) = length buf"
  by (induction buf s xs rule: ring_write.induct) simp_all

lemma ring_write_mod:
  "ring_write buf (s mod length buf) xs = ring_write buf s xs"
proof (induction xs arbitrary: buf s)
  case (Cons x xs)
  let ?b = "buf[s mod length buf := x]"
  have "ring_write buf (s mod length buf) (x # xs) = ring_write ?b (Suc (s mod length buf)) xs"
    by simp
  also have "\<dots> = ring_write ?b (Suc (s mod length buf) mod length ?b) xs"
    by (rule Cons.IH [symmetric])
  also have "\<dots> = ring_write ?b (Suc s mod length ?b) xs"
    by (simp add: mod_Suc_eq)
  also have "\<dots> = ring_write buf s (x # xs)"
    by (simp add: Cons.IH [of "?b", simplified])
  finally show ?case .
qed simp

lemma ring_read_mod:
  "ring_read buf (t mod length buf) n = ring_read buf t n"
  by (simp add: ring_read_def mod_add_left_eq)

lemma ring_read_snoc:
  assumes "n < length buf"
  shows "ring_read (buf[(t + n) mod length buf := x]) t (Suc n) = ring_read buf t n @ [x]"
proof -
  have pos: "0 < length buf" using assms by linarith
  have "(t + n) mod length buf \<noteq> (t + i) mod length buf" if "i < n" for i
    using mod_add_inj [of i "length buf" n t] that assms by auto
  then show ?thesis using pos assms by (auto simp: ring_read_def)
qed

lemma ring_read_ring_write:
  "n + length xs \<le> length buf \<Longrightarrow>
   ring_read (ring_write buf (t + n) xs) t (n + length xs) = ring_read buf t n @ xs"
proof (induction xs arbitrary: buf n)
  case (Cons x xs)
  let ?b = "buf[(t + n) mod length buf := x]"
  have "ring_read (ring_write ?b (t + Suc n) xs) t (Suc n + length xs) = ring_read ?b t (Suc n) @ xs"
    by (rule Cons.IH) (use Cons.prems in simp)
  then show ?case using Cons.prems by (simp add: ring_read_snoc)
qed simp

lemma take_ring_read: "take k (ring_read buf t n) = ring_read buf t (min k n)"
  by (simp add: ring_read_def take_map min_def)

lemma drop_ring_read: "drop k (ring_read buf t n) = ring_read buf (t + k) (n - k)"
  by (auto simp: ring_read_def list_eq_iff_nth_eq add.assoc)

section \<open>Circular doubly linked lists\<close>

text \<open>The abstraction of the run queues: successor and predecessor functions over cells that link
  the cells of \<open>xs\<close> in a circle.\<close>

definition circ :: "(nat \<Rightarrow> nat option) \<Rightarrow> (nat \<Rightarrow> nat option) \<Rightarrow> nat list \<Rightarrow> bool" where
  "circ nx pv xs \<longleftrightarrow> distinct xs \<and> map nx xs = map Some (rotate1 xs) \<and> map pv (rotate1 xs) = map Some xs"

lemma circ_Nil [simp]: "circ nx pv []"
  by (simp add: circ_def)

lemma circ_single: "circ (nx(i := Some i)) (pv(i := Some i)) [i]"
  by (simp add: circ_def)

lemma circ_distinct: "circ nx pv xs \<Longrightarrow> distinct xs"
  by (simp add: circ_def)

lemma circ_cong:
  assumes "circ nx pv xs" "\<And>i. i \<in> set xs \<Longrightarrow> nx' i = nx i \<and> pv' i = pv i"
  shows "circ nx' pv' xs"
proof -
  have "map nx' xs = map nx xs" "map pv' (rotate1 xs) = map pv (rotate1 xs)"
    using assms(2) by (auto intro: map_cong)
  then show ?thesis using assms(1) unfolding circ_def by metis
qed

lemma circ_rotate1: "circ nx pv xs \<Longrightarrow> circ nx pv (rotate1 xs)"
  by (simp add: circ_def rotate1_map [symmetric])

lemma circ_rotate: "circ nx pv xs \<Longrightarrow> circ nx pv (rotate n xs)"
  by (induction n) (simp_all add: circ_rotate1)

lemma circ_nth_next:
  assumes "circ nx pv xs" "k < length xs"
  shows "nx (xs ! k) = Some (xs ! (Suc k mod length xs))"
proof -
  have "map nx xs ! k = map Some (rotate1 xs) ! k" using assms by (simp add: circ_def)
  with assms(2) show ?thesis by (simp add: nth_rotate1)
qed

lemma circ_prev_hd:
  assumes "circ nx pv (h # ys)"
  shows "pv h = Some (last (h # ys))"
proof -
  have "map pv (ys @ [h]) = map Some (h # ys)" using assms by (simp add: circ_def)
  then have "last (map pv (ys @ [h])) = last (map Some (h # ys))" by (rule arg_cong)
  then show ?thesis by (simp add: last_map)
qed

lemma circ_snoc:
  assumes c: "circ nx pv (h # ys)" and i: "i \<notin> set (h # ys)" and l: "l = last (h # ys)"
  shows "circ (nx(l := Some i, i := Some h)) (pv(i := Some l, h := Some i)) (h # ys @ [i])"
proof (cases ys rule: rev_cases)
  case Nil
  then show ?thesis using i l by (auto simp: circ_def)
next
  case (snoc zs z)
  have z: "l = z" using l snoc by simp
  have d: "distinct (h # zs @ [z])" and n: "map nx (h # zs @ [z]) = map Some (zs @ [z, h])"
    and p: "map pv (zs @ [z, h]) = map Some (h # zs @ [z])"
    using c snoc by (simp_all add: circ_def)
  have "map nx (h # zs) = map Some (zs @ [z])" using n by (auto simp: append_eq_append_conv2 Cons_eq_append_conv)
  moreover have "map pv (zs @ [z]) = map Some (h # zs)" using p by (auto simp: append_eq_append_conv2 Cons_eq_append_conv)
  moreover have "map (nx(z := Some i, i := Some h)) (h # zs) = map nx (h # zs)"
    and "map (pv(i := Some z, h := Some i)) (zs @ [z]) = map pv (zs @ [z])"
    using d i snoc by (auto intro: map_cong)
  ultimately show ?thesis using d i snoc z by (auto simp: circ_def)
qed

lemma circ_remove_head:
  assumes c: "circ nx pv (i # n # ys)" and p: "p = last (n # ys)"
  shows "circ (nx(p := Some n)) (pv(n := Some p)) (n # ys)"
proof (cases ys rule: rev_cases)
  case Nil
  then show ?thesis using p by (simp add: circ_def)
next
  case (snoc zs z)
  have d: "distinct (i # n # zs @ [z])" and nx: "map nx (n # zs @ [z]) = map Some (zs @ [z, i])"
    and pv: "map pv (n # zs @ [z, i]) = map Some (i # n # zs @ [z])"
    using c snoc by (simp_all add: circ_def)
  have "map nx (n # zs) = map Some (zs @ [z])" using nx by (auto simp: append_eq_append_conv2 Cons_eq_append_conv)
  moreover have "map pv (zs @ [z]) = map Some (n # zs)" using pv by (auto simp: append_eq_append_conv2 Cons_eq_append_conv)
  moreover have "map (nx(z := Some n)) (n # zs) = map nx (n # zs)"
    and "map (pv(n := Some z)) (zs @ [z]) = map pv (zs @ [z])"
    using d by (auto intro: map_cong)
  ultimately show ?thesis using d p snoc by (auto simp: circ_def)
qed

text \<open>Removing any cell of the circle: rotate it to the front, remove it, rotate back.\<close>

lemma rotate_to_front: "rotate (length us) (us @ i # vs) = i # vs @ us"
  by (simp add: rotate_append)

lemma circ_remove:
  assumes c: "circ nx pv (us @ i # vs)" and ne: "us @ vs \<noteq> []"
    and n: "nx i = Some n" and p: "pv i = Some p"
  shows "circ (nx(p := Some n)) (pv(n := Some p)) (us @ vs)"
    and "n = hd (vs @ us)" and "n \<noteq> i"
proof -
  have r: "circ nx pv (i # vs @ us)" using circ_rotate [OF c, of "length us"] by (simp add: rotate_to_front)
  obtain m ys where m: "vs @ us = m # ys" using ne by (cases "vs @ us") auto
  have r': "circ nx pv (i # m # ys)" using r m by simp
  have "nx i = Some m" using r' by (simp add: circ_def)
  then have nm: "n = m" using n by simp
  have "pv i = Some (last (i # m # ys))" using circ_prev_hd [OF r'] .
  then have pl: "p = last (m # ys)" using p by simp
  have "circ (nx(p := Some n)) (pv(n := Some p)) (vs @ us)"
    using circ_remove_head [OF r' pl] nm m by simp
  then have "circ (nx(p := Some n)) (pv(n := Some p)) (rotate (length vs) (vs @ us))"
    by (rule circ_rotate)
  then show "circ (nx(p := Some n)) (pv(n := Some p)) (us @ vs)" by (simp add: rotate_append)
  show "n = hd (vs @ us)" using nm m by simp
  show "n \<noteq> i" using nm circ_distinct [OF r'] by auto
qed

section \<open>A bounded first-in first-out store\<close>

text \<open>The interface: what is stored, in order; storing a list takes as much of it as there is room
  for, and says how much; taking \<open>n\<close> gives the oldest \<open>n\<close> (or all there are).\<close>

datatype 'a fifo_op = Put "'a list" | Get nat

text \<open>A run of operations: what was accepted and what was handed out, in order.\<close>

fun fifo_run :: "('a list \<Rightarrow> 'q \<Rightarrow> nat \<times> 'q) \<Rightarrow> (nat \<Rightarrow> 'q \<Rightarrow> 'a list \<times> 'q) \<Rightarrow> 'a fifo_op list \<Rightarrow> 'q
    \<Rightarrow> 'a list \<times> 'a list \<times> 'q" where
  "fifo_run put get [] q = ([], [], q)"
| "fifo_run put get (Put xs # ops) q =
     (let (k, q') = put xs q; (w, r, q'') = fifo_run put get ops q' in (take k xs @ w, r, q''))"
| "fifo_run put get (Get n # ops) q =
     (let (ys, q') = get n q; (w, r, q'') = fifo_run put get ops q' in (w, ys @ r, q''))"

locale bounded_fifo =
  fixes content :: "'q \<Rightarrow> 'a list"
    and cap :: nat
    and ok :: "'q \<Rightarrow> bool"
    and put :: "'a list \<Rightarrow> 'q \<Rightarrow> nat \<times> 'q"
    and get :: "nat \<Rightarrow> 'q \<Rightarrow> 'a list \<times> 'q"
  assumes content_bound: "ok q \<Longrightarrow> length (content q) \<le> cap"
    and put_count: "ok q \<Longrightarrow> fst (put xs q) = min (length xs) (cap - length (content q))"
    and put_content: "ok q \<Longrightarrow> content (snd (put xs q)) = content q @ take (fst (put xs q)) xs"
    and put_ok: "ok q \<Longrightarrow> ok (snd (put xs q))"
    and get_result: "ok q \<Longrightarrow> fst (get n q) = take n (content q)"
    and get_content: "ok q \<Longrightarrow> content (snd (get n q)) = drop n (content q)"
    and get_ok: "ok q \<Longrightarrow> ok (snd (get n q))"
begin

text \<open>Nothing is lost, duplicated or reordered: what was in the store, followed by what was
  accepted, is what was handed out followed by what is left.\<close>

lemma run_stream:
  "ok q \<Longrightarrow> fifo_run put get ops q = (w, r, q') \<Longrightarrow> ok q' \<and> content q @ w = r @ content q'"
proof (induction ops arbitrary: q w r q')
  case (Cons op ops)
  show ?case
  proof (cases op)
    case (Put xs)
    obtain k q1 where p: "put xs q = (k, q1)" by fastforce
    obtain w1 where run: "fifo_run put get ops q1 = (w1, r, q')" and w: "w = take k xs @ w1"
      using Cons.prems(2) Put p by (auto split: prod.splits)
    have "ok q1" and "content q1 = content q @ take k xs"
      using put_ok [OF Cons.prems(1), of xs] put_content [OF Cons.prems(1), of xs] p by auto
    with Cons.IH [OF _ run] w show ?thesis by simp
  next
    case (Get n)
    obtain ys q1 where g: "get n q = (ys, q1)" by fastforce
    obtain r1 where run: "fifo_run put get ops q1 = (w, r1, q')" and r: "r = ys @ r1"
      using Cons.prems(2) Get g by (auto split: prod.splits)
    have "ok q1" "ys = take n (content q)" "content q1 = drop n (content q)"
      using get_ok [OF Cons.prems(1), of n] get_result [OF Cons.prems(1), of n]
        get_content [OF Cons.prems(1), of n] g by auto
    with Cons.IH [OF _ run] r show ?thesis
      by (metis append.assoc append_take_drop_id)
  qed
qed simp

lemma run_from_empty:
  assumes "ok q" "content q = []" "fifo_run put get ops q = (w, r, q')"
  shows "w = r @ content q'" "length (content q') \<le> cap"
  using run_stream [OF assms(1,3)] assms(2) content_bound [of q'] by auto

end

end
