(* ===== verification/Sched.thy ===== *)
theory Sched
  imports Exos_Prelude
begin

text \<open>
  The part of the scheduler (\<^verbatim>\<open>kernel/sched/sched.c\<close>, \<^verbatim>\<open>kernel/include/sched.h\<close>) on which the other
  components stand: the process table, the run queues as circular doubly linked lists, the choice
  of the next process, the change of process, blocking and waking.

  A \<^verbatim>\<open>Process *\<close> is the number of its slot in the table (\<^verbatim>\<open>PROC_POSTO\<close>), a pointer that may be NULL
  an option. The fields of the record are those the modelled functions read or write. What the
  hardware does at a change of process (\<^verbatim>\<open>context_switch\<close>, \<^verbatim>\<open>gdt_set_kernel_stack\<close>, the x87 state) has
  no counterpart in the state.
\<close>

section \<open>The process table\<close>

datatype proc_state = PROC_UNUSED | PROC_READY | PROC_RUNNING | PROC_BLOCKED | PROC_ZOMBIE
  | PROC_SLEEPING | PROC_NASCENTE

abbreviation PRIO_IDLE :: nat where "PRIO_IDLE \<equiv> 0"
abbreviation PRIO_LOW :: nat where "PRIO_LOW \<equiv> 1"
abbreviation PRIO_NORMAL :: nat where "PRIO_NORMAL \<equiv> 2"
abbreviation PRIO_HIGH :: nat where "PRIO_HIGH \<equiv> 3"
abbreviation PRIO_RT :: nat where "PRIO_RT \<equiv> 4"
abbreviation PRIO_MAX :: nat where "PRIO_MAX \<equiv> PRIO_RT"

definition quantum_table :: "nat list" where
  "quantum_table = [1, 2, 4, 8, 16]"

record ipc_message =
  sender_pid :: u32
  tipo :: u32
  len :: nat
  data :: "u8 list"

record process =
  pid :: u32
  tgid :: u32
  state :: proc_state
  priority :: nat
  quantum :: nat
  quantum_total :: nat
  page_directory :: nat
  uid :: u32
  is_driver :: bool
  interrotto :: bool
  seg_flag :: "u32 list"
  seg_bloccati :: u32
  seg_pendenti :: u32
  seg_attesi :: u32
  seg_sospeso :: bool
  seg_salvata :: u32
  seg_ingresso :: u32
  seg_maschera_az :: "u32 list"
  allarme_tick :: u32
  allarme_passo :: u32
  ticks_total :: u32
  sleep_until :: u32
  block_until :: u32
  next_p :: "nat option"
  prev_p :: "nat option"
  ipc_mailbox :: "ipc_message list"
  ipc_head :: nat
  ipc_tail :: nat
  ipc_count :: nat
  ipc_fila_testa :: "nat option"
  ipc_fila_coda :: "nat option"
  ipc_riservati :: nat
  ipc_fila_su :: "nat option"
  ipc_fila_prima :: "nat option"
  ipc_fila_dopo :: "nat option"
  ipc_fila_concesso :: bool
  cpu :: nat
  cpu_fissa :: nat
  nel_kernel :: bool

text \<open>\<^verbatim>\<open>g_current\<close> and \<^verbatim>\<open>g_idle_task\<close> are the entries of the executing processor in \<^verbatim>\<open>g_corrente\<close> and
  \<^verbatim>\<open>g_ozio\<close>; which processor executes is \<open>g_cpu\<close> (\<^verbatim>\<open>cpu_n()\<close>).\<close>

record sched =
  g_proc :: "process list"
  g_run_queue :: "nat option list"
  g_corrente :: "nat option list"
  g_ozio :: "nat list"
  g_cpu :: nat
  g_smp_lavora :: bool
  g_sched_stopped :: bool
  g_ticks :: u32
  g_switch_count :: u32
  g_allarmi_armati :: u32
  g_allarme_prossimo :: u32

definition g_current :: "sched \<Rightarrow> nat option" where
  "g_current s = g_corrente s ! g_cpu s"

definition g_idle_task :: "sched \<Rightarrow> nat" where
  "g_idle_task s = g_ozio s ! g_cpu s"

definition proc_get_current :: "sched \<Rightarrow> nat option" where
  "proc_get_current s = g_current s"

definition proc_upd :: "nat \<Rightarrow> (process \<Rightarrow> process) \<Rightarrow> sched \<Rightarrow> sched" where
  "proc_upd i f s = s\<lparr>g_proc := (g_proc s)[i := f (g_proc s ! i)]\<rparr>"

definition proc_get_by_pid :: "u32 \<Rightarrow> sched \<Rightarrow> nat option" where
  "proc_get_by_pid k s =
     find (\<lambda>i. pid (g_proc s ! i) = k \<and> state (g_proc s ! i) \<noteq> PROC_UNUSED) [0..<length (g_proc s)]"

section \<open>The run queues\<close>

definition runq_add :: "nat \<Rightarrow> sched \<Rightarrow> sched" where
  "runq_add i s =
     (let prio = priority (g_proc s ! i) in
      case g_run_queue s ! prio of
        None \<Rightarrow> (proc_upd i (\<lambda>p. p\<lparr>next_p := Some i, prev_p := Some i\<rparr>) s)
                  \<lparr>g_run_queue := (g_run_queue s)[prio := Some i]\<rparr>
      | Some head \<Rightarrow>
          (let tail = the (prev_p (g_proc s ! head));
               s1 = proc_upd tail (\<lambda>p. p\<lparr>next_p := Some i\<rparr>) s;
               s2 = proc_upd i (\<lambda>p. p\<lparr>prev_p := Some tail\<rparr>) s1;
               s3 = proc_upd i (\<lambda>p. p\<lparr>next_p := Some head\<rparr>) s2
           in proc_upd head (\<lambda>p. p\<lparr>prev_p := Some i\<rparr>) s3))"

definition runq_remove :: "nat \<Rightarrow> sched \<Rightarrow> sched" where
  "runq_remove i s =
     (let prio = priority (g_proc s ! i) in
      case next_p (g_proc s ! i) of
        None \<Rightarrow> s
      | Some n \<Rightarrow>
          (let s' = (if n = i then s\<lparr>g_run_queue := (g_run_queue s)[prio := None]\<rparr>
                     else (let pr = the (prev_p (g_proc s ! i));
                               s1 = proc_upd pr (\<lambda>p. p\<lparr>next_p := Some n\<rparr>) s;
                               s2 = proc_upd n (\<lambda>p. p\<lparr>prev_p := Some pr\<rparr>) s1
                           in if g_run_queue s ! prio = Some i
                              then s2\<lparr>g_run_queue := (g_run_queue s2)[prio := Some n]\<rparr> else s2))
           in proc_upd i (\<lambda>p. p\<lparr>next_p := None, prev_p := None\<rparr>) s'))"

section \<open>Choosing the next process\<close>

definition sched_puo_qui :: "sched \<Rightarrow> nat \<Rightarrow> bool" where
  "sched_puo_qui s i =
     (let p = g_proc s ! i; me = g_cpu s in
      if \<not> g_smp_lavora s then True
      else if cpu_fissa p \<noteq> 0 then cpu_fissa p - 1 = me
      else if nel_kernel p then me = 0
      else list_all (\<lambda>c. c = me \<or>
             (case g_corrente s ! c of
                None \<Rightarrow> True
              | Some q \<Rightarrow> q = i \<or>
                  \<not> (state (g_proc s ! q) = PROC_RUNNING \<and> \<not> nel_kernel (g_proc s ! q) \<and>
                     page_directory (g_proc s ! q) = page_directory p)))
             [0..<length (g_corrente s)])"

text \<open>The scan of one circular queue, a \<^verbatim>\<open>do ... while (p != head)\<close>. The fuel is the number of slots of
  the table: a queue holds no slot twice, and \<open>pick_scan_find\<close> below shows that it is enough.\<close>

fun pick_scan :: "nat \<Rightarrow> sched \<Rightarrow> nat \<Rightarrow> nat \<Rightarrow> nat option" where
  "pick_scan 0 s head p = None"
| "pick_scan (Suc fuel) s head p =
     (if state (g_proc s ! p) = PROC_READY \<and> sched_puo_qui s p then Some p
      else (let q = the (next_p (g_proc s ! p)) in
            if q = head then None else pick_scan fuel s head q))"

fun sched_pick_from :: "nat list \<Rightarrow> sched \<Rightarrow> nat \<times> sched" where
  "sched_pick_from [] s = (g_idle_task s, s)"
| "sched_pick_from (prio # prios) s =
     (case g_run_queue s ! prio of
        None \<Rightarrow> sched_pick_from prios s
      | Some head \<Rightarrow>
          (case pick_scan (length (g_proc s)) s head head of
             None \<Rightarrow> sched_pick_from prios s
           | Some p \<Rightarrow> (p, s\<lparr>g_run_queue := (g_run_queue s)[prio := next_p (g_proc s ! p)]\<rparr>)))"

definition sched_pick_next :: "sched \<Rightarrow> nat \<times> sched" where
  "sched_pick_next s = sched_pick_from (rev [PRIO_IDLE..<Suc PRIO_MAX]) s"

definition sched_switch_to :: "nat \<Rightarrow> sched \<Rightarrow> sched" where
  "sched_switch_to nxt s =
     (if g_current s = Some nxt then s
      else
        (let prev = the (g_current s);
             s1 = (if state (g_proc s ! prev) = PROC_RUNNING
                   then proc_upd prev (\<lambda>p. p\<lparr>state := PROC_READY\<rparr>) s else s);
             s2 = proc_upd nxt (\<lambda>p. p\<lparr>state := PROC_RUNNING, quantum := quantum_total p, cpu := g_cpu s\<rparr>) s1
         in s2\<lparr>g_corrente := (g_corrente s2)[g_cpu s2 := Some nxt],
               g_switch_count := g_switch_count s2 + 1\<rparr>))"

definition sched_battito_comune :: "sched \<Rightarrow> sched" where
  "sched_battito_comune s =
     (let cur = the (g_current s) in
      if cur = g_idle_task s then
        (let (nxt, s1) = sched_pick_next s in if nxt \<noteq> cur then sched_switch_to nxt s1 else s1)
      else if quantum (g_proc s ! cur) = 0 then
        (let (nxt, s1) = sched_pick_next s in
         if nxt \<noteq> cur then sched_switch_to nxt s1
         else proc_upd cur (\<lambda>p. p\<lparr>quantum := quantum_total p\<rparr>) s1)
      else s)"

definition sched_yield :: "sched \<Rightarrow> sched" where
  "sched_yield s =
     (let cur = the (g_current s);
          s0 = proc_upd cur (\<lambda>p. p\<lparr>quantum := 0\<rparr>) s;
          (nxt, s1) = sched_pick_next s0
      in if nxt \<noteq> cur then sched_switch_to nxt s1 else s1)"

section \<open>Blocking and waking\<close>

definition sched_block :: "proc_state \<Rightarrow> sched \<Rightarrow> sched" where
  "sched_block reason s =
     (let cur = the (g_current s);
          s1 = (if reason = PROC_BLOCKED \<or> reason = PROC_SLEEPING
                then runq_remove cur (proc_upd cur (\<lambda>p. p\<lparr>state := reason\<rparr>) s) else s);
          (nxt, s2) = sched_pick_next s1
      in sched_switch_to nxt s2)"

definition sched_unblock_locked :: "u32 \<Rightarrow> sched \<Rightarrow> sched" where
  "sched_unblock_locked k s =
     (case find (\<lambda>i. pid (g_proc s ! i) = k \<and>
                     (state (g_proc s ! i) = PROC_NASCENTE \<or> state (g_proc s ! i) = PROC_BLOCKED))
                [0..<length (g_proc s)] of
        None \<Rightarrow> s
      | Some i \<Rightarrow>
          (if state (g_proc s ! i) = PROC_NASCENTE then s
           else runq_add i (proc_upd i (\<lambda>p. p\<lparr>block_until := 0, state := PROC_READY\<rparr>) s)))"

definition proc_set_ready :: "nat \<Rightarrow> sched \<Rightarrow> sched" where
  "proc_set_ready i s =
     (let p = g_proc s ! i in
      if state p = PROC_READY then s
      else
        (let s1 = (if state p = PROC_NASCENTE \<and> is_driver p \<and> priority p = PRIO_NORMAL
                   then proc_upd i (\<lambda>p. p\<lparr>priority := PRIO_HIGH, quantum := quantum_table ! PRIO_HIGH,
                                           quantum_total := quantum_table ! PRIO_HIGH\<rparr>) s
                   else s)
         in runq_add i (proc_upd i (\<lambda>p. p\<lparr>state := PROC_READY\<rparr>) s1)))"

definition proc_interrompi_locked :: "u32 \<Rightarrow> sched \<Rightarrow> bool \<times> sched" where
  "proc_interrompi_locked k s =
     (case proc_get_by_pid k s of
        None \<Rightarrow> (False, s)
      | Some i \<Rightarrow>
          (let s1 = proc_upd i (\<lambda>p. p\<lparr>interrotto := True\<rparr>) s in
           (True, if state (g_proc s1 ! i) = PROC_BLOCKED then sched_unblock_locked k s1 else s1)))"

definition proc_interrotto :: "sched \<Rightarrow> bool" where
  "proc_interrotto s = (case g_current s of None \<Rightarrow> False | Some i \<Rightarrow> interrotto (g_proc s ! i))"

definition sched_sleep :: "u32 \<Rightarrow> sched \<Rightarrow> sched" where
  "sched_sleep ms s =
     (let ticks = (ms + 9) div 10; ticks = (if ticks = 0 then 1 else ticks);
          cur = the (g_current s)
      in sched_block PROC_SLEEPING (proc_upd cur (\<lambda>p. p\<lparr>sleep_until := g_ticks s + ticks\<rparr>) s))"

text \<open>The loop of the timer interrupt that wakes the sleepers and the waits with a deadline, one slot at a
  time: the two tests follow each other on the same process.\<close>

definition sveglia_posto :: "nat \<Rightarrow> sched \<Rightarrow> sched" where
  "sveglia_posto i s =
     (let p = g_proc s ! i;
          s1 = (if state p = PROC_SLEEPING \<and> g_ticks s \<ge> sleep_until p
                then runq_add i (proc_upd i (\<lambda>p. p\<lparr>state := PROC_READY\<rparr>) s) else s);
          p1 = g_proc s1 ! i
      in if state p1 = PROC_BLOCKED \<and> block_until p1 \<noteq> 0 \<and> g_ticks s \<ge> block_until p1
         then runq_add i (proc_upd i (\<lambda>p. p\<lparr>block_until := 0, state := PROC_READY\<rparr>) s1) else s1)"

definition sveglia_scaduti :: "sched \<Rightarrow> sched" where
  "sveglia_scaduti s = fold sveglia_posto [0..<length (g_proc s)] s"

definition consuma_quanto :: "sched \<Rightarrow> sched" where
  "consuma_quanto s =
     proc_upd (the (g_current s))
       (\<lambda>p. p\<lparr>ticks_total := ticks_total p + 1, quantum := (if quantum p > 0 then quantum p - 1 else quantum p)\<rparr>) s"

definition sched_battito_cpu :: "sched \<Rightarrow> sched" where
  "sched_battito_cpu s =
     (if g_sched_stopped s \<or> \<not> g_smp_lavora s \<or> g_current s = None then s
      else sched_battito_comune (consuma_quanto s))"

section \<open>What the operations leave as it was\<close>

lemma proc_upd_simps [simp]:
  "length (g_proc (proc_upd i f s)) = length (g_proc s)"
  "g_run_queue (proc_upd i f s) = g_run_queue s"
  "g_corrente (proc_upd i f s) = g_corrente s"
  "g_ozio (proc_upd i f s) = g_ozio s"
  "g_cpu (proc_upd i f s) = g_cpu s"
  "g_smp_lavora (proc_upd i f s) = g_smp_lavora s"
  "g_sched_stopped (proc_upd i f s) = g_sched_stopped s"
  "g_ticks (proc_upd i f s) = g_ticks s"
  "g_switch_count (proc_upd i f s) = g_switch_count s"
  "g_current (proc_upd i f s) = g_current s"
  "g_idle_task (proc_upd i f s) = g_idle_task s"
  by (simp_all add: proc_upd_def g_current_def g_idle_task_def)

lemma proc_upd_nth:
  "g_proc (proc_upd i f s) ! j =
     (if i = j \<and> j < length (g_proc s) then f (g_proc s ! j) else g_proc s ! j)"
  by (cases "i < length (g_proc s)") (auto simp: proc_upd_def nth_list_update list_update_beyond)

lemma proc_upd_proj:
  "(\<And>p. g (f p) = g p) \<Longrightarrow> g (g_proc (proc_upd i f s) ! j) = g (g_proc s ! j)"
  by (simp add: proc_upd_nth)

text \<open>A field that neither list linking nor the state changes touch, and the equality of two
  schedulers on everything but the run queues.\<close>

definition unlinked :: "process \<Rightarrow> process" where
  "unlinked p = p\<lparr>next_p := None, prev_p := None\<rparr>"

lemma runq_add_unlinked [simp]:
  "unlinked (g_proc (runq_add i s) ! j) = unlinked (g_proc s ! j)"
  by (auto simp: runq_add_def Let_def unlinked_def proc_upd_nth split: option.splits)

lemma runq_remove_unlinked [simp]:
  "unlinked (g_proc (runq_remove i s) ! j) = unlinked (g_proc s ! j)"
  by (auto simp: runq_remove_def Let_def unlinked_def proc_upd_nth split: option.splits)

lemma runq_add_frame [simp]:
  "length (g_proc (runq_add i s)) = length (g_proc s)"
  "g_corrente (runq_add i s) = g_corrente s" "g_ozio (runq_add i s) = g_ozio s"
  "g_cpu (runq_add i s) = g_cpu s" "g_smp_lavora (runq_add i s) = g_smp_lavora s"
  "g_sched_stopped (runq_add i s) = g_sched_stopped s" "g_ticks (runq_add i s) = g_ticks s"
  "g_current (runq_add i s) = g_current s" "g_idle_task (runq_add i s) = g_idle_task s"
  by (auto simp: runq_add_def Let_def g_current_def g_idle_task_def split: option.splits)

lemma runq_remove_frame [simp]:
  "length (g_proc (runq_remove i s)) = length (g_proc s)"
  "g_corrente (runq_remove i s) = g_corrente s" "g_ozio (runq_remove i s) = g_ozio s"
  "g_cpu (runq_remove i s) = g_cpu s" "g_smp_lavora (runq_remove i s) = g_smp_lavora s"
  "g_sched_stopped (runq_remove i s) = g_sched_stopped s" "g_ticks (runq_remove i s) = g_ticks s"
  "g_current (runq_remove i s) = g_current s" "g_idle_task (runq_remove i s) = g_idle_task s"
  by (auto simp: runq_remove_def Let_def g_current_def g_idle_task_def split: option.splits)

lemma unlinked_sel [simp]:
  "state (unlinked p) = state p" "pid (unlinked p) = pid p" "tgid (unlinked p) = tgid p"
  "priority (unlinked p) = priority p" "quantum (unlinked p) = quantum p"
  "quantum_total (unlinked p) = quantum_total p" "page_directory (unlinked p) = page_directory p"
  "uid (unlinked p) = uid p"
  "seg_flag (unlinked p) = seg_flag p" "seg_bloccati (unlinked p) = seg_bloccati p"
  "seg_pendenti (unlinked p) = seg_pendenti p" "seg_attesi (unlinked p) = seg_attesi p"
  "seg_salvata (unlinked p) = seg_salvata p" "seg_ingresso (unlinked p) = seg_ingresso p"
  "seg_maschera_az (unlinked p) = seg_maschera_az p" "interrotto (unlinked p) = interrotto p"
  "seg_sospeso (unlinked p) = seg_sospeso p" "allarme_tick (unlinked p) = allarme_tick p"
  "allarme_passo (unlinked p) = allarme_passo p" "sleep_until (unlinked p) = sleep_until p"
  "block_until (unlinked p) = block_until p" "ipc_mailbox (unlinked p) = ipc_mailbox p"
  "ipc_head (unlinked p) = ipc_head p" "ipc_tail (unlinked p) = ipc_tail p"
  "ipc_count (unlinked p) = ipc_count p" "ipc_fila_testa (unlinked p) = ipc_fila_testa p"
  "ipc_fila_coda (unlinked p) = ipc_fila_coda p" "ipc_riservati (unlinked p) = ipc_riservati p"
  "ipc_fila_su (unlinked p) = ipc_fila_su p" "ipc_fila_prima (unlinked p) = ipc_fila_prima p"
  "ipc_fila_dopo (unlinked p) = ipc_fila_dopo p"
  "ipc_fila_concesso (unlinked p) = ipc_fila_concesso p" "cpu_fissa (unlinked p) = cpu_fissa p"
  "nel_kernel (unlinked p) = nel_kernel p" "is_driver (unlinked p) = is_driver p"
  by (simp_all add: unlinked_def)

lemma runq_add_field:
  "(\<And>p. g (unlinked p) = g p) \<Longrightarrow> g (g_proc (runq_add i s) ! j) = g (g_proc s ! j)"
  by (metis runq_add_unlinked)

lemma runq_remove_field:
  "(\<And>p. g (unlinked p) = g p) \<Longrightarrow> g (g_proc (runq_remove i s) ! j) = g (g_proc s ! j)"
  by (metis runq_remove_unlinked)

lemma runq_add_fields [simp]:
  "state (g_proc (runq_add i s) ! j) = state (g_proc s ! j)"
  "pid (g_proc (runq_add i s) ! j) = pid (g_proc s ! j)"
  "tgid (g_proc (runq_add i s) ! j) = tgid (g_proc s ! j)"
  "priority (g_proc (runq_add i s) ! j) = priority (g_proc s ! j)"
  "quantum (g_proc (runq_add i s) ! j) = quantum (g_proc s ! j)"
  "quantum_total (g_proc (runq_add i s) ! j) = quantum_total (g_proc s ! j)"
  "page_directory (g_proc (runq_add i s) ! j) = page_directory (g_proc s ! j)"
  "uid (g_proc (runq_add i s) ! j) = uid (g_proc s ! j)"
  "interrotto (g_proc (runq_add i s) ! j) = interrotto (g_proc s ! j)"
  "seg_flag (g_proc (runq_add i s) ! j) = seg_flag (g_proc s ! j)"
  "seg_bloccati (g_proc (runq_add i s) ! j) = seg_bloccati (g_proc s ! j)"
  "seg_pendenti (g_proc (runq_add i s) ! j) = seg_pendenti (g_proc s ! j)"
  "seg_attesi (g_proc (runq_add i s) ! j) = seg_attesi (g_proc s ! j)"
  "seg_sospeso (g_proc (runq_add i s) ! j) = seg_sospeso (g_proc s ! j)"
  "seg_salvata (g_proc (runq_add i s) ! j) = seg_salvata (g_proc s ! j)"
  "seg_ingresso (g_proc (runq_add i s) ! j) = seg_ingresso (g_proc s ! j)"
  "seg_maschera_az (g_proc (runq_add i s) ! j) = seg_maschera_az (g_proc s ! j)"
  "allarme_tick (g_proc (runq_add i s) ! j) = allarme_tick (g_proc s ! j)"
  "allarme_passo (g_proc (runq_add i s) ! j) = allarme_passo (g_proc s ! j)"
  "sleep_until (g_proc (runq_add i s) ! j) = sleep_until (g_proc s ! j)"
  "block_until (g_proc (runq_add i s) ! j) = block_until (g_proc s ! j)"
  "ipc_mailbox (g_proc (runq_add i s) ! j) = ipc_mailbox (g_proc s ! j)"
  "ipc_head (g_proc (runq_add i s) ! j) = ipc_head (g_proc s ! j)"
  "ipc_tail (g_proc (runq_add i s) ! j) = ipc_tail (g_proc s ! j)"
  "ipc_count (g_proc (runq_add i s) ! j) = ipc_count (g_proc s ! j)"
  "ipc_fila_testa (g_proc (runq_add i s) ! j) = ipc_fila_testa (g_proc s ! j)"
  "ipc_fila_coda (g_proc (runq_add i s) ! j) = ipc_fila_coda (g_proc s ! j)"
  "ipc_riservati (g_proc (runq_add i s) ! j) = ipc_riservati (g_proc s ! j)"
  "ipc_fila_su (g_proc (runq_add i s) ! j) = ipc_fila_su (g_proc s ! j)"
  "ipc_fila_prima (g_proc (runq_add i s) ! j) = ipc_fila_prima (g_proc s ! j)"
  "ipc_fila_dopo (g_proc (runq_add i s) ! j) = ipc_fila_dopo (g_proc s ! j)"
  "ipc_fila_concesso (g_proc (runq_add i s) ! j) = ipc_fila_concesso (g_proc s ! j)"
  "cpu_fissa (g_proc (runq_add i s) ! j) = cpu_fissa (g_proc s ! j)"
  "nel_kernel (g_proc (runq_add i s) ! j) = nel_kernel (g_proc s ! j)"
  "is_driver (g_proc (runq_add i s) ! j) = is_driver (g_proc s ! j)"
  by (rule runq_add_field, simp)+

lemma runq_remove_fields [simp]:
  "state (g_proc (runq_remove i s) ! j) = state (g_proc s ! j)"
  "pid (g_proc (runq_remove i s) ! j) = pid (g_proc s ! j)"
  "tgid (g_proc (runq_remove i s) ! j) = tgid (g_proc s ! j)"
  "priority (g_proc (runq_remove i s) ! j) = priority (g_proc s ! j)"
  "quantum (g_proc (runq_remove i s) ! j) = quantum (g_proc s ! j)"
  "quantum_total (g_proc (runq_remove i s) ! j) = quantum_total (g_proc s ! j)"
  "page_directory (g_proc (runq_remove i s) ! j) = page_directory (g_proc s ! j)"
  "uid (g_proc (runq_remove i s) ! j) = uid (g_proc s ! j)"
  "interrotto (g_proc (runq_remove i s) ! j) = interrotto (g_proc s ! j)"
  "seg_flag (g_proc (runq_remove i s) ! j) = seg_flag (g_proc s ! j)"
  "seg_bloccati (g_proc (runq_remove i s) ! j) = seg_bloccati (g_proc s ! j)"
  "seg_pendenti (g_proc (runq_remove i s) ! j) = seg_pendenti (g_proc s ! j)"
  "seg_attesi (g_proc (runq_remove i s) ! j) = seg_attesi (g_proc s ! j)"
  "seg_sospeso (g_proc (runq_remove i s) ! j) = seg_sospeso (g_proc s ! j)"
  "seg_salvata (g_proc (runq_remove i s) ! j) = seg_salvata (g_proc s ! j)"
  "seg_ingresso (g_proc (runq_remove i s) ! j) = seg_ingresso (g_proc s ! j)"
  "seg_maschera_az (g_proc (runq_remove i s) ! j) = seg_maschera_az (g_proc s ! j)"
  "allarme_tick (g_proc (runq_remove i s) ! j) = allarme_tick (g_proc s ! j)"
  "allarme_passo (g_proc (runq_remove i s) ! j) = allarme_passo (g_proc s ! j)"
  "sleep_until (g_proc (runq_remove i s) ! j) = sleep_until (g_proc s ! j)"
  "block_until (g_proc (runq_remove i s) ! j) = block_until (g_proc s ! j)"
  "ipc_mailbox (g_proc (runq_remove i s) ! j) = ipc_mailbox (g_proc s ! j)"
  "ipc_head (g_proc (runq_remove i s) ! j) = ipc_head (g_proc s ! j)"
  "ipc_tail (g_proc (runq_remove i s) ! j) = ipc_tail (g_proc s ! j)"
  "ipc_count (g_proc (runq_remove i s) ! j) = ipc_count (g_proc s ! j)"
  "ipc_fila_testa (g_proc (runq_remove i s) ! j) = ipc_fila_testa (g_proc s ! j)"
  "ipc_fila_coda (g_proc (runq_remove i s) ! j) = ipc_fila_coda (g_proc s ! j)"
  "ipc_riservati (g_proc (runq_remove i s) ! j) = ipc_riservati (g_proc s ! j)"
  "ipc_fila_su (g_proc (runq_remove i s) ! j) = ipc_fila_su (g_proc s ! j)"
  "ipc_fila_prima (g_proc (runq_remove i s) ! j) = ipc_fila_prima (g_proc s ! j)"
  "ipc_fila_dopo (g_proc (runq_remove i s) ! j) = ipc_fila_dopo (g_proc s ! j)"
  "ipc_fila_concesso (g_proc (runq_remove i s) ! j) = ipc_fila_concesso (g_proc s ! j)"
  "cpu_fissa (g_proc (runq_remove i s) ! j) = cpu_fissa (g_proc s ! j)"
  "nel_kernel (g_proc (runq_remove i s) ! j) = nel_kernel (g_proc s ! j)"
  "is_driver (g_proc (runq_remove i s) ! j) = is_driver (g_proc s ! j)"
  by (rule runq_remove_field, simp)+

section \<open>The run queues are lists\<close>

text \<open>The abstraction: for each priority the list of the slots in its queue, oldest first. A slot is
  linked exactly when it is in the queue of its own priority.\<close>

definition nxt :: "sched \<Rightarrow> nat \<Rightarrow> nat option" where
  "nxt s i = next_p (g_proc s ! i)"

definition prv :: "sched \<Rightarrow> nat \<Rightarrow> nat option" where
  "prv s i = prev_p (g_proc s ! i)"

definition runq_rep :: "sched \<Rightarrow> (nat \<Rightarrow> nat list) \<Rightarrow> bool" where
  "runq_rep s q \<longleftrightarrow>
     length (g_run_queue s) = Suc PRIO_MAX \<and>
     (\<forall>pr \<le> PRIO_MAX. circ (nxt s) (prv s) (q pr) \<and>
        g_run_queue s ! pr = (if q pr = [] then None else Some (hd (q pr))) \<and>
        (\<forall>i \<in> set (q pr). i < length (g_proc s) \<and> priority (g_proc s ! i) = pr)) \<and>
     (\<forall>i < length (g_proc s). nxt s i \<noteq> None \<longrightarrow>
        priority (g_proc s ! i) \<le> PRIO_MAX \<and> i \<in> set (q (priority (g_proc s ! i))))"

lemma runq_rep_circ: "runq_rep s q \<Longrightarrow> pr \<le> PRIO_MAX \<Longrightarrow> circ (nxt s) (prv s) (q pr)"
  by (simp add: runq_rep_def)

lemma runq_rep_head:
  "runq_rep s q \<Longrightarrow> pr \<le> PRIO_MAX \<Longrightarrow>
   g_run_queue s ! pr = (if q pr = [] then None else Some (hd (q pr)))"
  by (simp add: runq_rep_def)

lemma runq_rep_mem:
  "runq_rep s q \<Longrightarrow> pr \<le> PRIO_MAX \<Longrightarrow> i \<in> set (q pr) \<Longrightarrow>
   i < length (g_proc s) \<and> priority (g_proc s ! i) = pr"
  by (simp add: runq_rep_def)

lemma circ_linked:
  assumes c: "circ nx pv xs" and i: "i \<in> set xs"
  shows "nx i \<noteq> None"
proof -
  obtain k where "k < length xs" "xs ! k = i" using i by (auto simp: in_set_conv_nth)
  then show ?thesis using circ_nth_next [OF c, of k] by auto
qed

lemma runq_rep_linked_iff:
  assumes rep: "runq_rep s q" and i: "i < length (g_proc s)" and pr: "priority (g_proc s ! i) \<le> PRIO_MAX"
  shows "nxt s i \<noteq> None \<longleftrightarrow> i \<in> set (q (priority (g_proc s ! i)))"
proof
  show "i \<in> set (q (priority (g_proc s ! i)))" if "nxt s i \<noteq> None"
    using rep i that unfolding runq_rep_def by blast
  show "nxt s i \<noteq> None" if "i \<in> set (q (priority (g_proc s ! i)))"
    by (rule circ_linked [OF runq_rep_circ [OF rep pr] that])
qed

lemma nxt_proc_upd [simp]:
  "i < length (g_proc s) \<Longrightarrow> nxt (proc_upd i (\<lambda>p. p\<lparr>next_p := x\<rparr>) s) = (nxt s)(i := x)"
  "prv (proc_upd i (\<lambda>p. p\<lparr>next_p := x\<rparr>) s) = prv s"
  "nxt (proc_upd i (\<lambda>p. p\<lparr>prev_p := x\<rparr>) s) = nxt s"
  "i < length (g_proc s) \<Longrightarrow> prv (proc_upd i (\<lambda>p. p\<lparr>prev_p := x\<rparr>) s) = (prv s)(i := x)"
  "i < length (g_proc s) \<Longrightarrow> nxt (proc_upd i (\<lambda>p. p\<lparr>next_p := x, prev_p := y\<rparr>) s) = (nxt s)(i := x)"
  "i < length (g_proc s) \<Longrightarrow> prv (proc_upd i (\<lambda>p. p\<lparr>next_p := x, prev_p := y\<rparr>) s) = (prv s)(i := y)"
  "nxt (s\<lparr>g_run_queue := r\<rparr>) = nxt s" "prv (s\<lparr>g_run_queue := r\<rparr>) = prv s"
  by (auto simp: proc_upd_nth fun_eq_iff nxt_def prv_def)

text \<open>Two schedulers with the same links, heads and priorities have the same queues.\<close>

lemma runq_rep_cong:
  assumes "runq_rep s q" "length (g_proc s') = length (g_proc s)" "g_run_queue s' = g_run_queue s"
    "nxt s' = nxt s" "prv s' = prv s" "\<And>i. priority (g_proc s' ! i) = priority (g_proc s ! i)"
  shows "runq_rep s' q"
  using assms(1) unfolding runq_rep_def assms(2-6) .

lemma runq_rep_proc_upd:
  assumes "runq_rep s q"
    "\<And>p. next_p (f p) = next_p p" "\<And>p. prev_p (f p) = prev_p p" "\<And>p. priority (f p) = priority p"
  shows "runq_rep (proc_upd i f s) q"
  by (rule runq_rep_cong [OF assms(1)]) (simp_all add: proc_upd_nth assms fun_eq_iff nxt_def prv_def)

text \<open>Replacing one queue: what has to be shown of the new one.\<close>

lemma runq_rep_upd:
  assumes rep: "runq_rep s q" and pr: "pr \<le> PRIO_MAX"
    and len: "length (g_proc s') = length (g_proc s)"
    and prio: "\<And>i. priority (g_proc s' ! i) = priority (g_proc s ! i)"
    and head: "g_run_queue s' = (g_run_queue s)[pr := (if xs = [] then None else Some (hd xs))]"
    and new: "circ (nxt s') (prv s') xs"
    and mem: "\<And>i. i \<in> set xs \<Longrightarrow> i < length (g_proc s) \<and> priority (g_proc s ! i) = pr"
    and same: "\<And>i. priority (g_proc s ! i) \<noteq> pr \<Longrightarrow> nxt s' i = nxt s i \<and> prv s' i = prv s i"
    and out: "\<And>i. i < length (g_proc s) \<Longrightarrow> priority (g_proc s ! i) = pr \<Longrightarrow> i \<notin> set xs \<Longrightarrow> nxt s' i = None"
  shows "runq_rep s' (q(pr := xs))"
proof -
  have other: "circ (nxt s') (prv s') (q pr')" if "pr' \<le> PRIO_MAX" "pr' \<noteq> pr" for pr'
  proof (rule circ_cong [OF runq_rep_circ [OF rep that(1)]])
    fix i assume "i \<in> set (q pr')"
    then have "priority (g_proc s ! i) \<noteq> pr" using runq_rep_mem [OF rep that(1)] that(2) by auto
    then show "nxt s' i = nxt s i \<and> prv s' i = prv s i" by (rule same)
  qed
  have queues: "\<forall>pr' \<le> PRIO_MAX. circ (nxt s') (prv s') ((q(pr := xs)) pr') \<and>
      g_run_queue s' ! pr' = (if (q(pr := xs)) pr' = [] then None else Some (hd ((q(pr := xs)) pr'))) \<and>
      (\<forall>i \<in> set ((q(pr := xs)) pr'). i < length (g_proc s') \<and> priority (g_proc s' ! i) = pr')"
    using rep new mem other len prio head pr by (auto simp: runq_rep_def)
  have all: "\<forall>i < length (g_proc s'). nxt s' i \<noteq> None \<longrightarrow>
      priority (g_proc s' ! i) \<le> PRIO_MAX \<and> i \<in> set ((q(pr := xs)) (priority (g_proc s' ! i)))"
  proof (intro allI impI)
    fix i assume i: "i < length (g_proc s')" "nxt s' i \<noteq> None"
    show "priority (g_proc s' ! i) \<le> PRIO_MAX \<and> i \<in> set ((q(pr := xs)) (priority (g_proc s' ! i)))"
    proof (cases "priority (g_proc s ! i) = pr")
      case True
      then have "i \<in> set xs" using out [of i] i len by auto
      then show ?thesis using True pr prio by simp
    next
      case False
      then show ?thesis using rep same [OF False] i len prio by (auto simp: runq_rep_def)
    qed
  qed
  have "length (g_run_queue s') = Suc PRIO_MAX" using rep head by (simp add: runq_rep_def)
  then show ?thesis unfolding runq_rep_def using queues all by blast
qed

lemma runq_add_rep:
  assumes rep: "runq_rep s q" and i: "i < length (g_proc s)" "nxt s i = None"
    and pr: "pr = priority (g_proc s ! i)" "pr \<le> PRIO_MAX"
  shows "runq_rep (runq_add i s) (q(pr := q pr @ [i]))"
proof -
  have notin: "i \<notin> set (q pr)" using runq_rep_linked_iff [OF rep i(1)] i(2) pr by simp
  have out: "j \<notin> set (q pr) \<Longrightarrow> j < length (g_proc s) \<Longrightarrow> priority (g_proc s ! j) = pr \<Longrightarrow> nxt s j = None" for j
    using runq_rep_linked_iff [OF rep, of j] pr(2) by simp
  note mem = runq_rep_mem [OF rep pr(2)]
  show ?thesis
  proof (cases "q pr")
    case Nil
    then have none: "g_run_queue s ! pr = None" using runq_rep_head [OF rep pr(2)] by simp
    have links: "nxt (runq_add i s) = (nxt s)(i := Some i)" "prv (runq_add i s) = (prv s)(i := Some i)"
      and rq: "g_run_queue (runq_add i s) = (g_run_queue s)[pr := Some i]"
      using none i(1) pr(1) by (simp_all add: runq_add_def Let_def)
    have "circ (nxt (runq_add i s)) (prv (runq_add i s)) (q pr @ [i])"
      using Nil by (simp add: links circ_single)
    then show ?thesis
      by (rule runq_rep_upd [OF rep pr(2), rotated 3]) (use Nil i pr out in \<open>auto simp: links rq\<close>)
  next
    case (Cons h ys)
    define l where l: "l = last (h # ys)"
    have head: "g_run_queue s ! pr = Some h" using Cons runq_rep_head [OF rep pr(2)] by simp
    have c: "circ (nxt s) (prv s) (h # ys)" using runq_rep_circ [OF rep pr(2)] Cons by simp
    have ph: "prev_p (g_proc s ! h) = Some l" using circ_prev_hd [OF c] unfolding prv_def l .
    have lin: "l \<in> set (q pr)" using l Cons last_in_set [of "h # ys"] by simp
    have hl: "h < length (g_proc s)" "l < length (g_proc s)" "priority (g_proc s ! h) = pr" "priority (g_proc s ! l) = pr"
      using mem [of h] mem [OF lin] Cons by auto
    have links: "nxt (runq_add i s) = (nxt s)(l := Some i, i := Some h)"
      "prv (runq_add i s) = (prv s)(i := Some l, h := Some i)"
      and rq: "g_run_queue (runq_add i s) = g_run_queue s"
      using head i(1) pr(1) ph hl by (simp_all add: runq_add_def Let_def)
    show ?thesis
    proof (rule runq_rep_upd [OF rep pr(2)])
      show "circ (nxt (runq_add i s)) (prv (runq_add i s)) (q pr @ [i])"
        unfolding links Cons append_Cons by (rule circ_snoc [OF c _ l]) (use notin Cons in simp)
      show "g_run_queue (runq_add i s) = (g_run_queue s)[pr := if q pr @ [i] = [] then None else Some (hd (q pr @ [i]))]"
        unfolding rq Cons append_Cons list.sel head [symmetric] by simp
      show "j < length (g_proc s) \<and> priority (g_proc s ! j) = pr" if "j \<in> set (q pr @ [i])" for j
        using that mem i pr by auto
      show "nxt (runq_add i s) j = nxt s j \<and> prv (runq_add i s) j = prv s j" if "priority (g_proc s ! j) \<noteq> pr" for j
        using that hl pr unfolding links by auto
      show "nxt (runq_add i s) j = None"
        if "j < length (g_proc s)" "priority (g_proc s ! j) = pr" "j \<notin> set (q pr @ [i])" for j
      proof -
        have "j \<noteq> l" "j \<noteq> i" "j \<notin> set (q pr)" using that(3) lin by auto
        then show ?thesis using out [of j] that(1,2) unfolding links by simp
      qed
    qed simp_all
  qed
qed

lemma circ_fst_snd:
  assumes c: "circ nx pv (us @ i # vs)"
  obtains n p where "nx i = Some n" "pv i = Some p" "p \<in> set (us @ i # vs)" "n \<in> set (us @ i # vs)"
proof -
  have r: "circ nx pv (i # vs @ us)" using circ_rotate [OF c, of "length us"] by (simp add: rotate_to_front)
  have "nx i = Some (hd ((vs @ us) @ [i]))" using r by (cases "vs @ us") (simp_all add: circ_def)
  moreover have "pv i = Some (last (i # vs @ us))" by (rule circ_prev_hd [OF r])
  moreover have "hd ((vs @ us) @ [i]) \<in> set (us @ i # vs)"
    using hd_in_set [of "(vs @ us) @ [i]"] by auto
  moreover have "last (i # vs @ us) \<in> set (us @ i # vs)"
    using last_in_set [of "i # vs @ us"] by auto
  ultimately show ?thesis using that by blast
qed

lemma runq_remove_rep:
  assumes rep: "runq_rep s q" and i: "i < length (g_proc s)" "nxt s i \<noteq> None"
    and pr: "pr = priority (g_proc s ! i)" "pr \<le> PRIO_MAX"
  shows "runq_rep (runq_remove i s) (q(pr := remove1 i (q pr)))"
proof -
  note mem = runq_rep_mem [OF rep pr(2)]
  have out: "j \<notin> set (q pr) \<Longrightarrow> j < length (g_proc s) \<Longrightarrow> priority (g_proc s ! j) = pr \<Longrightarrow> nxt s j = None" for j
    using runq_rep_linked_iff [OF rep, of j] pr(2) by simp
  have "i \<in> set (q pr)" using runq_rep_linked_iff [OF rep i(1)] i(2) pr by simp
  then obtain us vs where q: "q pr = us @ i # vs" and ius: "i \<notin> set us"
    using split_list_first by metis
  have c: "circ (nxt s) (prv s) (us @ i # vs)" using runq_rep_circ [OF rep pr(2)] q by simp
  have ivs: "i \<notin> set vs" using circ_distinct [OF c] by simp
  have rem: "remove1 i (q pr) = us @ vs" using q ius by (simp add: remove1_append)
  obtain n p where np: "nxt s i = Some n" "prv s i = Some p" "p \<in> set (q pr)" "n \<in> set (q pr)"
    using circ_fst_snd [OF c] q by metis
  have np': "next_p (g_proc s ! i) = Some n" "prev_p (g_proc s ! i) = Some p"
    using np(1,2) by (simp_all add: nxt_def prv_def)
  have hd_i: "g_run_queue s ! pr = Some (hd (us @ [i]))"
    using runq_rep_head [OF rep pr(2)] q by (cases us) simp_all
  show ?thesis
  proof (cases "us @ vs = []")
    case True
    then have "n = i" using c np(1) by (simp add: circ_def)
    then have links: "nxt (runq_remove i s) = (nxt s)(i := None)" "prv (runq_remove i s) = (prv s)(i := None)"
      and rq: "g_run_queue (runq_remove i s) = (g_run_queue s)[pr := None]"
      using np' i(1) pr(1) by (simp_all add: runq_remove_def Let_def)
    show ?thesis unfolding rem
      by (rule runq_rep_upd [OF rep pr(2)]) (use True q out pr in \<open>auto simp: links rq circ_Nil\<close>)
  next
    case False
    note r = circ_remove [OF c False np(1,2)]
    have npl: "n < length (g_proc s)" "p < length (g_proc s)" "priority (g_proc s ! n) = pr" "priority (g_proc s ! p) = pr"
      using mem np(3,4) by auto
    have links: "nxt (runq_remove i s) = (nxt s)(p := Some n, i := None)"
      "prv (runq_remove i s) = (prv s)(n := Some p, i := None)"
      and rq: "g_run_queue (runq_remove i s) =
        (if us = [] then (g_run_queue s)[pr := Some n] else g_run_queue s)"
      using np' i(1) pr(1) r(3) npl hd_i ius by (cases us; simp add: runq_remove_def Let_def)+
    show ?thesis unfolding rem
    proof (rule runq_rep_upd [OF rep pr(2)])
      show "circ (nxt (runq_remove i s)) (prv (runq_remove i s)) (us @ vs)"
        by (rule circ_cong [OF r(1)]) (use ius ivs in \<open>auto simp: links\<close>)
      show "g_run_queue (runq_remove i s) = (g_run_queue s)[pr := if us @ vs = [] then None else Some (hd (us @ vs))]"
      proof (cases us)
        case Nil
        then show ?thesis using r(2) False rq by simp
      next
        case (Cons u us')
        then have "g_run_queue s ! pr = Some (hd (us @ vs))" using hd_i by simp
        then show ?thesis unfolding rq using Cons False by (metis list.distinct(1) list_update_id)
      qed
      show "j < length (g_proc s) \<and> priority (g_proc s ! j) = pr" if "j \<in> set (us @ vs)" for j
        using that mem q by auto
      show "nxt (runq_remove i s) j = nxt s j \<and> prv (runq_remove i s) j = prv s j" if "priority (g_proc s ! j) \<noteq> pr" for j
        using that npl pr unfolding links by auto
      show "nxt (runq_remove i s) j = None"
        if "j < length (g_proc s)" "priority (g_proc s ! j) = pr" "j \<notin> set (us @ vs)" for j
      proof (cases "j = i")
        case False
        then have "j \<notin> set (q pr)" using that(3) q by auto
        then show ?thesis using out [of j] that(1,2) np(3) False unfolding links by auto
      qed (simp add: links)
    qed simp_all
  qed
qed

section \<open>The choice of the next process\<close>

text \<open>The abstract choice: the queues from the highest priority down, as one list, and the first process in
  it that is ready and may run on this processor. The chosen process goes behind the others of its queue.\<close>

definition eligible :: "sched \<Rightarrow> nat \<Rightarrow> bool" where
  "eligible s i \<longleftrightarrow> state (g_proc s ! i) = PROC_READY \<and> sched_puo_qui s i"

definition by_priority :: "(nat \<Rightarrow> nat list) \<Rightarrow> nat list" where
  "by_priority q = concat (map q (rev [PRIO_IDLE..<Suc PRIO_MAX]))"

definition behind :: "nat \<Rightarrow> nat list \<Rightarrow> nat list" where
  "behind p xs = tl (dropWhile (\<lambda>x. x \<noteq> p) xs) @ takeWhile (\<lambda>x. x \<noteq> p) xs @ [p]"

lemma behind_split: "p \<notin> set us \<Longrightarrow> behind p (us @ p # vs) = vs @ us @ [p]"
proof -
  assume us: "p \<notin> set us"
  have "takeWhile (\<lambda>x. x \<noteq> p) (us @ p # vs) = us" "dropWhile (\<lambda>x. x \<noteq> p) (us @ p # vs) = p # vs"
    using us by (induction us) auto
  then show ?thesis by (simp add: behind_def)
qed

lemma pick_scan_find:
  assumes c: "circ (nxt s) pv xs" and k: "k < length xs" and fuel: "length xs - k \<le> fuel"
  shows "pick_scan fuel s (hd xs) (xs ! k) = find (eligible s) (drop k xs)"
  using k fuel
proof (induction fuel arbitrary: k)
  case (Suc fuel)
  have nx: "the (next_p (g_proc s ! (xs ! k))) = xs ! (Suc k mod length xs)"
    using circ_nth_next [OF c Suc.prems(1)] by (simp add: nxt_def)
  have hd: "hd xs = xs ! 0" using Suc.prems(1) by (cases xs) auto
  have drop: "drop k xs = xs ! k # drop (Suc k) xs" by (rule Cons_nth_drop_Suc [symmetric]) (rule Suc.prems(1))
  show ?case
  proof (cases "Suc k = length xs")
    case True
    then show ?thesis using nx hd by (simp add: drop eligible_def)
  next
    case False
    then have k': "Suc k < length xs" using Suc.prems(1) by simp
    have "xs ! Suc k \<noteq> hd xs"
      using circ_distinct [OF c] k' unfolding hd by (subst nth_eq_iff_index_eq) auto
    then show ?thesis using nx k' Suc.IH [OF k'] Suc.prems(2) by (simp add: drop eligible_def)
  qed
qed simp

lemma runq_rep_length:
  assumes "runq_rep s q" "pr \<le> PRIO_MAX"
  shows "length (q pr) \<le> length (g_proc s)"
proof -
  have "set (q pr) \<subseteq> {..<length (g_proc s)}" using runq_rep_mem [OF assms] by auto
  then have "card (set (q pr)) \<le> length (g_proc s)" using card_mono [of "{..<length (g_proc s)}"] by auto
  then show ?thesis using distinct_card [OF circ_distinct [OF runq_rep_circ [OF assms]]] by simp
qed

lemma runq_rotate_rep:
  assumes rep: "runq_rep s q" and pr: "pr \<le> PRIO_MAX" and p: "p \<in> set (q pr)"
  shows "runq_rep (s\<lparr>g_run_queue := (g_run_queue s)[pr := next_p (g_proc s ! p)]\<rparr>) (q(pr := behind p (q pr)))"
proof -
  obtain us vs where q: "q pr = us @ p # vs" and us: "p \<notin> set us" using split_list_first [OF p] by metis
  have c: "circ (nxt s) (prv s) (us @ p # vs)" using runq_rep_circ [OF rep pr] q by simp
  have b: "behind p (q pr) = vs @ us @ [p]" using us by (simp add: q behind_split)
  have r: "circ (nxt s) (prv s) ((vs @ us) @ [p])"
    using circ_rotate [OF c, of "Suc (length us)"] rotate_append [of "us @ [p]" vs] by simp
  have "nxt s (((vs @ us) @ [p]) ! length (vs @ us)) = Some (hd ((vs @ us) @ [p]))"
    using circ_nth_next [OF r, of "length (vs @ us)"] by (simp add: hd_conv_nth)
  then have nx: "next_p (g_proc s ! p) = Some (hd (vs @ us @ [p]))" by (simp add: nxt_def del: append_assoc) simp
  have none: "nxt s j = None" if "j < length (g_proc s)" "priority (g_proc s ! j) = pr" "j \<notin> set (q pr)" for j
    using runq_rep_linked_iff [OF rep that(1)] that pr by simp
  show ?thesis unfolding b
    by (rule runq_rep_upd [OF rep pr])
      (use r none runq_rep_mem [OF rep pr] in \<open>auto simp: nx q\<close>)
qed

lemma sched_pick_from_find:
  assumes rep: "runq_rep s q" and le: "\<forall>pr \<in> set prios. pr \<le> PRIO_MAX"
  shows "sched_pick_from prios s =
    (case find (eligible s) (concat (map q prios)) of
       None \<Rightarrow> (g_idle_task s, s)
     | Some p \<Rightarrow> (p, s\<lparr>g_run_queue := (g_run_queue s)[priority (g_proc s ! p) := next_p (g_proc s ! p)]\<rparr>))"
  using le
proof (induction prios)
  case (Cons pr prios)
  then have pr: "pr \<le> PRIO_MAX" by simp
  note head = runq_rep_head [OF rep pr]
  show ?case
  proof (cases "q pr")
    case Nil
    then show ?thesis using head Cons by simp
  next
    case (Cons h ys)
    then have queue: "g_run_queue s ! pr = Some h" using head by simp
    have scan: "pick_scan (length (g_proc s)) s h h = find (eligible s) (q pr)"
      using Cons pick_scan_find [OF runq_rep_circ [OF rep pr], of 0] runq_rep_length [OF rep pr] by simp
    show ?thesis
    proof (cases "find (eligible s) (q pr)")
      case None
      then show ?thesis using queue scan Cons.IH Cons.prems by (simp add: find_append)
    next
      case (Some p)
      then have "p \<in> set (q pr)" by (auto simp: find_Some_iff in_set_conv_nth)
      then have "priority (g_proc s ! p) = pr" using runq_rep_mem [OF rep pr] by blast
      then show ?thesis using queue scan Some by (simp add: find_append)
    qed
  qed
qed simp

section \<open>No ready process is lost\<close>

text \<open>The scheduler invariant: the links represent queues, only processes that may run are linked, and every
  process that may run is linked, except that an idle task may be linked or not (\<^verbatim>\<open>proc_create\<close> queues it when it makes it, a
  processor that falls back on it runs it without queueing it again).\<close>

definition attivo :: "process \<Rightarrow> bool" where
  "attivo p \<longleftrightarrow> state p = PROC_READY \<or> state p = PROC_RUNNING"

definition linked_ok :: "sched \<Rightarrow> (nat \<Rightarrow> bool) \<Rightarrow> bool" where
  "linked_ok s lk \<longleftrightarrow>
     g_cpu s < length (g_corrente s) \<and> g_cpu s < length (g_ozio s) \<and>
     (\<forall>j \<in> set (g_ozio s). j < length (g_proc s) \<and> attivo (g_proc s ! j)) \<and>
     (\<exists>c < length (g_proc s). g_current s = Some c) \<and>
     (\<forall>i < length (g_proc s). priority (g_proc s ! i) \<le> PRIO_MAX \<and>
        (lk i \<longrightarrow> attivo (g_proc s ! i)) \<and> (attivo (g_proc s ! i) \<longrightarrow> lk i \<or> i \<in> set (g_ozio s)))"

definition sched_ok :: "sched \<Rightarrow> bool" where
  "sched_ok s \<longleftrightarrow> (\<exists>q. runq_rep s q) \<and> linked_ok s (\<lambda>i. nxt s i \<noteq> None)"

lemma linked_ok_cong:
  "linked_ok s lk \<Longrightarrow> (\<And>i. i < length (g_proc s) \<Longrightarrow> lk i = lk' i) \<Longrightarrow> linked_ok s lk'"
  by (auto simp: linked_ok_def)

lemma sched_okD:
  assumes "sched_ok s"
  obtains q where "runq_rep s q" "linked_ok s (\<lambda>i. i \<in> set (q (priority (g_proc s ! i))))"
proof -
  obtain q where q: "runq_rep s q" and l: "linked_ok s (\<lambda>i. nxt s i \<noteq> None)" using assms by (auto simp: sched_ok_def)
  have "linked_ok s (\<lambda>i. i \<in> set (q (priority (g_proc s ! i))))"
    by (rule linked_ok_cong [OF l], rule runq_rep_linked_iff [OF q]) (use l in \<open>auto simp: linked_ok_def\<close>)
  then show ?thesis using that q by blast
qed

lemma sched_okI:
  assumes q: "runq_rep s q" and l: "linked_ok s (\<lambda>i. i \<in> set (q (priority (g_proc s ! i))))"
  shows "sched_ok s"
  unfolding sched_ok_def
proof (intro conjI exI [of _ q])
  show "linked_ok s (\<lambda>i. nxt s i \<noteq> None)"
    by (rule linked_ok_cong [OF l], rule runq_rep_linked_iff [symmetric, OF q]) (use l in \<open>auto simp: linked_ok_def\<close>)
qed (rule q)

lemma sched_ok_currentD: "sched_ok s \<Longrightarrow> g_current s = Some c \<Longrightarrow> c < length (g_proc s)"
  by (auto simp: sched_ok_def linked_ok_def)

lemma sched_ok_current:
  assumes "sched_ok s"
  obtains c where "g_current s = Some c" "c < length (g_proc s)"
  using assms by (auto simp: sched_ok_def linked_ok_def)

text \<open>Changing one process.\<close>

lemma linked_ok_step:
  assumes l: "linked_ok s lk"
    and same: "length (g_proc s') = length (g_proc s)" "g_ozio s' = g_ozio s" "g_corrente s' = g_corrente s"
      "g_cpu s' = g_cpu s"
    and other: "\<And>j. j \<noteq> i \<Longrightarrow> state (g_proc s' ! j) = state (g_proc s ! j) \<and> lk' j = lk j \<and>
      priority (g_proc s' ! j) = priority (g_proc s ! j)"
    and prio: "i < length (g_proc s) \<Longrightarrow> priority (g_proc s' ! i) \<le> PRIO_MAX"
    and here: "lk' i \<Longrightarrow> attivo (g_proc s' ! i)" "attivo (g_proc s' ! i) \<Longrightarrow> lk' i \<or> i \<in> set (g_ozio s)"
      "i \<in> set (g_ozio s) \<Longrightarrow> attivo (g_proc s' ! i)"
  shows "linked_ok s' lk'"
proof -
  have a: "attivo (g_proc s' ! j) = attivo (g_proc s ! j) \<and> lk' j = lk j \<and>
      priority (g_proc s' ! j) = priority (g_proc s ! j)" if "j \<noteq> i" for j
    using other [OF that] by (simp add: attivo_def)
  have cur: "g_current s' = g_current s" using same by (simp add: g_current_def)
  have "j < length (g_proc s) \<and> attivo (g_proc s' ! j)" if "j \<in> set (g_ozio s)" for j
    using l that a [of j] here(3) by (cases "j = i") (auto simp: linked_ok_def)
  moreover have "priority (g_proc s' ! j) \<le> PRIO_MAX \<and> (lk' j \<longrightarrow> attivo (g_proc s' ! j)) \<and>
      (attivo (g_proc s' ! j) \<longrightarrow> lk' j \<or> j \<in> set (g_ozio s))" if "j < length (g_proc s)" for j
    using l that a [of j] here(1,2) prio by (cases "j = i") (auto simp: linked_ok_def)
  ultimately show ?thesis using l by (simp add: linked_ok_def same cur)
qed

text \<open>A process that may not run becomes ready: it goes to the back of its queue.\<close>

lemma runq_rep_unlinked_upd:
  assumes rep: "runq_rep s q" and i: "nxt s i = None"
    and f: "\<And>p. next_p (f p) = next_p p" "\<And>p. prev_p (f p) = prev_p p"
  shows "runq_rep (proc_upd i f s) q"
proof -
  let ?s = "proc_upd i f s"
  have nx: "nxt ?s = nxt s" "prv ?s = prv s" using f by (simp_all add: fun_eq_iff nxt_def prv_def proc_upd_nth)
  have ne: "j \<noteq> i" if "pr \<le> PRIO_MAX" "j \<in> set (q pr)" for j pr
    using circ_linked [OF runq_rep_circ [OF rep that(1)] that(2)] i by auto
  have "g_proc ?s ! j = g_proc s ! j" if "pr \<le> PRIO_MAX" "j \<in> set (q pr)" for j pr
    using ne [OF that] by (simp add: proc_upd_nth)
  moreover have "g_proc ?s ! j = g_proc s ! j" if "nxt s j \<noteq> None" for j using that i by (auto simp: proc_upd_nth)
  ultimately show ?thesis using rep unfolding runq_rep_def nx proc_upd_simps by simp
qed

lemma sched_ok_wake_prio:
  assumes ok: "sched_ok s" and i: "i < length (g_proc s)" "\<not> attivo (g_proc s ! i)"
    and f: "\<And>p. next_p (f p) = next_p p" "\<And>p. prev_p (f p) = prev_p p" "\<And>p. state (f p) = PROC_READY"
    and p: "priority (f (g_proc s ! i)) \<le> PRIO_MAX"
  shows "sched_ok (runq_add i (proc_upd i f s))"
proof -
  obtain q where q: "runq_rep s q" and l: "linked_ok s (\<lambda>i. i \<in> set (q (priority (g_proc s ! i))))"
    using sched_okD [OF ok] .
  let ?s = "proc_upd i f s" and ?p = "priority (f (g_proc s ! i))"
  have n: "nxt s i = None" using ok i by (auto simp: sched_ok_def linked_ok_def)
  then have n': "nxt ?s i = None" using i f by (simp add: nxt_def proc_upd_nth)
  have r: "runq_rep (runq_add i ?s) (q(?p := q ?p @ [i]))"
    by (rule runq_add_rep [OF runq_rep_unlinked_upd [OF q n f(1,2)] _ n']) (use i f p in \<open>simp_all add: proc_upd_nth\<close>)
  show ?thesis
    by (rule sched_okI [OF r], rule linked_ok_step [OF l, where i=i])
      (use i f p in \<open>auto simp: attivo_def proc_upd_nth\<close>)
qed

lemma sched_ok_prio: "sched_ok s \<Longrightarrow> i < length (g_proc s) \<Longrightarrow> priority (g_proc s ! i) \<le> PRIO_MAX"
  by (simp add: sched_ok_def linked_ok_def)

lemma sched_ok_wake:
  assumes "sched_ok s" "i < length (g_proc s)" "\<not> attivo (g_proc s ! i)"
    and f: "\<And>p. next_p (f p) = next_p p" "\<And>p. prev_p (f p) = prev_p p" "\<And>p. priority (f p) = priority p"
      "\<And>p. state (f p) = PROC_READY"
  shows "sched_ok (runq_add i (proc_upd i f s))"
  by (rule sched_ok_wake_prio [OF assms(1-3) f(1,2,4)]) (simp add: f sched_ok_prio [OF assms(1,2)])

text \<open>A running process stops: it leaves its queue.\<close>

lemma sched_ok_stop:
  assumes ok: "sched_ok s" and i: "i < length (g_proc s)" "i \<notin> set (g_ozio s)"
    and f: "\<And>p. next_p (f p) = next_p p" "\<And>p. prev_p (f p) = prev_p p" "\<And>p. priority (f p) = priority p"
      "\<And>p. state (f p) = r" and r: "r \<noteq> PROC_READY" "r \<noteq> PROC_RUNNING"
  shows "sched_ok (runq_remove i (proc_upd i f s))"
proof -
  obtain q where q: "runq_rep s q" and l: "linked_ok s (\<lambda>i. i \<in> set (q (priority (g_proc s ! i))))"
    using sched_okD [OF ok] .
  let ?s = "proc_upd i f s" and ?p = "priority (g_proc s ! i)"
  have p: "?p \<le> PRIO_MAX" using l i by (simp add: linked_ok_def)
  note q' = runq_rep_proc_upd [OF q f(1-3), where i=i]
  have d: "distinct (q ?p)" using circ_distinct [OF runq_rep_circ [OF q p]] .
  have rr: "runq_rep (runq_remove i ?s) (q(?p := remove1 i (q ?p)))"
  proof (cases "nxt ?s i")
    case None
    then have "i \<notin> set (q ?p)" using runq_rep_linked_iff [OF q', of i] i f p by (simp add: proc_upd_nth)
    moreover have "runq_remove i ?s = ?s" using None by (simp add: runq_remove_def nxt_def)
    ultimately show ?thesis using q' by (simp add: remove1_idem)
  next
    case (Some n)
    show ?thesis
      by (rule runq_remove_rep [OF q']) (use Some i f p in \<open>simp_all add: proc_upd_nth\<close>)
  qed
  show ?thesis
    by (rule sched_okI [OF rr], rule linked_ok_step [OF l, where i=i])
      (use i f d r p in \<open>auto simp: proc_upd_nth attivo_def\<close>)
qed


text \<open>A change that keeps the links, the priority and whether the process may run.\<close>

lemma sched_ok_proc_upd:
  assumes ok: "sched_ok s"
    and f: "\<And>p. next_p (f p) = next_p p" "\<And>p. prev_p (f p) = prev_p p" "\<And>p. priority (f p) = priority p"
    and a: "attivo (f (g_proc s ! i)) = attivo (g_proc s ! i)"
  shows "sched_ok (proc_upd i f s)"
proof -
  obtain q where q: "runq_rep s q" and l: "linked_ok s (\<lambda>i. i \<in> set (q (priority (g_proc s ! i))))"
    using sched_okD [OF ok] .
  note q' = runq_rep_proc_upd [OF q f, where i=i]
  show ?thesis
  proof (cases "i < length (g_proc s)")
    case True
    then show ?thesis
      by (intro sched_okI [OF q'] linked_ok_step [OF l, where i=i])
        (use l a f in \<open>auto simp: linked_ok_def proc_upd_nth\<close>)
  next
    case False
    then show ?thesis using ok by (simp add: proc_upd_def list_update_beyond)
  qed
qed

lemma sched_pick_next_find:
  assumes "runq_rep s q"
  shows "sched_pick_next s =
    (case find (eligible s) (by_priority q) of
       None \<Rightarrow> (g_idle_task s, s)
     | Some p \<Rightarrow> (p, s\<lparr>g_run_queue := (g_run_queue s)[priority (g_proc s ! p) := next_p (g_proc s ! p)]\<rparr>))"
  unfolding sched_pick_next_def by_priority_def
  by (rule sched_pick_from_find [OF assms]) auto

lemma by_priority_mem: "p \<in> set (by_priority q) \<longleftrightarrow> (\<exists>pr \<le> PRIO_MAX. p \<in> set (q pr))"
proof -
  have "set (rev [PRIO_IDLE..<Suc PRIO_MAX]) = {pr. pr \<le> PRIO_MAX}" by auto
  then show ?thesis unfolding by_priority_def set_concat set_map by auto
qed

lemma sched_ok_pick:
  assumes ok: "sched_ok s" and pick: "sched_pick_next s = (n, s')"
  shows "sched_ok s' \<and> n < length (g_proc s) \<and> attivo (g_proc s ! n) \<and> g_proc s' = g_proc s \<and>
    g_corrente s' = g_corrente s \<and> g_cpu s' = g_cpu s \<and> g_ozio s' = g_ozio s \<and> g_current s' = g_current s \<and>
    g_ticks s' = g_ticks s"
proof -
  obtain q where q: "runq_rep s q" and l: "linked_ok s (\<lambda>i. i \<in> set (q (priority (g_proc s ! i))))"
    using sched_okD [OF ok] .
  show ?thesis
  proof (cases "find (eligible s) (by_priority q)")
    case None
    then have "n = g_idle_task s" "s' = s" using pick unfolding sched_pick_next_find [OF q] by auto
    moreover have "g_idle_task s \<in> set (g_ozio s)" using l by (simp add: linked_ok_def g_idle_task_def)
    ultimately show ?thesis using ok l by (simp add: linked_ok_def)
  next
    case (Some p)
    then have n: "n = p" and s': "s' = s\<lparr>g_run_queue := (g_run_queue s)[priority (g_proc s ! p) := next_p (g_proc s ! p)]\<rparr>"
      using pick unfolding sched_pick_next_find [OF q] by auto
    obtain pr where pr: "pr \<le> PRIO_MAX" "p \<in> set (q pr)" and e: "eligible s p"
      using find_SomeD [OF Some] by (auto simp: by_priority_mem)
    have p: "p < length (g_proc s)" "priority (g_proc s ! p) = pr" using runq_rep_mem [OF q pr] by auto
    have r: "runq_rep s' (q(pr := behind p (q pr)))" using runq_rotate_rep [OF q pr] s' p by simp
    obtain us vs where us: "q pr = us @ p # vs" "p \<notin> set us" using split_list_first [OF pr(2)] by metis
    have "set (behind p (q pr)) = set (q pr)" using us by (auto simp: behind_split)
    then have m: "set ((q(pr := behind p (q pr))) pr') = set (q pr')" for pr' by simp
    have "linked_ok s' (\<lambda>i. i \<in> set (q (priority (g_proc s' ! i))))"
      using l by (simp add: s' linked_ok_def g_current_def)
    then have "sched_ok s'" by (intro sched_okI [OF r]) (simp only: m)
    then show ?thesis using p e by (simp add: n s' eligible_def attivo_def g_current_def)
  qed
qed

lemma sched_ok_globals:
  assumes ok: "sched_ok s" and "n < length (g_proc s)"
  shows "sched_ok (s\<lparr>g_corrente := (g_corrente s)[g_cpu s := Some n], g_switch_count := k\<rparr>)"
proof -
  obtain q where q: "runq_rep s q" and l: "linked_ok s (\<lambda>i. i \<in> set (q (priority (g_proc s ! i))))"
    using sched_okD [OF ok] .
  let ?s = "s\<lparr>g_corrente := (g_corrente s)[g_cpu s := Some n], g_switch_count := k\<rparr>"
  have "nxt ?s = nxt s" "prv ?s = prv s" by (simp_all add: fun_eq_iff nxt_def prv_def)
  then have "runq_rep ?s q" by (intro runq_rep_cong [OF q]) simp_all
  then show ?thesis by (rule sched_okI) (use l assms(2) in \<open>simp add: linked_ok_def g_current_def\<close>)
qed

lemma sched_ok_switch:
  assumes ok: "sched_ok s" and n: "n < length (g_proc s)" "attivo (g_proc s ! n)"
  shows "sched_ok (sched_switch_to n s)"
proof (cases "g_current s = Some n")
  case True
  then show ?thesis using ok by (simp add: sched_switch_to_def)
next
  case False
  obtain c where c: "g_current s = Some c" "c < length (g_proc s)" using sched_ok_current [OF ok] .
  define s1 where "s1 = (if state (g_proc s ! c) = PROC_RUNNING
    then proc_upd c (\<lambda>p. p\<lparr>state := PROC_READY\<rparr>) s else s)"
  have s1: "sched_ok s1" unfolding s1_def using ok
    by (cases "state (g_proc s ! c) = PROC_RUNNING") (auto intro!: sched_ok_proc_upd simp: attivo_def)
  have n1: "attivo (g_proc s1 ! n)" "length (g_proc s1) = length (g_proc s)" using n c False
    by (auto simp: s1_def proc_upd_nth attivo_def)
  define s2 where "s2 = proc_upd n (\<lambda>p. p\<lparr>state := PROC_RUNNING, quantum := quantum_total p, cpu := g_cpu s\<rparr>) s1"
  have "sched_ok s2" unfolding s2_def using s1 n1 by (intro sched_ok_proc_upd) (auto simp: attivo_def)
  moreover have "n < length (g_proc s2)" using n n1 by (simp add: s2_def)
  ultimately show ?thesis using sched_ok_globals [of s2 n] False c
    unfolding sched_switch_to_def Let_def c(1) option.sel s1_def [symmetric] s2_def [symmetric] by simp
qed

lemma sched_ok_pick_switch:
  assumes "sched_ok s"
  shows "sched_ok (case sched_pick_next s of (n, s1) \<Rightarrow> sched_switch_to n s1)"
    "sched_ok (case sched_pick_next s of (n, s1) \<Rightarrow> if n \<noteq> c then sched_switch_to n s1 else s1)"
proof -
  obtain n s1 where p: "sched_pick_next s = (n, s1)" by (cases "sched_pick_next s")
  note ok = sched_ok_pick [OF assms p]
  have "sched_ok (sched_switch_to n s1)" by (rule sched_ok_switch) (simp_all add: ok)
  then show "sched_ok (case sched_pick_next s of (n, s1) \<Rightarrow> sched_switch_to n s1)"
    "sched_ok (case sched_pick_next s of (n, s1) \<Rightarrow> if n \<noteq> c then sched_switch_to n s1 else s1)"
    by (simp_all add: p ok)
qed

lemma sched_ok_yield:
  assumes "sched_ok s" shows "sched_ok (sched_yield s)"
  unfolding sched_yield_def Let_def
  by (rule sched_ok_pick_switch, rule sched_ok_proc_upd [OF assms]) (auto simp: attivo_def)

lemma sched_ok_block:
  assumes ok: "sched_ok s" and c: "g_current s = Some c" "c \<notin> set (g_ozio s)"
  shows "sched_ok (sched_block r s)"
proof -
  have "c < length (g_proc s)" using sched_ok_currentD [OF ok c(1)] .
  then have "sched_ok (runq_remove c (proc_upd c (\<lambda>p. p\<lparr>state := r\<rparr>) s))" if "r = PROC_BLOCKED \<or> r = PROC_SLEEPING"
    using that by (intro sched_ok_stop [OF ok _ c(2)]) auto
  then show ?thesis unfolding sched_block_def Let_def c option.sel
    by (intro sched_ok_pick_switch) (simp add: ok)
qed

lemma sched_ok_unblock:
  assumes ok: "sched_ok s" shows "sched_ok (sched_unblock_locked k s)"
proof (cases "find (\<lambda>i. pid (g_proc s ! i) = k \<and>
    (state (g_proc s ! i) = PROC_NASCENTE \<or> state (g_proc s ! i) = PROC_BLOCKED)) [0..<length (g_proc s)]")
  case (Some i)
  then have i: "i < length (g_proc s)" "state (g_proc s ! i) = PROC_NASCENTE \<or> state (g_proc s ! i) = PROC_BLOCKED"
    using find_SomeD [OF Some] by auto
  then have "sched_ok (runq_add i (proc_upd i (\<lambda>p. p\<lparr>block_until := 0, state := PROC_READY\<rparr>) s))"
    by (intro sched_ok_wake [OF ok]) (auto simp: attivo_def)
  then show ?thesis using Some ok by (simp add: sched_unblock_locked_def)
qed (simp add: sched_unblock_locked_def ok)

lemma sched_ok_interrompi:
  assumes ok: "sched_ok s" shows "sched_ok (snd (proc_interrompi_locked k s))"
proof -
  have "sched_ok (proc_upd i (\<lambda>p. p\<lparr>interrotto := True\<rparr>) s)" for i
    by (rule sched_ok_proc_upd [OF ok]) (auto simp: attivo_def)
  then show ?thesis using ok sched_ok_unblock
    by (auto simp: proc_interrompi_locked_def Let_def split: option.splits)
qed

lemma sched_ok_sveglia_posto:
  assumes ok: "sched_ok s" and i: "i < length (g_proc s)"
  shows "sched_ok (sveglia_posto i s) \<and> length (g_proc (sveglia_posto i s)) = length (g_proc s)"
proof -
  define s1 where "s1 = (if state (g_proc s ! i) = PROC_SLEEPING \<and> g_ticks s \<ge> sleep_until (g_proc s ! i)
    then runq_add i (proc_upd i (\<lambda>p. p\<lparr>state := PROC_READY\<rparr>) s) else s)"
  have s1: "sched_ok s1" "i < length (g_proc s1)" "length (g_proc s1) = length (g_proc s)"
    unfolding s1_def using ok i by (auto intro!: sched_ok_wake simp: attivo_def)
  then have "sched_ok (runq_add i (proc_upd i (\<lambda>p. p\<lparr>block_until := 0, state := PROC_READY\<rparr>) s1))"
    if "state (g_proc s1 ! i) = PROC_BLOCKED"
    by (intro sched_ok_wake) (use that in \<open>auto simp: attivo_def\<close>)
  then show ?thesis unfolding sveglia_posto_def Let_def s1_def [symmetric] using s1 by simp
qed

lemma sched_ok_sveglia_fold:
  "sched_ok s \<Longrightarrow> \<forall>i \<in> set is. i < length (g_proc s) \<Longrightarrow> sched_ok (fold sveglia_posto is s)"
  by (induction "is" arbitrary: s) (auto simp: sched_ok_sveglia_posto)

lemma sched_ok_sveglia: "sched_ok s \<Longrightarrow> sched_ok (sveglia_scaduti s)"
  by (simp add: sveglia_scaduti_def sched_ok_sveglia_fold)

lemma sched_ok_battito:
  assumes ok: "sched_ok s" shows "sched_ok (sched_battito_comune s)"
proof -
  obtain n s1 where p: "sched_pick_next s = (n, s1)" by (cases "sched_pick_next s")
  note ok1 = sched_ok_pick [OF ok p]
  have "sched_ok (proc_upd c (\<lambda>p. p\<lparr>quantum := quantum_total p\<rparr>) s1)" for c
    using ok1 by (intro sched_ok_proc_upd) (auto simp: attivo_def)
  moreover have "sched_ok (sched_switch_to n s1)" by (rule sched_ok_switch) (simp_all add: ok1)
  ultimately show ?thesis by (auto simp: sched_battito_comune_def Let_def p ok ok1)
qed

lemma sched_ok_consuma: "sched_ok s \<Longrightarrow> sched_ok (consuma_quanto s)"
  unfolding consuma_quanto_def by (rule sched_ok_proc_upd) (auto simp: attivo_def)

lemma sched_ok_sleep:
  assumes ok: "sched_ok s" and c: "g_current s = Some c" "c \<notin> set (g_ozio s)"
  shows "sched_ok (sched_sleep ms s)"
  unfolding sched_sleep_def Let_def
  by (rule sched_ok_block [of _ c], rule sched_ok_proc_upd [OF ok])
    (use c in \<open>auto simp: attivo_def g_current_def\<close>)

lemma sched_ok_set_ready:
  assumes ok: "sched_ok s" and i: "i < length (g_proc s)" "state (g_proc s ! i) \<noteq> PROC_RUNNING"
  shows "sched_ok (proc_set_ready i s)"
proof (cases "state (g_proc s ! i) = PROC_READY")
  case True
  then show ?thesis using ok by (simp add: proc_set_ready_def Let_def)
next
  case False
  then have na: "\<not> attivo (g_proc s ! i)" using i by (simp add: attivo_def)
  have twice: "proc_upd i g (proc_upd i f s) = proc_upd i (\<lambda>p. g (f p)) s" for f g
    using i by (simp add: proc_upd_def)
  have prio: "priority (g_proc s ! i) \<le> PRIO_MAX" by (rule sched_ok_prio [OF ok i(1)])
  show ?thesis
  proof (cases "state (g_proc s ! i) = PROC_NASCENTE \<and> is_driver (g_proc s ! i) \<and> priority (g_proc s ! i) = PRIO_NORMAL")
    case True
    show ?thesis unfolding proc_set_ready_def Let_def twice if_P [OF True] if_not_P [OF False]
      by (rule sched_ok_wake_prio [OF ok i(1) na]) simp_all
  next
    case f: False
    show ?thesis unfolding proc_set_ready_def Let_def if_not_P [OF f] if_not_P [OF False]
      by (rule sched_ok_wake_prio [OF ok i(1) na]) (simp_all add: prio)
  qed
qed

text \<open>What \<^verbatim>\<open>sched_block\<close> leaves behind.\<close>

lemma sched_switch_sel:
  assumes c: "g_current s = Some c" "c \<noteq> n" "n < length (g_proc s)" "c < length (g_proc s)"
    "g_cpu s < length (g_corrente s)"
  shows "g_current (sched_switch_to n s) = Some n" "state (g_proc (sched_switch_to n s) ! n) = PROC_RUNNING"
    "state (g_proc (sched_switch_to n s) ! c) = (if state (g_proc s ! c) = PROC_RUNNING then PROC_READY else state (g_proc s ! c))"
proof -
  define s1 where "s1 = (if state (g_proc s ! c) = PROC_RUNNING
    then proc_upd c (\<lambda>p. p\<lparr>state := PROC_READY\<rparr>) s else s)"
  define s2 where "s2 = proc_upd n (\<lambda>p. p\<lparr>state := PROC_RUNNING, quantum := quantum_total p, cpu := g_cpu s\<rparr>) s1"
  have sw: "sched_switch_to n s = s2\<lparr>g_corrente := (g_corrente s2)[g_cpu s2 := Some n], g_switch_count := g_switch_count s2 + 1\<rparr>"
    using c(1,2) unfolding sched_switch_to_def Let_def c(1) option.sel s1_def [symmetric] s2_def [symmetric] by simp
  have s1: "length (g_proc s1) = length (g_proc s)" "g_corrente s1 = g_corrente s" "g_cpu s1 = g_cpu s"
    "state (g_proc s1 ! c) = (if state (g_proc s ! c) = PROC_RUNNING then PROC_READY else state (g_proc s ! c))"
    using c(4) by (simp_all add: s1_def proc_upd_nth)
  show "g_current (sched_switch_to n s) = Some n" "state (g_proc (sched_switch_to n s) ! n) = PROC_RUNNING"
    "state (g_proc (sched_switch_to n s) ! c) = (if state (g_proc s ! c) = PROC_RUNNING then PROC_READY else state (g_proc s ! c))"
    using c s1 unfolding sw s2_def by (simp_all add: g_current_def proc_upd_nth)
qed

lemma sched_switch_length [simp]: "length (g_proc (sched_switch_to n s)) = length (g_proc s)"
  by (simp add: sched_switch_to_def Let_def)

lemma sched_pick_from_length: "length (g_proc (snd (sched_pick_from prios s))) = length (g_proc s)"
  by (induction prios) (auto split: option.split)

lemma sched_block_length: "length (g_proc (sched_block r s)) = length (g_proc s)"
proof -
  have "length (g_proc (case sched_pick_next s1 of (n, s2) \<Rightarrow> sched_switch_to n s2)) = length (g_proc s1)" for s1
    using sched_pick_from_length unfolding sched_pick_next_def by (simp add: split_beta)
  then show ?thesis by (simp add: sched_block_def Let_def)
qed

lemma sched_block_effect:
  assumes ok: "sched_ok s" and c: "g_current s = Some c" "c \<notin> set (g_ozio s)"
    and r: "r = PROC_BLOCKED \<or> r = PROC_SLEEPING"
  shows "state (g_proc (sched_block r s) ! c) = r \<and>
    (\<exists>n. n \<noteq> c \<and> g_current (sched_block r s) = Some n \<and> state (g_proc (sched_block r s) ! n) = PROC_RUNNING)"
proof -
  define s1 where "s1 = runq_remove c (proc_upd c (\<lambda>p. p\<lparr>state := r\<rparr>) s)"
  have cl: "c < length (g_proc s)" by (rule sched_ok_currentD [OF ok c(1)])
  have ok1: "sched_ok s1" unfolding s1_def by (rule sched_ok_stop [OF ok cl c(2)]) (use r in auto)
  have s1: "state (g_proc s1 ! c) = r" "g_current s1 = Some c" "length (g_proc s1) = length (g_proc s)"
    using cl c(1) by (simp_all add: s1_def proc_upd_nth g_current_def)
  obtain n s2 where p: "sched_pick_next s1 = (n, s2)" by (cases "sched_pick_next s1")
  note pk = sched_ok_pick [OF ok1 p]
  have n: "n \<noteq> c" using pk s1(1) r by (auto simp: attivo_def)
  have b: "sched_block r s = sched_switch_to n s2"
    using r p by (simp add: sched_block_def Let_def c s1_def)
  have "g_cpu s2 < length (g_corrente s2)" using pk ok1 by (auto simp: sched_ok_def linked_ok_def)
  then show ?thesis using sched_switch_sel [of s2 c n] pk s1 n cl r unfolding b by auto
qed

section \<open>Timed wakeups\<close>

definition scaduto :: "u32 \<Rightarrow> process \<Rightarrow> bool" where
  "scaduto t p \<longleftrightarrow> state p = PROC_SLEEPING \<and> sleep_until p \<le> t \<or>
     state p = PROC_BLOCKED \<and> block_until p \<noteq> 0 \<and> block_until p \<le> t"

lemma sveglia_posto_frame:
  assumes "i < length (g_proc s)"
  shows "g_ticks (sveglia_posto i s) = g_ticks s" "length (g_proc (sveglia_posto i s)) = length (g_proc s)"
    "state (g_proc (sveglia_posto i s) ! i) =
       (if scaduto (g_ticks s) (g_proc s ! i) then PROC_READY else state (g_proc s ! i))"
    "j \<noteq> i \<Longrightarrow> state (g_proc (sveglia_posto i s) ! j) = state (g_proc s ! j)"
    "j \<noteq> i \<Longrightarrow> sleep_until (g_proc (sveglia_posto i s) ! j) = sleep_until (g_proc s ! j)"
    "j \<noteq> i \<Longrightarrow> block_until (g_proc (sveglia_posto i s) ! j) = block_until (g_proc s ! j)"
  using assms by (auto simp: sveglia_posto_def Let_def proc_upd_nth scaduto_def)

lemma scaduto_cong:
  "state p = state p' \<Longrightarrow> sleep_until p = sleep_until p' \<Longrightarrow> block_until p = block_until p' \<Longrightarrow>
   scaduto t p = scaduto t p'"
  by (simp add: scaduto_def)

lemma sveglia_fold_state:
  assumes "distinct is" "\<forall>i \<in> set is. i < length (g_proc s)"
  shows "state (g_proc (fold sveglia_posto is s) ! j) =
    (if j \<in> set is \<and> scaduto (g_ticks s) (g_proc s ! j) then PROC_READY else state (g_proc s ! j))"
  using assms
proof (induction "is" arbitrary: s)
  case (Cons i "is")
  have i: "i < length (g_proc s)" using Cons.prems by simp
  note fr = sveglia_posto_frame [OF i]
  have "scaduto (g_ticks s) (g_proc (sveglia_posto i s) ! j) = scaduto (g_ticks s) (g_proc s ! j)" if "j \<noteq> i"
    by (rule scaduto_cong) (use fr that in auto)
  then show ?case using Cons.IH [of "sveglia_posto i s"] Cons.prems fr by (cases "j = i") auto
qed simp

lemma sveglia_scaduti_state:
  "i < length (g_proc s) \<Longrightarrow> state (g_proc (sveglia_scaduti s) ! i) =
     (if scaduto (g_ticks s) (g_proc s ! i) then PROC_READY else state (g_proc s ! i))"
  unfolding sveglia_scaduti_def by (subst sveglia_fold_state) auto

section \<open>Processes by pid\<close>

text \<open>No two processes have the same pid.\<close>

definition pids_ok :: "sched \<Rightarrow> bool" where
  "pids_ok s \<longleftrightarrow> (\<forall>i < length (g_proc s). \<forall>j < length (g_proc s).
     state (g_proc s ! i) \<noteq> PROC_UNUSED \<and> state (g_proc s ! j) \<noteq> PROC_UNUSED \<and>
     pid (g_proc s ! i) = pid (g_proc s ! j) \<longrightarrow> i = j)"

lemma pids_okD:
  "pids_ok s \<Longrightarrow> i < length (g_proc s) \<Longrightarrow> j < length (g_proc s) \<Longrightarrow> state (g_proc s ! i) \<noteq> PROC_UNUSED \<Longrightarrow>
   state (g_proc s ! j) \<noteq> PROC_UNUSED \<Longrightarrow> pid (g_proc s ! i) = pid (g_proc s ! j) \<Longrightarrow> i = j"
  unfolding pids_ok_def by (drule spec, drule mp, assumption, drule spec, drule mp, assumption, erule mp) simp

lemma find_unique:
  assumes "x \<in> set xs" "P x" "\<And>y. y \<in> set xs \<Longrightarrow> P y \<Longrightarrow> y = x"
  shows "find P xs = Some x"
proof (cases "find P xs")
  case None
  then show ?thesis using assms(1,2) by (auto simp: find_None_iff)
next
  case (Some y)
  have "y = x" using find_SomeD [OF Some] by (intro assms(3)) simp_all
  then show ?thesis using Some by simp
qed

lemma proc_get_by_pid_unique:
  assumes "pids_ok s" "i < length (g_proc s)" "state (g_proc s ! i) \<noteq> PROC_UNUSED"
  shows "proc_get_by_pid (pid (g_proc s ! i)) s = Some i"
  unfolding proc_get_by_pid_def
proof (rule find_unique)
  show "j = i" if "j \<in> set [0..<length (g_proc s)]"
    "pid (g_proc s ! j) = pid (g_proc s ! i) \<and> state (g_proc s ! j) \<noteq> PROC_UNUSED" for j
    by (rule pids_okD [OF assms(1)]) (use that assms in auto)
qed (use assms in auto)

lemma proc_get_by_pid_Some:
  "proc_get_by_pid k s = Some i \<Longrightarrow>
   i < length (g_proc s) \<and> pid (g_proc s ! i) = k \<and> state (g_proc s ! i) \<noteq> PROC_UNUSED"
  unfolding proc_get_by_pid_def using find_SomeD by fastforce

lemma sched_unblock_blocked:
  assumes "pids_ok s" "i < length (g_proc s)" "state (g_proc s ! i) = PROC_BLOCKED"
  shows "sched_unblock_locked (pid (g_proc s ! i)) s =
    runq_add i (proc_upd i (\<lambda>p. p\<lparr>block_until := 0, state := PROC_READY\<rparr>) s)"
proof -
  have "find (\<lambda>j. pid (g_proc s ! j) = pid (g_proc s ! i) \<and>
      (state (g_proc s ! j) = PROC_NASCENTE \<or> state (g_proc s ! j) = PROC_BLOCKED)) [0..<length (g_proc s)] = Some i"
  proof (rule find_unique)
    show "j = i" if "j \<in> set [0..<length (g_proc s)]" "pid (g_proc s ! j) = pid (g_proc s ! i) \<and>
        (state (g_proc s ! j) = PROC_NASCENTE \<or> state (g_proc s ! j) = PROC_BLOCKED)" for j
      by (rule pids_okD [OF assms(1)]) (use that assms in auto)
  qed (use assms in auto)
  then show ?thesis using assms(3) by (simp add: sched_unblock_locked_def)
qed

lemma sched_unblock_state:
  assumes "pids_ok s" "i < length (g_proc s)" "state (g_proc s ! i) = PROC_BLOCKED"
  shows "state (g_proc (sched_unblock_locked (pid (g_proc s ! i)) s) ! j) =
    (if j = i then PROC_READY else state (g_proc s ! j))"
  unfolding sched_unblock_blocked [OF assms] using assms by (simp add: proc_upd_nth)

section \<open>An example\<close>

text \<open>A table with the idle task (slot 0), a ready process (slot 1), a sleeper (slot 2) and a process that
  waits with a deadline (slot 3), for the witnesses.\<close>

definition proc_zero :: process where
  "proc_zero = \<lparr>pid = 0, tgid = 0, state = PROC_UNUSED, priority = PRIO_NORMAL, quantum = 5, quantum_total = 5,
     page_directory = 0, uid = 0, is_driver = False, interrotto = False, seg_flag = replicate 32 0,
     seg_bloccati = 0, seg_pendenti = 0, seg_attesi = 0, seg_sospeso = False, seg_salvata = 0,
     seg_ingresso = 0, seg_maschera_az = replicate 32 0, allarme_tick = 0, allarme_passo = 0,
     ticks_total = 0, sleep_until = 0, block_until = 0, next_p = None, prev_p = None, ipc_mailbox = [],
     ipc_head = 0, ipc_tail = 0, ipc_count = 0, ipc_fila_testa = None, ipc_fila_coda = None, ipc_riservati = 0,
     ipc_fila_su = None, ipc_fila_prima = None, ipc_fila_dopo = None, ipc_fila_concesso = False, cpu = 0,
     cpu_fissa = 0, nel_kernel = False\<rparr>"

definition sched_esempio :: sched where
  "sched_esempio = \<lparr>g_proc =
     [proc_zero\<lparr>pid := 1, priority := PRIO_IDLE, state := PROC_RUNNING, next_p := Some 0, prev_p := Some 0\<rparr>,
      proc_zero\<lparr>pid := 2, state := PROC_READY, next_p := Some 1, prev_p := Some 1\<rparr>,
      proc_zero\<lparr>pid := 3, state := PROC_SLEEPING, sleep_until := 7\<rparr>,
      proc_zero\<lparr>pid := 4, state := PROC_BLOCKED, block_until := 9\<rparr>],
     g_run_queue = [Some 0, None, Some 1, None, None], g_corrente = [Some 0], g_ozio = [0], g_cpu = 0,
     g_smp_lavora = False, g_sched_stopped = False, g_ticks = 8, g_switch_count = 0, g_allarmi_armati = 0,
     g_allarme_prossimo = 0\<rparr>"

definition code_esempio :: "nat \<Rightarrow> nat list" where
  "code_esempio pr = (if pr = PRIO_IDLE then [0] else if pr = PRIO_NORMAL then [1] else [])"

lemma runq_rep_esempio: "runq_rep sched_esempio code_esempio"
proof -
  have le: "pr \<le> PRIO_MAX \<longleftrightarrow> pr \<in> {0, 1, 2, 3, 4}" for pr :: nat by auto
  have lt: "i < length (g_proc sched_esempio) \<longleftrightarrow> i \<in> {0, 1, 2, 3}" for i by (auto simp: sched_esempio_def)
  show ?thesis unfolding runq_rep_def le lt
    by (simp add: code_esempio_def sched_esempio_def proc_zero_def circ_def nxt_def prv_def)
qed

lemma sched_ok_esempio: "sched_ok sched_esempio"
proof (rule sched_okI [OF runq_rep_esempio])
  have lt: "i < length (g_proc sched_esempio) \<longleftrightarrow> i \<in> {0, 1, 2, 3}" for i by (auto simp: sched_esempio_def)
  show "linked_ok sched_esempio (\<lambda>i. i \<in> set (code_esempio (priority (g_proc sched_esempio ! i))))"
    unfolding linked_ok_def lt
    by (simp add: code_esempio_def sched_esempio_def proc_zero_def attivo_def g_current_def)
qed

section \<open>Properties\<close>

text \<open>C2. The scheduler chooses by priority, and round robin inside a priority: with the run queues read as
  lists, \<^verbatim>\<open>sched_pick_next\<close> returns the first process of the highest non-empty choice (ready, and allowed on
  this processor) and sends it behind the others of its queue, whose other members keep their order. When
  nobody is ready it returns the idle task and changes nothing. The scan always ends.\<close>

theorem sched_pick_next_refines:
  assumes "runq_rep s q"
  shows "case find (eligible s) (by_priority q) of
      None \<Rightarrow> sched_pick_next s = (g_idle_task s, s)
    | Some p \<Rightarrow> fst (sched_pick_next s) = p \<and> g_proc (snd (sched_pick_next s)) = g_proc s \<and>
        runq_rep (snd (sched_pick_next s))
          (q(priority (g_proc s ! p) := behind p (q (priority (g_proc s ! p)))))"
proof (cases "find (eligible s) (by_priority q)")
  case None
  then show ?thesis using sched_pick_next_find [OF assms] by simp
next
  case (Some p)
  then obtain pr where pr: "pr \<le> PRIO_MAX" "p \<in> set (q pr)"
    using find_SomeD [OF Some] by (auto simp: by_priority_mem)
  then have "priority (g_proc s ! p) = pr" using runq_rep_mem [OF assms] by blast
  then show ?thesis using Some sched_pick_next_find [OF assms] runq_rotate_rep [OF assms pr] by simp
qed

theorem sched_pick_next_refines_witness:
  "runq_rep sched_esempio code_esempio \<and> fst (sched_pick_next sched_esempio) = 1 \<and>
   runq_rep (snd (sched_pick_next sched_esempio)) code_esempio"
proof -
  have "find (eligible sched_esempio) (by_priority code_esempio) = Some 1"
    by (simp add: by_priority_def code_esempio_def eligible_def sched_puo_qui_def Let_def sched_esempio_def
        proc_zero_def upt_rec)
  moreover have "code_esempio(priority (g_proc sched_esempio ! 1) := behind 1 (code_esempio (priority (g_proc sched_esempio ! 1))))
      = code_esempio"
    by (simp add: fun_eq_iff code_esempio_def sched_esempio_def proc_zero_def behind_def)
  ultimately show ?thesis using sched_pick_next_refines [OF runq_rep_esempio] runq_rep_esempio by simp
qed

text \<open>A process that blocks or goes to sleep stops: it is in that state, in no run queue, and the processor
  is running another process; the run queues stay well formed.\<close>

theorem sched_block_sleeps:
  assumes "sched_ok s" "g_current s = Some c" "c \<notin> set (g_ozio s)" "r = PROC_BLOCKED \<or> r = PROC_SLEEPING"
  shows "state (g_proc (sched_block r s) ! c) = r \<and> nxt (sched_block r s) c = None \<and> sched_ok (sched_block r s) \<and>
    (\<exists>n. n \<noteq> c \<and> g_current (sched_block r s) = Some n \<and> state (g_proc (sched_block r s) ! n) = PROC_RUNNING)"
proof -
  note e = sched_block_effect [OF assms] and ok = sched_ok_block [OF assms(1-3), of r]
  have "c < length (g_proc (sched_block r s)) \<Longrightarrow> nxt (sched_block r s) c = None"
    using ok e assms(4) by (auto simp: sched_ok_def linked_ok_def attivo_def)
  moreover have "c < length (g_proc s)" by (rule sched_ok_currentD [OF assms(1,2)])
  ultimately show ?thesis using e ok sched_block_length by auto
qed

text \<open>The example with the ready process chosen.\<close>

definition sched_corsa :: sched where
  "sched_corsa = sched_yield sched_esempio"

lemma sched_corsa_ok: "sched_ok sched_corsa"
  unfolding sched_corsa_def by (rule sched_ok_yield [OF sched_ok_esempio])

lemma sched_corsa_sel: "g_current sched_corsa = Some 1" "g_ozio sched_corsa = [0]" "pid (g_proc sched_corsa ! 1) = 2"
  "state (g_proc sched_corsa ! 1) = PROC_RUNNING"
  by code_simp+

theorem sched_block_sleeps_witness:
  "state (g_proc (sched_block PROC_BLOCKED sched_corsa) ! 1) = PROC_BLOCKED \<and> nxt (sched_block PROC_BLOCKED sched_corsa) 1 = None"
  using sched_block_sleeps [OF sched_corsa_ok sched_corsa_sel(1), of PROC_BLOCKED] by (simp add: sched_corsa_sel)

text \<open>C16. The timer wakes exactly whom it should: of all the processes, those asleep whose time has come and
  those blocked with a deadline that has passed become ready; every other process keeps its state.\<close>

theorem timer_wakes_exactly_due:
  assumes "sched_ok s" "i < length (g_proc s)"
  shows "sched_ok (sveglia_scaduti s) \<and>
    state (g_proc (sveglia_scaduti s) ! i) =
      (if state (g_proc s ! i) = PROC_SLEEPING \<and> sleep_until (g_proc s ! i) \<le> g_ticks s \<or>
          state (g_proc s ! i) = PROC_BLOCKED \<and> block_until (g_proc s ! i) \<noteq> 0 \<and> block_until (g_proc s ! i) \<le> g_ticks s
       then PROC_READY else state (g_proc s ! i))"
  using sched_ok_sveglia [OF assms(1)] sveglia_scaduti_state [OF assms(2)] by (simp add: scaduto_def)

theorem timer_wakes_exactly_due_witness:
  "state (g_proc (sveglia_scaduti sched_esempio) ! 2) = PROC_READY \<and>
   state (g_proc (sveglia_scaduti sched_esempio) ! 3) = PROC_BLOCKED"
  using timer_wakes_exactly_due [OF sched_ok_esempio, of 2] timer_wakes_exactly_due [OF sched_ok_esempio, of 3]
  by (simp add: sched_esempio_def proc_zero_def)

end
