(* ===== verification/Segnali.thy ===== *)
theory Segnali
  imports Sched
begin

text \<open>
  The signals of \<^verbatim>\<open>kernel/sched/segnali.c\<close>: sending (\<^verbatim>\<open>manda\<close>, \<^verbatim>\<open>segnali_manda_locked\<close>), the wake-up of a
  thread that a caught signal interrupts, the choice of the signal a thread receives on its way out of a
  system call, the masks and actions, \<^verbatim>\<open>sigwait\<close> and \<^verbatim>\<open>sigsuspend\<close> as turns of their loops, and the alarms.
  The timer interrupt \<^verbatim>\<open>sched_irq0_handler\<close> of \<^verbatim>\<open>sched.c\<close>, which runs the alarms, stands here too, with the
  step relation of the scheduler. Of the frame on the user stack (\<^verbatim>\<open>costruisci\<close>) what it
  does to the table is modelled; whether the interrupted code was a program's and its stack has room is a parameter.
\<close>

unbundle bit_operations_syntax

section \<open>Constants\<close>

definition BIT :: "nat \<Rightarrow> u32" where
  "BIT s = push_bit s 1"

abbreviation SIGKILL :: nat where "SIGKILL \<equiv> 9"
abbreviation SIGALRM :: nat where "SIGALRM \<equiv> 14"
abbreviation SIGTERM :: nat where "SIGTERM \<equiv> 15"
abbreviation SIGSTOP :: nat where "SIGSTOP \<equiv> 19"
abbreviation SIGCHLD :: nat where "SIGCHLD \<equiv> 17"
abbreviation SIGCONT :: nat where "SIGCONT \<equiv> 18"
abbreviation SIGURG :: nat where "SIGURG \<equiv> 23"
abbreviation SIGWINCH :: nat where "SIGWINCH \<equiv> 28"

abbreviation SEG_PREDEFINITO :: u32 where "SEG_PREDEFINITO \<equiv> 0"
abbreviation SEG_IGNORA :: u32 where "SEG_IGNORA \<equiv> 1"
abbreviation SEG_PRESO :: u32 where "SEG_PRESO \<equiv> 2"
abbreviation SEG_TIPO :: u32 where "SEG_TIPO \<equiv> 3"

abbreviation SA_NODEFER :: u32 where "SA_NODEFER \<equiv> 0x40000000"
abbreviation SA_RESETHAND :: u32 where "SA_RESETHAND \<equiv> 0x80000000"

definition NON_BLOCCABILI :: u32 where
  "NON_BLOCCABILI = BIT SIGKILL OR BIT SIGSTOP"

section \<open>Who receives a signal\<close>

definition capo_di :: "nat \<Rightarrow> sched \<Rightarrow> nat" where
  "capo_di i s =
     (let p = g_proc s ! i in
      if tgid p \<noteq> 0 \<and> tgid p \<noteq> pid p
      then (case proc_get_by_pid (tgid p) s of Some c \<Rightarrow> c | None \<Rightarrow> i)
      else i)"

definition gruppo :: "process \<Rightarrow> u32" where
  "gruppo p = (if tgid p \<noteq> 0 then tgid p else pid p)"

definition chi_attende :: "nat \<Rightarrow> nat \<Rightarrow> sched \<Rightarrow> nat option" where
  "chi_attende i sig s =
     find (\<lambda>j. let q = g_proc s ! j in
                state q \<noteq> PROC_UNUSED \<and> state q \<noteq> PROC_ZOMBIE \<and> gruppo q = gruppo (g_proc s ! i) \<and>
                seg_attesi q AND BIT sig \<noteq> 0)
       [0..<length (g_proc s)]"

definition predefinito_ignora :: "nat \<Rightarrow> bool" where
  "predefinito_ignora sig \<longleftrightarrow> sig = SIGCHLD \<or> sig = SIGCONT \<or> sig = SIGURG \<or> sig = SIGWINCH"

definition tipo_di :: "nat \<Rightarrow> nat \<Rightarrow> sched \<Rightarrow> u32" where
  "tipo_di i sig s = seg_flag (g_proc s ! capo_di i s) ! sig AND SEG_TIPO"

section \<open>Sending\<close>

definition pendente :: "nat \<Rightarrow> nat \<Rightarrow> sched \<Rightarrow> sched" where
  "pendente i sig = proc_upd i (\<lambda>p. p\<lparr>seg_pendenti := seg_pendenti p OR BIT sig\<rparr>)"

definition sveglia_per :: "nat \<Rightarrow> nat \<Rightarrow> sched \<Rightarrow> sched" where
  "sveglia_per i sig s =
     (let p = g_proc s ! i in
      if seg_bloccati p AND BIT sig \<noteq> 0 then s
      else if state p \<noteq> PROC_BLOCKED then s
      else if seg_sospeso p \<or> tipo_di i sig s = SEG_PRESO then sched_unblock_locked (pid p) s
      else s)"

definition segnali_interrompono :: "nat \<Rightarrow> sched \<Rightarrow> bool" where
  "segnali_interrompono i s =
     (let p = g_proc s ! i; pend = seg_pendenti p AND NOT (seg_bloccati p) in
      pend \<noteq> 0 \<and> list_ex (\<lambda>sig. pend AND BIT sig \<noteq> 0 \<and> tipo_di i sig s = SEG_PRESO) [1..<32])"

definition proc_da_interrompere :: "sched \<Rightarrow> bool" where
  "proc_da_interrompere s =
     (case proc_get_current s of None \<Rightarrow> False
      | Some i \<Rightarrow> interrotto (g_proc s ! i) \<or> segnali_interrompono i s)"

text \<open>The signal goes to a thread of the program asleep in \<^verbatim>\<open>sigwait\<close> for it.\<close>

definition consegna_attesa :: "nat \<Rightarrow> nat \<Rightarrow> sched \<Rightarrow> sched" where
  "consegna_attesa q sig s =
     (let s1 = proc_upd q (\<lambda>p. p\<lparr>seg_pendenti := seg_pendenti p OR BIT sig, seg_attesi := 0\<rparr>) s in
      if state (g_proc s1 ! q) = PROC_BLOCKED then sched_unblock_locked (pid (g_proc s1 ! q)) s1 else s1)"

definition segnali_manda_locked :: "nat \<Rightarrow> nat \<Rightarrow> sched \<Rightarrow> sched" where
  "segnali_manda_locked i sig s =
     (let p = g_proc s ! i in
      if state p = PROC_ZOMBIE \<or> state p = PROC_UNUSED then s
      else (case chi_attende i sig s of
              Some q \<Rightarrow> consegna_attesa q sig s
            | None \<Rightarrow>
                (let tipo = tipo_di i sig s in
                 if tipo = SEG_IGNORA then s
                 else if tipo = SEG_PREDEFINITO \<and> predefinito_ignora sig then s
                 else if tipo = SEG_PREDEFINITO \<and> seg_bloccati p AND BIT sig = 0
                      then snd (proc_interrompi_locked (pid p) s)
                 else sveglia_per i sig (pendente i sig s))))"

definition manda :: "nat \<Rightarrow> nat \<Rightarrow> nat \<Rightarrow> sched \<Rightarrow> sched" where
  "manda self i sig s =
     (case (if sig \<noteq> SIGKILL then chi_attende i sig s else None) of
        Some q \<Rightarrow> consegna_attesa q sig s
      | None \<Rightarrow>
          (let p = g_proc s ! i;
               tipo = (if sig \<noteq> SIGKILL then tipo_di i sig s else SEG_PREDEFINITO) in
           if tipo = SEG_IGNORA then s
           else if tipo = SEG_PREDEFINITO \<and> predefinito_ignora sig then s
           else if tipo = SEG_PREDEFINITO \<and> tgid p \<noteq> tgid (g_proc s ! self)
                then (if seg_bloccati p AND BIT sig \<noteq> 0 then pendente i sig s
                      else snd (proc_interrompi_locked (pid p) s))
           else sveglia_per i sig (pendente i sig s)))"

definition sys_seg_manda :: "u32 \<Rightarrow> int \<Rightarrow> sched \<Rightarrow> (errno + unit) \<times> sched" where
  "sys_seg_manda k sig s =
     (case proc_get_current s of None \<Rightarrow> (Inl ESRCH, s)
      | Some self \<Rightarrow>
          if sig < 0 \<or> sig \<ge> 32 then (Inl EINVAL, s)
          else (case (if k = 0 then Some self else proc_get_by_pid k s) of
                  None \<Rightarrow> (Inl ESRCH, s)
                | Some i \<Rightarrow>
                    (let p = g_proc s ! i; me = g_proc s ! self in
                     if state p = PROC_ZOMBIE \<or> state p = PROC_UNUSED then (Inl ESRCH, s)
                     else if i \<noteq> self \<and> tgid p \<noteq> tgid me \<and> pid p \<le> 1 then (Inl EPERM, s)
                     else if i \<noteq> self \<and> tgid p \<noteq> tgid me \<and> uid me \<noteq> 0 \<and> uid me \<noteq> uid p then (Inl EPERM, s)
                     else if sig = 0 then (Inr (), s)
                     else (Inr (), manda self i (nat sig) s))))"

definition segnali_figlio_finito :: "u32 \<Rightarrow> sched \<Rightarrow> sched" where
  "segnali_figlio_finito ppid s =
     (case proc_get_by_pid ppid s of None \<Rightarrow> s
      | Some i \<Rightarrow>
          (if state (g_proc s ! i) = PROC_ZOMBIE \<or> state (g_proc s ! i) = PROC_UNUSED then s
           else (case chi_attende i SIGCHLD s of
                   Some q \<Rightarrow> consegna_attesa q SIGCHLD s
                 | None \<Rightarrow>
                     (if tipo_di i SIGCHLD s \<noteq> SEG_PRESO then s
                      else (let s1 = pendente i SIGCHLD s; p = g_proc s1 ! i in
                            if seg_sospeso p \<and> seg_bloccati p AND BIT SIGCHLD = 0 \<and> state p = PROC_BLOCKED
                            then sched_unblock_locked (pid p) s1 else s1)))))"

definition arresto_bersaglio :: "process \<Rightarrow> process \<Rightarrow> bool" where
  "arresto_bersaglio q self =
     (if state q = PROC_UNUSED \<or> state q = PROC_ZOMBIE then False
      else if tgid q \<noteq> pid q \<or> pid q \<le> 1 then False
      else if nel_kernel q \<or> is_driver q then False
      else tgid q \<noteq> tgid self)"

section \<open>Receiving\<close>

text \<open>What leaving the kernel does to a thread: it goes on, it runs the handler of a signal, or the program
  dies of it. \<open>Fuori_tabella\<close> is the case the C leaves undefined: a pending bit 0, which is no signal, makes the
  scan run to 32 and shift by 32 (\<open>seg_ok\<close> below shows that it never happens).\<close>

datatype consegna = Prosegue | Gestore nat | Muore nat | Fuori_tabella

definition primo_segnale :: "u32 \<Rightarrow> nat option" where
  "primo_segnale pronti = find (\<lambda>sig. pronti AND BIT sig \<noteq> 0) [1..<32]"

text \<open>Entering a handler. \<open>pronta\<close> says whether the frame can be written: the interrupted code ran in ring 3 and its stack has room
  for the frame. What is written there is the program's memory.\<close>

definition costruisci :: "(nat \<Rightarrow> bool) \<Rightarrow> nat \<Rightarrow> nat \<Rightarrow> sched \<Rightarrow> sched option" where
  "costruisci pronta i sig s =
     (let c = capo_di i s; capo = g_proc s ! c; fl = seg_flag capo ! sig in
      if seg_ingresso capo = 0 then None
      else if fl AND SEG_TIPO \<noteq> SEG_PRESO then None
      else if \<not> pronta sig then None
      else
        (let s1 = proc_upd i (\<lambda>p. p\<lparr>seg_sospeso := False,
               seg_bloccati := (seg_bloccati p OR seg_maschera_az capo ! sig OR (if fl AND SA_NODEFER = 0 then BIT sig else 0))
                                 AND NOT NON_BLOCCABILI\<rparr>) s in
         Some (if fl AND SA_RESETHAND \<noteq> 0
               then proc_upd c (\<lambda>p. p\<lparr>seg_flag := (seg_flag p)[sig := SEG_PREDEFINITO],
                                      seg_maschera_az := (seg_maschera_az p)[sig := 0]\<rparr>) s1
               else s1)))"

text \<open>A processor exception as a signal: whether the handler will run; otherwise the caller kills the program.\<close>

definition segnali_fault :: "(nat \<Rightarrow> bool) \<Rightarrow> int \<Rightarrow> sched \<Rightarrow> bool \<times> sched" where
  "segnali_fault pronta sig s =
     (case proc_get_current s of None \<Rightarrow> (False, s)
      | Some i \<Rightarrow>
          if sig \<le> 0 \<or> sig \<ge> 32 then (False, s)
          else if seg_bloccati (g_proc s ! i) AND BIT (nat sig) \<noteq> 0 then (False, s)
          else (case costruisci pronta i (nat sig) s of None \<Rightarrow> (False, s) | Some s1 \<Rightarrow> (True, s1)))"

text \<open>The loop takes one signal per turn. The fuel 33 is more than the number of bits: every turn clears one.\<close>

fun consegna_loop :: "nat \<Rightarrow> (nat \<Rightarrow> bool) \<Rightarrow> nat \<Rightarrow> sched \<Rightarrow> consegna \<times> sched" where
  "consegna_loop 0 pronta i s = (Fuori_tabella, s)"
| "consegna_loop (Suc n) pronta i s =
     (let p = g_proc s ! i; pronti = seg_pendenti p AND NOT (seg_bloccati p) in
      if pronti = 0 then (Prosegue, s)
      else (case primo_segnale pronti of
              None \<Rightarrow> (Fuori_tabella, s)
            | Some sig \<Rightarrow>
                (let s1 = proc_upd i (\<lambda>p. p\<lparr>seg_pendenti := seg_pendenti p AND NOT (BIT sig)\<rparr>) s;
                     tipo = (if sig = SIGKILL then SEG_PREDEFINITO else tipo_di i sig s1) in
                 if tipo = SEG_IGNORA then consegna_loop n pronta i s1
                 else if tipo = SEG_PREDEFINITO \<and> predefinito_ignora sig then consegna_loop n pronta i s1
                 else if tipo \<noteq> SEG_PRESO then (Muore sig, s1)
                 else (case costruisci pronta i sig s1 of Some s2 \<Rightarrow> (Gestore sig, s2) | None \<Rightarrow> (Muore sig, s1)))))"

definition segnali_consegna :: "(nat \<Rightarrow> bool) \<Rightarrow> sched \<Rightarrow> consegna \<times> sched" where
  "segnali_consegna pronta s =
     (case proc_get_current s of None \<Rightarrow> (Prosegue, s)
      | Some i \<Rightarrow>
          (case consegna_loop 33 pronta i s of
             (Prosegue, s1) \<Rightarrow>
               (Prosegue, if seg_sospeso (g_proc s1 ! i)
                          then proc_upd i (\<lambda>p. p\<lparr>seg_bloccati := seg_salvata p, seg_sospeso := False\<rparr>) s1
                          else s1)
           | r \<Rightarrow> r))"

section \<open>Actions and masks\<close>

record seg_azione =
  az_tipo :: u32
  az_flag :: u32
  az_maschera :: u32
  az_ingresso :: u32

text \<open>The old action is written to the program before the new one is examined, so it is there also when the
  new one is refused. The bounds of the user address space are parameters: they differ between the 32 and the 64 bit kernel.\<close>

definition sys_seg_azione ::
  "u32 \<Rightarrow> u32 \<Rightarrow> int \<Rightarrow> seg_azione uptr \<Rightarrow> unit uptr \<Rightarrow> sched \<Rightarrow>
   (errno + unit) \<times> seg_azione option \<times> sched" where
  "sys_seg_azione base fine sig nuova prima s =
     (case proc_get_current s of None \<Rightarrow> (Inl ESRCH, None, s)
      | Some i \<Rightarrow>
          (let c = capo_di i s; capo = g_proc s ! c in
           if sig \<le> 0 \<or> sig \<ge> 32 then (Inl EINVAL, None, s)
           else if nuova = Fuori \<or> prima = Fuori then (Inl EFAULT, None, s)
           else
             (let k = nat sig;
                  vecchia = (if prima = Nullo then None
                             else Some \<lparr>az_tipo = seg_flag capo ! k AND SEG_TIPO,
                                        az_flag = seg_flag capo ! k AND NOT SEG_TIPO,
                                        az_maschera = seg_maschera_az capo ! k,
                                        az_ingresso = seg_ingresso capo\<rparr>) in
              case nuova of
                Punta a \<Rightarrow>
                  (if az_tipo a > SEG_PRESO then (Inl EINVAL, vecchia, s)
                   else if (k = SIGKILL \<or> k = SIGSTOP) \<and> az_tipo a \<noteq> SEG_PREDEFINITO then (Inl EINVAL, vecchia, s)
                   else if az_tipo a = SEG_PRESO \<and> (az_ingresso a < base \<or> az_ingresso a \<ge> fine)
                        then (Inl EFAULT, vecchia, s)
                   else (Inr (), vecchia,
                         proc_upd c (\<lambda>p. p\<lparr>
                           seg_ingresso := (if az_tipo a = SEG_PRESO then az_ingresso a else seg_ingresso p),
                           seg_flag := (seg_flag p)[k := az_tipo a OR (az_flag a AND NOT SEG_TIPO)],
                           seg_maschera_az := (seg_maschera_az p)[k := az_maschera a AND NOT NON_BLOCCABILI]\<rparr>) s))
              | _ \<Rightarrow> (Inr (), vecchia, s))))"

abbreviation SIG_BLOCK :: u32 where "SIG_BLOCK \<equiv> 0"
abbreviation SIG_UNBLOCK :: u32 where "SIG_UNBLOCK \<equiv> 1"
abbreviation SIG_SETMASK :: u32 where "SIG_SETMASK \<equiv> 2"

definition sys_seg_maschera ::
  "u32 \<Rightarrow> u32 uptr \<Rightarrow> unit uptr \<Rightarrow> sched \<Rightarrow> (errno + u32 option) \<times> sched" where
  "sys_seg_maschera come nuova prima s =
     (case proc_get_current s of None \<Rightarrow> (Inl ESRCH, s)
      | Some i \<Rightarrow>
          (let b = seg_bloccati (g_proc s ! i) in
           if nuova = Fuori \<or> prima = Fuori then (Inl EFAULT, s)
           else (case (case nuova of
                         Punta v \<Rightarrow> if come = SIG_BLOCK then Some (b OR v)
                                    else if come = SIG_UNBLOCK then Some (b AND NOT v)
                                    else if come = SIG_SETMASK then Some v else None
                       | _ \<Rightarrow> Some b) of
                   None \<Rightarrow> (Inl EINVAL, s)
                 | Some m \<Rightarrow> (Inr (if prima = Nullo then None else Some b),
                              proc_upd i (\<lambda>p. p\<lparr>seg_bloccati := m AND NOT NON_BLOCCABILI\<rparr>) s))))"

section \<open>Waiting for a signal\<close>

text \<open>One turn of \<^verbatim>\<open>sigwait\<close>: \<open>scade\<close> is the deadline the call computed at its start (0 = none).\<close>

definition seg_attendi_giro ::
  "nat \<Rightarrow> u32 \<Rightarrow> u32 \<Rightarrow> u32 \<Rightarrow> sched \<Rightarrow> (errno + nat) giro \<times> sched" where
  "seg_attendi_giro self voluti ms scade s =
     (let c = capo_di self s;
          p0 = seg_pendenti (g_proc s ! self) AND voluti;
          pronti = (if p0 = 0 \<and> c \<noteq> self then seg_pendenti (g_proc s ! c) AND voluti else p0);
          smetti = proc_upd self (\<lambda>p. p\<lparr>seg_attesi := 0\<rparr>) in
      case (if pronti \<noteq> 0 then primo_segnale pronti else None) of
        Some sig \<Rightarrow>
          (let chi = (if seg_pendenti (g_proc s ! self) AND BIT sig \<noteq> 0 then self else c) in
           (Ritorna (Inr sig),
            smetti (proc_upd chi (\<lambda>p. p\<lparr>seg_pendenti := seg_pendenti p AND NOT (BIT sig)\<rparr>) s)))
      | None \<Rightarrow>
          if interrotto (g_proc s ! self) then (Ritorna (Inl EINTR), smetti s)
          else if ms = 0 \<or> scade \<noteq> 0 \<and> sint (g_ticks s - scade) \<ge> 0 then (Ritorna (Inl EAGAIN), smetti s)
          else (Dormi, sched_block PROC_BLOCKED
                  (proc_upd self (\<lambda>p. p\<lparr>seg_attesi := voluti, block_until := scade\<rparr>) s)))"

definition sys_seg_attendi_inizio :: "u32 \<Rightarrow> u32 \<Rightarrow> u32 \<Rightarrow> errno + (u32 \<times> u32)" where
  "sys_seg_attendi_inizio insieme ms ticks =
     (let voluti = insieme AND NOT NON_BLOCCABILI AND NOT 1 in
      if voluti = 0 then Inl EINVAL
      else Inr (voluti, if ms = 0xFFFFFFFF then 0 else ticks + ms div 10 + 1))"

definition seg_sospendi_inizio :: "nat \<Rightarrow> u32 \<Rightarrow> sched \<Rightarrow> sched" where
  "seg_sospendi_inizio self m =
     proc_upd self (\<lambda>p. p\<lparr>seg_salvata := seg_bloccati p, seg_bloccati := m AND NOT NON_BLOCCABILI,
                          seg_sospeso := True\<rparr>)"

definition seg_sospendi_giro :: "nat \<Rightarrow> sched \<Rightarrow> (errno + unit) giro \<times> sched" where
  "seg_sospendi_giro self s =
     (let p = g_proc s ! self in
      if seg_pendenti p AND NOT (seg_bloccati p) = 0 \<and> \<not> interrotto p
      then (Dormi, sched_block PROC_BLOCKED (proc_upd self (\<lambda>p. p\<lparr>block_until := 0\<rparr>) s))
      else (Ritorna (Inl EINTR), s))"

section \<open>Alarms\<close>

definition ms_in_tick :: "u32 \<Rightarrow> u32" where
  "ms_in_tick ms = (let t = (ms + 9) div 10 in if t \<noteq> 0 then t else 1)"

definition riarma :: "u32 \<Rightarrow> process \<Rightarrow> process" where
  "riarma ora p =
     (if allarme_passo p \<noteq> 0 then
        (let t1 = allarme_tick p + allarme_passo p;
             t2 = (if sint (ora - t1) \<ge> 0 then ora + allarme_passo p else t1)
         in p\<lparr>allarme_tick := (if t2 = 0 then 1 else t2)\<rparr>)
      else p\<lparr>allarme_tick := 0\<rparr>)"

definition allarme_posto :: "nat \<Rightarrow> u32 \<times> u32 \<times> sched \<Rightarrow> u32 \<times> u32 \<times> sched" where
  "allarme_posto k = (\<lambda>(prossimo, armati, s).
     (let p = g_proc s ! k; ora = g_ticks s in
      if allarme_tick p = 0 then (prossimo, armati, s)
      else if state p = PROC_UNUSED \<or> state p = PROC_ZOMBIE
           then (prossimo, armati, proc_upd k (\<lambda>p. p\<lparr>allarme_tick := 0\<rparr>) s)
      else
        (let s1 = (if sint (ora - allarme_tick p) \<ge> 0
                   then segnali_manda_locked k SIGALRM (proc_upd k (riarma ora) s) else s);
             t = allarme_tick (g_proc s1 ! k)
         in if t \<noteq> 0
            then (if prossimo = 0 \<or> sint (t - prossimo) < 0 then t else prossimo, armati + 1, s1)
            else (prossimo, armati, s1))))"

definition segnali_allarmi_tick :: "sched \<Rightarrow> sched" where
  "segnali_allarmi_tick s =
     (if g_allarmi_armati s = 0 \<or> sint (g_ticks s - g_allarme_prossimo s) < 0 then s
      else (case fold allarme_posto [0..<length (g_proc s)] (0, 0, s) of
              (prossimo, armati, s1) \<Rightarrow> s1\<lparr>g_allarme_prossimo := prossimo, g_allarmi_armati := armati\<rparr>))"

text \<open>\<^verbatim>\<open>SYS_ALLARME\<close>: the milliseconds left and the old interval are returned when the caller asked for them.\<close>

definition sys_allarme :: "u32 \<Rightarrow> u32 \<Rightarrow> unit uptr \<Rightarrow> sched \<Rightarrow> (errno + (u32 \<times> u32) option) \<times> sched" where
  "sys_allarme ms passo prima s =
     (case proc_get_current s of None \<Rightarrow> (Inl ESRCH, s)
      | Some self \<Rightarrow>
          if prima = Fuori then (Inl EFAULT, s)
          else
            (let c = capo_di self s; capo = g_proc s ! c;
                 resta = allarme_tick capo - g_ticks s;
                 vecchio = (if allarme_tick capo \<noteq> 0
                            then (if sint resta > 0 then resta * 10 else 1, allarme_passo capo * 10) else (0, 0));
                 t0 = g_ticks s + ms_in_tick ms; t = (if t0 = 0 then 1 else t0);
                 s1 = (if ms = 0 then proc_upd c (\<lambda>p. p\<lparr>allarme_tick := 0, allarme_passo := 0\<rparr>) s
                       else (proc_upd c (\<lambda>p. p\<lparr>allarme_tick := t,
                                               allarme_passo := (if passo \<noteq> 0 then ms_in_tick passo else 0)\<rparr>) s)
                            \<lparr>g_allarme_prossimo := (if g_allarmi_armati s = 0 \<or> sint (t - g_allarme_prossimo s) < 0
                                                     then t else g_allarme_prossimo s),
                             g_allarmi_armati := g_allarmi_armati s + 1\<rparr>)
             in (Inr (if prima = Nullo then None else Some vecchio), s1)))"

section \<open>The timer interrupt\<close>

text \<open>The watchdog, the floppy motor and the frequency governor that the handler also calls touch none of this
  state.\<close>

definition sched_irq0_handler :: "sched \<Rightarrow> sched" where
  "sched_irq0_handler s =
     (let s1 = segnali_allarmi_tick (s\<lparr>g_ticks := g_ticks s + 1\<rparr>) in
      if g_sched_stopped s1 then s1
      else if g_current s1 = None then s1
      else sched_battito_comune (consuma_quanto (sveglia_scaduti s1)))"

section \<open>The scheduler keeps its invariant\<close>

lemma sched_ok_ticks:
  assumes "sched_ok s"
  shows "sched_ok (s\<lparr>g_ticks := t\<rparr>)" "sched_ok (s\<lparr>g_allarme_prossimo := x, g_allarmi_armati := y\<rparr>)"
proof -
  obtain q where q: "runq_rep s q" and l: "linked_ok s (\<lambda>i. i \<in> set (q (priority (g_proc s ! i))))"
    using sched_okD [OF assms] .
  have "nxt (s\<lparr>g_ticks := t\<rparr>) = nxt s" "prv (s\<lparr>g_ticks := t\<rparr>) = prv s"
    "nxt (s\<lparr>g_allarme_prossimo := x, g_allarmi_armati := y\<rparr>) = nxt s"
    "prv (s\<lparr>g_allarme_prossimo := x, g_allarmi_armati := y\<rparr>) = prv s"
    by (simp_all add: fun_eq_iff nxt_def prv_def)
  then have "runq_rep (s\<lparr>g_ticks := t\<rparr>) q" "runq_rep (s\<lparr>g_allarme_prossimo := x, g_allarmi_armati := y\<rparr>) q"
    by (auto intro!: runq_rep_cong [OF q])
  then show "sched_ok (s\<lparr>g_ticks := t\<rparr>)" "sched_ok (s\<lparr>g_allarme_prossimo := x, g_allarmi_armati := y\<rparr>)"
    using l by (auto intro!: sched_okI simp: linked_ok_def g_current_def)
qed

lemma sched_ok_sveglia_per: "sched_ok s \<Longrightarrow> sched_ok (sveglia_per i sig s)"
  by (simp add: sveglia_per_def Let_def sched_ok_unblock)

lemma sched_ok_pendente: "sched_ok s \<Longrightarrow> sched_ok (pendente i sig s)"
  unfolding pendente_def by (rule sched_ok_proc_upd) (auto simp: attivo_def)

lemma sched_ok_consegna_attesa:
  assumes "sched_ok s" shows "sched_ok (consegna_attesa q sig s)"
proof -
  have "sched_ok (proc_upd q (\<lambda>p. p\<lparr>seg_pendenti := seg_pendenti p OR BIT sig, seg_attesi := 0\<rparr>) s)"
    by (rule sched_ok_proc_upd [OF assms]) (auto simp: attivo_def)
  then show ?thesis by (simp add: consegna_attesa_def Let_def sched_ok_unblock)
qed

lemmas sched_ok_signals = sched_ok_sveglia_per sched_ok_pendente sched_ok_consegna_attesa sched_ok_interrompi

lemma sched_ok_manda_locked: "sched_ok s \<Longrightarrow> sched_ok (segnali_manda_locked i sig s)"
  by (simp add: segnali_manda_locked_def Let_def sched_ok_signals split: option.split)

lemma sched_ok_manda: "sched_ok s \<Longrightarrow> sched_ok (manda self i sig s)"
  by (simp add: manda_def Let_def sched_ok_signals split: option.split)

lemma sched_ok_figlio_finito: "sched_ok s \<Longrightarrow> sched_ok (segnali_figlio_finito k s)"
  by (simp add: segnali_figlio_finito_def Let_def sched_ok_signals sched_ok_unblock split: option.split)

lemma sched_ok_allarme_posto:
  assumes "sched_ok (snd (snd x))" shows "sched_ok (snd (snd (allarme_posto k x)))"
proof -
  obtain pr ar s where x: "x = (pr, ar, s)" by (metis prod_cases3)
  have s: "sched_ok s" using assms x by simp
  have "sched_ok (proc_upd k (\<lambda>p. p\<lparr>allarme_tick := 0\<rparr>) s)" "sched_ok (proc_upd k (riarma ora) s)" for ora
    by (rule sched_ok_proc_upd [OF s]; simp add: attivo_def riarma_def Let_def)+
  then show ?thesis using s sched_ok_manda_locked
    by (simp add: x allarme_posto_def Let_def)
qed

lemma sched_ok_allarmi_tick:
  assumes "sched_ok s" shows "sched_ok (segnali_allarmi_tick s)"
proof -
  have "sched_ok (snd (snd (fold allarme_posto ks (pr, ar, s))))" for ks pr ar
    using assms
  proof (induction ks rule: rev_induct)
    case (snoc k ks)
    then show ?case by (simp add: sched_ok_allarme_posto)
  qed simp
  from this [of "[0..<length (g_proc s)]" 0 0] show ?thesis using assms
    by (auto simp: segnali_allarmi_tick_def sched_ok_ticks split: prod.splits)
qed

lemma sched_ok_irq0: "sched_ok s \<Longrightarrow> sched_ok (sched_irq0_handler s)"
  by (simp add: sched_irq0_handler_def Let_def sched_ok_allarmi_tick sched_ok_ticks sched_ok_battito
      sched_ok_consuma sched_ok_sveglia)

text \<open>Everything that moves the scheduler: the calls of the running process, the wake-ups by pid, the signals,
  the timers, and the change of the processor that holds the kernel lock.\<close>

inductive kstep :: "sched \<Rightarrow> sched \<Rightarrow> bool" where
  yield: "kstep s (sched_yield s)"
| block: "g_current s = Some c \<Longrightarrow> c \<notin> set (g_ozio s) \<Longrightarrow> kstep s (sched_block r s)"
| sleep: "g_current s = Some c \<Longrightarrow> c \<notin> set (g_ozio s) \<Longrightarrow> kstep s (sched_sleep ms s)"
| unblock: "kstep s (sched_unblock_locked k s)"
| interrompi: "kstep s (snd (proc_interrompi_locked k s))"
| set_ready: "i < length (g_proc s) \<Longrightarrow> state (g_proc s ! i) = PROC_NASCENTE \<Longrightarrow> kstep s (proc_set_ready i s)"
| seg_manda: "kstep s (snd (sys_seg_manda k sig s))"
| figlio: "kstep s (segnali_figlio_finito k s)"
| tick: "kstep s (sched_irq0_handler s)"
| tick_cpu: "kstep s (sched_battito_cpu s)"
| cpu: "c < length (g_corrente s) \<Longrightarrow> c < length (g_ozio s) \<Longrightarrow> g_corrente s ! c = Some k \<Longrightarrow>
    k < length (g_proc s) \<Longrightarrow> kstep s (s\<lparr>g_cpu := c\<rparr>)"

lemma sched_ok_cpu:
  assumes ok: "sched_ok s" and c: "c < length (g_corrente s)" "c < length (g_ozio s)" "g_corrente s ! c = Some k"
    "k < length (g_proc s)"
  shows "sched_ok (s\<lparr>g_cpu := c\<rparr>)"
proof -
  obtain q where q: "runq_rep s q" and l: "linked_ok s (\<lambda>i. i \<in> set (q (priority (g_proc s ! i))))"
    using sched_okD [OF ok] .
  have "nxt (s\<lparr>g_cpu := c\<rparr>) = nxt s" "prv (s\<lparr>g_cpu := c\<rparr>) = prv s" by (simp_all add: fun_eq_iff nxt_def prv_def)
  then have "runq_rep (s\<lparr>g_cpu := c\<rparr>) q" by (intro runq_rep_cong [OF q]) simp_all
  then show ?thesis by (rule sched_okI) (use l c in \<open>simp add: linked_ok_def g_current_def\<close>)
qed

lemma sched_ok_sys_seg_manda: "sched_ok s \<Longrightarrow> sched_ok (snd (sys_seg_manda k sig s))"
  by (simp add: sys_seg_manda_def Let_def sched_ok_manda split: option.split)

lemma sched_ok_battito_cpu: "sched_ok s \<Longrightarrow> sched_ok (sched_battito_cpu s)"
  by (simp add: sched_battito_cpu_def sched_ok_battito sched_ok_consuma)

lemma kstep_ok: "kstep s s' \<Longrightarrow> sched_ok s \<Longrightarrow> sched_ok s'"
  by (induction rule: kstep.induct)
    (simp_all add: sched_ok_yield sched_ok_block sched_ok_sleep sched_ok_unblock sched_ok_interrompi sched_ok_set_ready
      sched_ok_sys_seg_manda sched_ok_figlio_finito sched_ok_irq0 sched_ok_battito_cpu sched_ok_cpu)

lemma ksteps_ok: "kstep\<^sup>*\<^sup>* s s' \<Longrightarrow> sched_ok s \<Longrightarrow> sched_ok s'"
  by (induction rule: rtranclp_induct) (auto intro: kstep_ok)

text \<open>C1. No ready process is ever lost, whatever the interleaving: from a well formed scheduler, after any
  sequence of the kernel's scheduling operations, the run queues are still lists, every process that is ready
  or running is in the queue of its own priority (the idle tasks apart), and a process that is blocked,
  sleeping, dying or not yet started is in none.\<close>

theorem ready_processes_are_queued:
  assumes "sched_ok s" "kstep\<^sup>*\<^sup>* s s'"
  shows "\<exists>q. runq_rep s' q \<and>
    (\<forall>i < length (g_proc s'). i \<notin> set (g_ozio s') \<longrightarrow>
       (i \<in> set (q (priority (g_proc s' ! i))) \<longleftrightarrow>
        state (g_proc s' ! i) = PROC_READY \<or> state (g_proc s' ! i) = PROC_RUNNING))"
proof -
  obtain q where "runq_rep s' q" "linked_ok s' (\<lambda>i. i \<in> set (q (priority (g_proc s' ! i))))"
    using sched_okD [OF ksteps_ok [OF assms(2,1)]] .
  then show ?thesis unfolding linked_ok_def attivo_def by blast
qed

theorem ready_processes_are_queued_witness:
  "\<exists>q. runq_rep (sched_yield (sched_irq0_handler sched_esempio)) q \<and>
    (\<forall>i < length (g_proc (sched_yield (sched_irq0_handler sched_esempio))).
       i \<notin> set (g_ozio (sched_yield (sched_irq0_handler sched_esempio))) \<longrightarrow>
       (i \<in> set (q (priority (g_proc (sched_yield (sched_irq0_handler sched_esempio)) ! i))) \<longleftrightarrow>
        state (g_proc (sched_yield (sched_irq0_handler sched_esempio)) ! i) = PROC_READY \<or>
        state (g_proc (sched_yield (sched_irq0_handler sched_esempio)) ! i) = PROC_RUNNING))"
proof -
  have "kstep\<^sup>*\<^sup>* sched_esempio (sched_yield (sched_irq0_handler sched_esempio))"
    by (rule rtranclp.rtrancl_into_rtrancl [OF r_into_rtranclp [of kstep]]) (rule kstep.tick, rule kstep.yield)
  from ready_processes_are_queued [OF sched_ok_esempio this] show ?thesis .
qed

section \<open>The signal a thread receives\<close>

lemma bit_BIT: "k < 32 \<Longrightarrow> bit (BIT s) k \<longleftrightarrow> k = s"
  by (auto simp: BIT_def bit_simps)

lemma and_BIT: "s < 32 \<Longrightarrow> w AND BIT s \<noteq> 0 \<longleftrightarrow> bit w s"
proof -
  assume s: "s < 32"
  have "w AND BIT s = 0 \<longleftrightarrow> (\<forall>k < 32. \<not> (bit w k \<and> k = s))"
    by (auto simp: bit_eq_iff bit_and_iff bit_BIT)
  then show ?thesis using s by auto
qed

text \<open>A signal a thread is going to notice: pending, not blocked, not ignored.\<close>

definition ricevibile :: "nat \<Rightarrow> sched \<Rightarrow> nat \<Rightarrow> bool" where
  "ricevibile i s sig \<longleftrightarrow> bit (seg_pendenti (g_proc s ! i)) sig \<and> \<not> bit (seg_bloccati (g_proc s ! i)) sig \<and>
     (sig = SIGKILL \<or>
      tipo_di i sig s \<noteq> SEG_IGNORA \<and> \<not> (tipo_di i sig s = SEG_PREDEFINITO \<and> predefinito_ignora sig))"

lemma capo_di_proc_upd:
  assumes "\<And>p. pid (f p) = pid p" "\<And>p. tgid (f p) = tgid p" "\<And>p. state (f p) = state p"
  shows "capo_di i (proc_upd j f s) = capo_di i s"
proof -
  have "pid (g_proc (proc_upd j f s) ! k) = pid (g_proc s ! k)" "tgid (g_proc (proc_upd j f s) ! k) = tgid (g_proc s ! k)"
    "state (g_proc (proc_upd j f s) ! k) = state (g_proc s ! k)" for k
    using assms by (simp_all add: proc_upd_nth)
  then show ?thesis unfolding capo_di_def proc_get_by_pid_def Let_def by simp
qed

lemma tipo_di_proc_upd:
  assumes "\<And>p. pid (f p) = pid p" "\<And>p. tgid (f p) = tgid p" "\<And>p. state (f p) = state p" "\<And>p. seg_flag (f p) = seg_flag p"
  shows "tipo_di i sig (proc_upd j f s) = tipo_di i sig s"
  using assms by (simp add: tipo_di_def capo_di_proc_upd proc_upd_nth)

lemma primo_segnale_find:
  "primo_segnale w = find (bit w) [1..<32]"
  unfolding primo_segnale_def by (rule find_cong) (auto simp: and_BIT)

lemma primo_segnale_None:
  assumes "\<not> bit w 0" "primo_segnale w = None"
  shows "w = 0"
proof (rule bit_word_eqI)
  fix k assume "k < LENGTH(32)"
  then show "bit w k = bit (0 :: u32) k" using assms
    by (cases "k = 0") (auto simp: primo_segnale_find find_None_iff)
qed

lemma ricevibile_cleared:
  assumes i: "i < length (g_proc s)" and sig: "sig < 32" and no: "\<not> ricevibile i s sig"
  shows "ricevibile i (proc_upd i (\<lambda>p. p\<lparr>seg_pendenti := seg_pendenti p AND NOT (BIT sig)\<rparr>) s) k = ricevibile i s k"
proof -
  let ?s = "proc_upd i (\<lambda>p. p\<lparr>seg_pendenti := seg_pendenti p AND NOT (BIT sig)\<rparr>) s"
  have p: "bit (seg_pendenti (g_proc s ! i) AND NOT (BIT sig)) k = (bit (seg_pendenti (g_proc s ! i)) k \<and> k \<noteq> sig)"
  proof (cases "k < 32")
    case True
    then show ?thesis by (simp add: bit_and_iff bit_not_iff bit_BIT)
  next
    case False
    then show ?thesis using bit_imp_le_length [of _ k] by fastforce
  qed
  have t: "tipo_di i k ?s = tipo_di i k s" by (rule tipo_di_proc_upd) simp_all
  have q: "seg_pendenti (g_proc ?s ! i) = seg_pendenti (g_proc s ! i) AND NOT (BIT sig)"
    "seg_bloccati (g_proc ?s ! i) = seg_bloccati (g_proc s ! i)" using i by (simp_all add: proc_upd_nth)
  show ?thesis using no unfolding ricevibile_def t q p by (cases "k = sig") simp_all
qed

lemma bits_cleared:
  fixes w :: u32
  assumes "bit w sig" "sig < 32"
  shows "card {k. k < 32 \<and> bit (w AND NOT (BIT sig)) k} < card {k. k < 32 \<and> bit w k}"
proof (rule psubset_card_mono)
  have "{k. k < 32 \<and> bit (w AND NOT (BIT sig)) k} = {k. k < 32 \<and> bit w k} - {sig}"
    by (auto simp: bit_and_iff bit_not_iff bit_BIT)
  then show "{k. k < 32 \<and> bit (w AND NOT (BIT sig)) k} \<subset> {k. k < 32 \<and> bit w k}" using assms by auto
qed simp

definition esito_segnale :: "(nat \<Rightarrow> bool) \<Rightarrow> nat \<Rightarrow> sched \<Rightarrow> consegna" where
  "esito_segnale pronta i s =
     (case find (ricevibile i s) [1..<32] of
        None \<Rightarrow> Prosegue
      | Some sig \<Rightarrow> if sig \<noteq> SIGKILL \<and> tipo_di i sig s = SEG_PRESO \<and> seg_ingresso (g_proc s ! capo_di i s) \<noteq> 0 \<and> pronta sig then Gestore sig else Muore sig)"

lemma consegna_loop_spec:
  assumes "i < length (g_proc s)" "\<not> bit (seg_pendenti (g_proc s ! i)) 0"
    "card {k. k < 32 \<and> bit (seg_pendenti (g_proc s ! i)) k} < n"
  shows "fst (consegna_loop n pronta i s) = esito_segnale pronta i s"
  using assms
proof (induction n arbitrary: s)
  case (Suc n)
  let ?p = "g_proc s ! i" let ?w = "seg_pendenti ?p AND NOT (seg_bloccati ?p)"
  have w: "bit ?w k \<longleftrightarrow> bit (seg_pendenti ?p) k \<and> \<not> bit (seg_bloccati ?p) k" for k
    by (auto simp: bit_and_iff bit_not_iff dest: bit_imp_le_length)
  have sub: "ricevibile i s k \<Longrightarrow> bit ?w k" for k by (simp add: w ricevibile_def)
  show ?case
  proof (cases "primo_segnale ?w")
    case None
    then have "?w = 0" using primo_segnale_None w Suc.prems(2) by blast
    moreover from this have "find (ricevibile i s) [1..<32] = None" using sub by (auto simp: find_None_iff)
    ultimately show ?thesis by (simp add: esito_segnale_def Let_def)
  next
    case (Some sig)
    then have f: "find (bit ?w) [1..<32] = Some sig" by (simp add: primo_segnale_find)
    have sig: "sig < 32" "bit ?w sig" using find_SomeD [OF f] by auto
    have nz: "?w \<noteq> 0" using sig(2) by auto
    define s1 where "s1 = proc_upd i (\<lambda>p. p\<lparr>seg_pendenti := seg_pendenti p AND NOT (BIT sig)\<rparr>) s"
    have t: "tipo_di i k s1 = tipo_di i k s" for k unfolding s1_def by (rule tipo_di_proc_upd) simp_all
    have step: "consegna_loop (Suc n) pronta i s =
      (let tipo = if sig = SIGKILL then SEG_PREDEFINITO else tipo_di i sig s in
       if tipo = SEG_IGNORA \<or> tipo = SEG_PREDEFINITO \<and> predefinito_ignora sig then consegna_loop n pronta i s1
       else if tipo \<noteq> SEG_PRESO then (Muore sig, s1)
       else (case costruisci pronta i sig s1 of Some s2 \<Rightarrow> (Gestore sig, s2) | None \<Rightarrow> (Muore sig, s1)))"
      using nz Some t [of sig] unfolding s1_def by (simp add: Let_def)
    have cs: "capo_di i s1 = capo_di i s" "seg_ingresso (g_proc s1 ! c) = seg_ingresso (g_proc s ! c)" for c
      unfolding s1_def by (rule capo_di_proc_upd) (simp_all add: proc_upd_nth)
    have c: "tipo_di i sig s = SEG_PRESO \<Longrightarrow>
        fst (case costruisci pronta i sig s1 of Some s2 \<Rightarrow> (Gestore sig, s2) | None \<Rightarrow> (Muore sig, s1)) =
        (if seg_ingresso (g_proc s ! capo_di i s) \<noteq> 0 \<and> pronta sig then Gestore sig else Muore sig)"
      using t [of sig] by (auto simp: costruisci_def tipo_di_def Let_def cs)
    have kill: "\<not> predefinito_ignora SIGKILL" by (simp add: predefinito_ignora_def)
    show ?thesis
    proof (cases "ricevibile i s sig")
      case True
      have "find (ricevibile i s) [1..<32] = Some sig" using f True sub
        by (auto simp: find_Some_iff)
      then show ?thesis using True kill c unfolding esito_segnale_def step Let_def ricevibile_def by auto
    next
      case False
      then have drop: "fst (consegna_loop (Suc n) pronta i s) = fst (consegna_loop n pronta i s1)"
        using sig(2) unfolding step Let_def ricevibile_def w by auto
      have p1: "seg_pendenti (g_proc s1 ! i) = seg_pendenti ?p AND NOT (BIT sig)" "length (g_proc s1) = length (g_proc s)"
        using Suc.prems(1) by (simp_all add: s1_def proc_upd_nth)
      have "card {k. k < 32 \<and> bit (seg_pendenti (g_proc s1 ! i)) k} < n"
        using bits_cleared [of "seg_pendenti ?p" sig] sig w Suc.prems(3) unfolding p1 by simp
      then have "fst (consegna_loop n pronta i s1) = esito_segnale pronta i s1"
        using Suc.prems by (intro Suc.IH) (simp_all add: p1 bit_and_iff)
      moreover have "ricevibile i s1 = ricevibile i s"
        using ricevibile_cleared [OF Suc.prems(1) sig(1) False] unfolding s1_def by (simp add: fun_eq_iff)
      then have "esito_segnale pronta i s1 = esito_segnale pronta i s" unfolding esito_segnale_def t cs by simp
      ultimately show ?thesis using drop by simp
    qed
  qed
qed simp

text \<open>Signal 0 does not exist: its bit is never pending. What a program cannot block is never blocked.\<close>

definition seg_ok :: "sched \<Rightarrow> bool" where
  "seg_ok s \<longleftrightarrow> (\<forall>i < length (g_proc s). \<not> bit (seg_pendenti (g_proc s ! i)) 0 \<and>
     seg_bloccati (g_proc s ! i) AND NON_BLOCCABILI = 0 \<and> seg_salvata (g_proc s ! i) AND NON_BLOCCABILI = 0)"

lemma seg_ok_current: "seg_ok s \<Longrightarrow> i < length (g_proc s) \<Longrightarrow> \<not> bit (seg_pendenti (g_proc s ! i)) 0"
  by (simp add: seg_ok_def)

lemma unblockable:
  assumes "seg_ok s" "i < length (g_proc s)"
  shows "seg_bloccati (g_proc s ! i) AND BIT SIGKILL = 0"
proof -
  have "seg_bloccati (g_proc s ! i) AND NON_BLOCCABILI = 0" using assms by (simp add: seg_ok_def)
  then have "\<not> bit (seg_bloccati (g_proc s ! i) AND NON_BLOCCABILI) SIGKILL" by simp
  then show ?thesis using and_BIT [of SIGKILL "seg_bloccati (g_proc s ! i)"]
    by (auto simp: NON_BLOCCABILI_def bit_and_iff bit_or_iff bit_BIT)
qed

lemma card_bits_le: "card {k. k < 32 \<and> bit w k} < 33"
proof -
  have "card {k. k < 32 \<and> bit w k} \<le> card {..<32::nat}" by (rule card_mono) auto
  then show ?thesis by simp
qed

text \<open>C3. Leaving the kernel, a thread receives the lowest-numbered signal that is pending, not blocked and not
  ignored, and only that one: its handler runs when there is one (the program has named its entry and the frame fits on the stack), otherwise the
  program dies of it. SIGKILL is never caught. When no such signal is pending the thread goes on. The loop ends
  within its bound and never leaves the table of the signals.\<close>

theorem segnali_consegna_lowest:
  assumes "seg_ok s" "g_current s = Some i" "i < length (g_proc s)"
  shows "fst (segnali_consegna pronta s) =
    (case find (ricevibile i s) [1..<32] of
       None \<Rightarrow> Prosegue
     | Some sig \<Rightarrow> if sig \<noteq> SIGKILL \<and> tipo_di i sig s = SEG_PRESO \<and> seg_ingresso (g_proc s ! capo_di i s) \<noteq> 0 \<and> pronta sig then Gestore sig else Muore sig)"
proof -
  have l: "fst (consegna_loop 33 pronta i s) = esito_segnale pronta i s"
    by (rule consegna_loop_spec [OF assms(3) seg_ok_current [OF assms(1,3)] card_bits_le])
  have "fst (segnali_consegna pronta s) = fst (consegna_loop 33 pronta i s)"
    using assms(2) by (auto simp: segnali_consegna_def proc_get_current_def split: prod.split consegna.split)
  then show ?thesis using l by (simp add: esito_segnale_def)
qed

text \<open>A thread with SIGCHLD ignored by default, SIGTERM caught and SIGKILL pending.\<close>

definition seg_esempio :: sched where
  "seg_esempio = proc_upd 0 (\<lambda>p. p\<lparr>seg_pendenti := BIT SIGCHLD OR BIT SIGTERM OR BIT SIGKILL,
     seg_bloccati := BIT 1\<rparr>) sched_esempio"

lemma seg_ok_esempio: "seg_ok seg_esempio"
proof -
  have lt: "i < length (g_proc seg_esempio) \<longleftrightarrow> i \<in> {0, 1, 2, 3}" for i
    by (auto simp: seg_esempio_def sched_esempio_def)
  show ?thesis unfolding seg_ok_def lt
    by (simp add: seg_esempio_def sched_esempio_def proc_upd_def proc_zero_def BIT_def NON_BLOCCABILI_def bit_simps)
qed

theorem segnali_consegna_lowest_witness:
  "fst (segnali_consegna (\<lambda>_. True) seg_esempio) = Muore SIGKILL"
proof -
  have g: "g_current seg_esempio = Some 0" "0 < length (g_proc seg_esempio)"
    by (simp_all add: seg_esempio_def sched_esempio_def g_current_def)
  have "find (ricevibile 0 seg_esempio) [1..<32] = Some SIGKILL"
    by (simp add: ricevibile_def seg_esempio_def sched_esempio_def proc_upd_def proc_zero_def BIT_def bit_simps upt_rec)
  then show ?thesis using segnali_consegna_lowest [OF seg_ok_esempio g, of "\<lambda>_. True"] by simp
qed

section \<open>SIGKILL\<close>

lemma pids_ok_proc_upd:
  assumes "pids_ok s" "\<And>p. pid (f p) = pid p" "\<And>p. (state (f p) = PROC_UNUSED) = (state p = PROC_UNUSED)"
  shows "pids_ok (proc_upd i f s)"
proof -
  have "pid (g_proc (proc_upd i f s) ! k) = pid (g_proc s ! k)"
    "(state (g_proc (proc_upd i f s) ! k) = PROC_UNUSED) = (state (g_proc s ! k) = PROC_UNUSED)" for k
    using assms(2,3) by (simp_all add: proc_upd_nth)
  then show ?thesis using assms(1) unfolding pids_ok_def proc_upd_simps by simp
qed

lemma proc_interrompi_effect:
  assumes ok: "sched_ok s" and u: "pids_ok s" and i: "i < length (g_proc s)" "state (g_proc s ! i) \<noteq> PROC_UNUSED"
  shows "let s' = snd (proc_interrompi_locked (pid (g_proc s ! i)) s) in
    interrotto (g_proc s' ! i) \<and> sched_ok s' \<and>
    state (g_proc s' ! i) = (if state (g_proc s ! i) = PROC_BLOCKED then PROC_READY else state (g_proc s ! i))"
proof -
  let ?k = "pid (g_proc s ! i)"
  define s1 where "s1 = proc_upd i (\<lambda>p. p\<lparr>interrotto := True\<rparr>) s"
  have g: "proc_get_by_pid ?k s = Some i" by (rule proc_get_by_pid_unique [OF u i])
  have u1: "pids_ok s1" unfolding s1_def by (rule pids_ok_proc_upd [OF u]) simp_all
  have s1: "length (g_proc s1) = length (g_proc s)" "pid (g_proc s1 ! i) = ?k"
    "state (g_proc s1 ! i) = state (g_proc s ! i)" "interrotto (g_proc s1 ! i)"
    using i by (simp_all add: s1_def proc_upd_nth)
  have ok': "sched_ok (snd (proc_interrompi_locked ?k s))" by (rule sched_ok_interrompi [OF ok])
  have step: "snd (proc_interrompi_locked ?k s) =
      (if state (g_proc s ! i) = PROC_BLOCKED then sched_unblock_locked ?k s1 else s1)"
    using g s1(3) by (simp add: proc_interrompi_locked_def Let_def s1_def)
  show ?thesis
  proof (cases "state (g_proc s ! i) = PROC_BLOCKED")
    case True
    have "sched_unblock_locked ?k s1 = runq_add i (proc_upd i (\<lambda>p. p\<lparr>block_until := 0, state := PROC_READY\<rparr>) s1)"
      using sched_unblock_blocked [OF u1, of i] s1 i True by simp
    then show ?thesis using ok' step True i s1 by (simp add: proc_upd_nth)
  next
    case False
    then show ?thesis using ok' step s1 by simp
  qed
qed

lemma pids_ok_esempio: "pids_ok sched_esempio"
proof -
  have lt: "i < length (g_proc sched_esempio) \<longleftrightarrow> i \<in> {0, 1, 2, 3}" for i by (auto simp: sched_esempio_def)
  show ?thesis unfolding pids_ok_def lt by (simp add: sched_esempio_def proc_zero_def)
qed

text \<open>C10. SIGKILL sent to another program always reaches it: whatever its handlers, its mask and its sleep, the
  target is marked interrupted, if it was blocked it is ready again, and the run queues are well formed (so it
  is in its queue).\<close>

theorem sigkill_reaches:
  assumes "sched_ok s" "pids_ok s" "seg_ok s" "i < length (g_proc s)" "state (g_proc s ! i) \<noteq> PROC_UNUSED"
    "tgid (g_proc s ! i) \<noteq> tgid (g_proc s ! self)"
  shows "interrotto (g_proc (manda self i SIGKILL s) ! i) \<and> sched_ok (manda self i SIGKILL s) \<and>
    state (g_proc (manda self i SIGKILL s) ! i) =
      (if state (g_proc s ! i) = PROC_BLOCKED then PROC_READY else state (g_proc s ! i))"
proof -
  have "seg_bloccati (g_proc s ! i) AND BIT SIGKILL = 0"
    by (rule unblockable [OF assms(3,4)])
  then have "manda self i SIGKILL s = snd (proc_interrompi_locked (pid (g_proc s ! i)) s)"
    using assms(6) by (simp add: manda_def Let_def predefinito_ignora_def)
  then show ?thesis using proc_interrompi_effect [OF assms(1,2,4,5)] by (simp add: Let_def)
qed

text \<open>The blocked process of the example, in a program of its own.\<close>

definition kill_esempio :: sched where
  "kill_esempio = proc_upd 3 (\<lambda>p. p\<lparr>tgid := 4, seg_flag := replicate 32 SEG_IGNORA\<rparr>) sched_esempio"

theorem sigkill_reaches_witness:
  "interrotto (g_proc (manda 1 3 SIGKILL kill_esempio) ! 3) \<and> sched_ok (manda 1 3 SIGKILL kill_esempio) \<and>
   state (g_proc (manda 1 3 SIGKILL kill_esempio) ! 3) = PROC_READY"
proof -
  have ok: "sched_ok kill_esempio" unfolding kill_esempio_def
    by (rule sched_ok_proc_upd [OF sched_ok_esempio]) (simp_all add: attivo_def)
  have lt: "i < length (g_proc kill_esempio) \<longleftrightarrow> i \<in> {0, 1, 2, 3}" for i
    by (auto simp: kill_esempio_def sched_esempio_def)
  have u: "pids_ok kill_esempio" unfolding pids_ok_def lt
    by (simp add: kill_esempio_def proc_upd_def sched_esempio_def proc_zero_def)
  have g: "seg_ok kill_esempio" unfolding seg_ok_def lt
    by (simp add: kill_esempio_def proc_upd_def sched_esempio_def proc_zero_def)
  have f: "3 < length (g_proc kill_esempio)" "state (g_proc kill_esempio ! 3) = PROC_BLOCKED"
    "tgid (g_proc kill_esempio ! 3) \<noteq> tgid (g_proc kill_esempio ! 1)"
    by (simp_all add: kill_esempio_def proc_upd_def sched_esempio_def proc_zero_def)
  show ?thesis using sigkill_reaches [OF ok u g f(1) _ f(3)] f(2) by simp
qed

section \<open>Masks\<close>

lemma and_not_blocked: "(m AND NOT NON_BLOCCABILI) AND NON_BLOCCABILI = (0 :: u32)"
  by (rule bit_word_eqI) (auto simp: bit_and_iff bit_not_iff)

lemma seg_ok_proc_upd:
  assumes "seg_ok s"
    "\<And>p. \<not> bit (seg_pendenti p) 0 \<Longrightarrow> seg_bloccati p AND NON_BLOCCABILI = 0 \<Longrightarrow> seg_salvata p AND NON_BLOCCABILI = 0 \<Longrightarrow>
      \<not> bit (seg_pendenti (f p)) 0 \<and> seg_bloccati (f p) AND NON_BLOCCABILI = 0 \<and> seg_salvata (f p) AND NON_BLOCCABILI = 0"
  shows "seg_ok (proc_upd i f s)"
  using assms unfolding seg_ok_def by (simp add: proc_upd_nth)

text \<open>The recorded actions: SIGKILL and SIGSTOP have the default one, whatever the other flags are, and no action asks for them to be
  blocked while its handler runs.\<close>

definition azione_ok :: "process \<Rightarrow> bool" where
  "azione_ok p \<longleftrightarrow> seg_flag p ! SIGKILL AND SEG_TIPO = SEG_PREDEFINITO \<and> seg_flag p ! SIGSTOP AND SEG_TIPO = SEG_PREDEFINITO \<and>
     (\<forall>m \<in> set (seg_maschera_az p). m AND NON_BLOCCABILI = 0)"

definition azioni_ok :: "sched \<Rightarrow> bool" where
  "azioni_ok s \<longleftrightarrow> (\<forall>i < length (g_proc s). azione_ok (g_proc s ! i))"

lemma azioni_ok_proc_upd:
  assumes "azioni_ok s" "\<And>p. azione_ok p \<Longrightarrow> azione_ok (f p)"
  shows "azioni_ok (proc_upd i f s)"
  using assms unfolding azioni_ok_def by (simp add: proc_upd_nth)

lemma azione_ok_cong: "azione_ok p \<Longrightarrow> seg_flag q = seg_flag p \<Longrightarrow> seg_maschera_az q = seg_maschera_az p \<Longrightarrow> azione_ok q"
  by (simp add: azione_ok_def)

lemma azione_ok_update:
  assumes "azione_ok p" "v AND SEG_TIPO = SEG_PREDEFINITO \<or> k \<noteq> SIGKILL \<and> k \<noteq> SIGSTOP" "m AND NON_BLOCCABILI = 0"
    "seg_flag q = (seg_flag p)[k := v]" "seg_maschera_az q = (seg_maschera_az p)[k := m]"
  shows "azione_ok q"
proof -
  have "(seg_flag p)[k := v] ! j AND SEG_TIPO = SEG_PREDEFINITO" if "seg_flag p ! j AND SEG_TIPO = SEG_PREDEFINITO" "j = SIGKILL \<or> j = SIGSTOP" for j
    using that assms(2) by (cases "k < length (seg_flag p)"; cases "j = k") (auto simp: list_update_beyond)
  moreover have "\<forall>x \<in> set ((seg_maschera_az p)[k := m]). x AND NON_BLOCCABILI = 0"
    using assms(1,3) set_update_subset_insert [of "seg_maschera_az p" k m] by (auto simp: azione_ok_def)
  ultimately show ?thesis using assms(1,4,5) by (simp add: azione_ok_def)
qed

lemma tipo_or: "(t OR (f AND NOT k)) AND k = t AND k" for t f k :: u32
  by (rule bit_word_eqI) (auto simp: bit_and_iff bit_or_iff bit_not_iff)

abbreviation difese :: "sched \<Rightarrow> bool" where
  "difese s \<equiv> seg_ok s \<and> azioni_ok s"

lemma difese_proc_upd:
  assumes "difese s"
    "\<And>p. \<not> bit (seg_pendenti p) 0 \<Longrightarrow> seg_bloccati p AND NON_BLOCCABILI = 0 \<Longrightarrow> seg_salvata p AND NON_BLOCCABILI = 0 \<Longrightarrow>
      \<not> bit (seg_pendenti (f p)) 0 \<and> seg_bloccati (f p) AND NON_BLOCCABILI = 0 \<and> seg_salvata (f p) AND NON_BLOCCABILI = 0"
    "\<And>p. azione_ok p \<Longrightarrow> azione_ok (f p)"
  shows "difese (proc_upd i f s)"
  using assms seg_ok_proc_upd azioni_ok_proc_upd by blast

lemma costruisci_difese: "difese s \<Longrightarrow> costruisci pronta i sig s = Some s' \<Longrightarrow> difese s'"
proof -
  assume d: "difese s" and c: "costruisci pronta i sig s = Some s'"
  have 1: "difese (proc_upd i (\<lambda>p. p\<lparr>seg_sospeso := False, seg_bloccati := (seg_bloccati p OR v) AND NOT NON_BLOCCABILI\<rparr>) s)" for v
    by (rule difese_proc_upd [OF d]) (auto simp: and_not_blocked elim: azione_ok_cong)
  have 2: "difese (proc_upd j (\<lambda>p. p\<lparr>seg_flag := (seg_flag p)[sig := SEG_PREDEFINITO], seg_maschera_az := (seg_maschera_az p)[sig := 0]\<rparr>) s1)"
    if "difese s1" for j s1
    by (rule difese_proc_upd [OF that]) (simp, rule azione_ok_update [where k = sig and v = SEG_PREDEFINITO and m = 0], simp_all)
  show "difese s'" using c 1 2 [OF 1] by (auto simp: costruisci_def Let_def or.assoc split: if_splits)
qed

lemma consegna_loop_difese: "difese s \<Longrightarrow> difese (snd (consegna_loop n pronta i s))"
proof (induction n arbitrary: s)
  case (Suc n)
  let ?w = "seg_pendenti (g_proc s ! i) AND NOT (seg_bloccati (g_proc s ! i))"
  show ?case
  proof (cases "?w = 0 \<or> primo_segnale ?w = None")
    case True
    then show ?thesis using Suc.prems by (auto simp: Let_def)
  next
    case False
    then obtain sig where sig: "primo_segnale ?w = Some sig" "?w \<noteq> 0" by auto
    define s1 where "s1 = proc_upd i (\<lambda>p. p\<lparr>seg_pendenti := seg_pendenti p AND NOT (BIT sig)\<rparr>) s"
    have d: "difese s1" unfolding s1_def
      by (rule difese_proc_upd [OF Suc.prems]) (auto simp: bit_and_iff elim: azione_ok_cong)
    have k: "difese (snd (case costruisci pronta i sig s1 of Some s2 \<Rightarrow> (Gestore sig, s2) | None \<Rightarrow> (Muore sig, s1)))"
      using costruisci_difese [OF d] d by (simp split: option.split)
    have "consegna_loop (Suc n) pronta i s =
      (let tipo = if sig = SIGKILL then SEG_PREDEFINITO else tipo_di i sig s1 in
       if tipo = SEG_IGNORA \<or> tipo = SEG_PREDEFINITO \<and> predefinito_ignora sig then consegna_loop n pronta i s1
       else if tipo \<noteq> SEG_PRESO then (Muore sig, s1)
       else (case costruisci pronta i sig s1 of Some s2 \<Rightarrow> (Gestore sig, s2) | None \<Rightarrow> (Muore sig, s1)))"
      using sig unfolding s1_def by (simp add: Let_def)
    then show ?thesis using d k Suc.IH [OF d] by (simp only: Let_def split: if_split) simp
  qed
qed simp

lemma segnali_consegna_difese:
  assumes "difese s"
  shows "difese (snd (segnali_consegna pronta s))"
proof -
  have r: "difese (proc_upd i (\<lambda>p. p\<lparr>seg_bloccati := seg_salvata p, seg_sospeso := False\<rparr>) s1)" if "difese s1" for i s1
    by (rule difese_proc_upd [OF that]) (auto elim: azione_ok_cong)
  show ?thesis
  proof (cases "proc_get_current s")
    case (Some i)
    obtain e s1 where c: "consegna_loop 33 pronta i s = (e, s1)" by fastforce
    then have "difese s1" using consegna_loop_difese [OF assms, of 33 pronta i] by simp
    then show ?thesis using r Some c by (cases e) (simp_all add: segnali_consegna_def)
  qed (use assms in \<open>simp add: segnali_consegna_def\<close>)
qed

lemma sys_seg_azione_difese:
  assumes "difese s"
  shows "difese (snd (snd (sys_seg_azione base fine sig az prima s)))"
proof -
  have "difese (proc_upd c (\<lambda>p. p\<lparr>
      seg_ingresso := (if az_tipo a = SEG_PRESO then az_ingresso a else seg_ingresso p),
      seg_flag := (seg_flag p)[k := az_tipo a OR (az_flag a AND NOT SEG_TIPO)],
      seg_maschera_az := (seg_maschera_az p)[k := az_maschera a AND NOT NON_BLOCCABILI]\<rparr>) s)"
    if "\<not> ((k = SIGKILL \<or> k = SIGSTOP) \<and> az_tipo a \<noteq> SEG_PREDEFINITO)" for k a c
  proof (rule difese_proc_upd [OF assms])
    fix p assume "azione_ok p"
    then show "azione_ok (p\<lparr>seg_ingresso := (if az_tipo a = SEG_PRESO then az_ingresso a else seg_ingresso p),
      seg_flag := (seg_flag p)[k := az_tipo a OR (az_flag a AND NOT SEG_TIPO)],
      seg_maschera_az := (seg_maschera_az p)[k := az_maschera a AND NOT NON_BLOCCABILI]\<rparr>)"
      by (rule azione_ok_update [where k = k and v = "az_tipo a OR (az_flag a AND NOT SEG_TIPO)" and m = "az_maschera a AND NOT NON_BLOCCABILI"])
        (use that tipo_or [of "az_tipo a" "az_flag a" SEG_TIPO] in \<open>auto simp: and_not_blocked simp del: not_numeral_eq\<close>)
  qed auto
  note u = conjunct1 [OF this] conjunct2 [OF this]
  show ?thesis using assms unfolding sys_seg_azione_def Let_def
    by (auto simp only: snd_conv split: option.split uptr.split if_split intro!: u)
qed

text \<open>C11. A program can neither block SIGKILL and SIGSTOP nor give them an action: whatever it passes to \<^verbatim>\<open>sigprocmask\<close>, \<^verbatim>\<open>sigsuspend\<close> and
  \<^verbatim>\<open>sigaction\<close>, in the flags too, and whatever signal or exception is delivered to it, no blocked mask and no mask of an action in the table
  contains the two, and their recorded action is the default one; a \<^verbatim>\<open>sigaction\<close> that asks for another one changes nothing.\<close>

theorem unblockable_stays:
  assumes "seg_ok s" "azioni_ok s"
  shows "difese (snd (sys_seg_maschera come nuova prima s)) \<and> difese (seg_sospendi_inizio self m s) \<and>
    difese (snd (snd (sys_seg_azione base fine sig az prima s))) \<and>
    difese (snd (segnali_consegna pronta s)) \<and> difese (snd (segnali_fault pronta sig s)) \<and>
    (nat sig = SIGKILL \<or> nat sig = SIGSTOP \<longrightarrow> az = Punta a \<longrightarrow> az_tipo a \<noteq> SEG_PREDEFINITO \<longrightarrow>
     snd (snd (sys_seg_azione base fine sig az prima s)) = s)"
proof -
  have d: "difese s" using assms by simp
  have "difese (proc_upd i (\<lambda>p. p\<lparr>seg_bloccati := v AND NOT NON_BLOCCABILI\<rparr>) s)" for i v
    by (rule difese_proc_upd [OF d]) (auto simp: and_not_blocked elim: azione_ok_cong)
  then have 1: "difese (snd (sys_seg_maschera come nuova prima s))" using d
    by (simp add: sys_seg_maschera_def Let_def split: option.split)
  have 2: "difese (seg_sospendi_inizio self m s)" unfolding seg_sospendi_inizio_def
    by (rule difese_proc_upd [OF d]) (auto simp: and_not_blocked elim: azione_ok_cong)
  have 3: "difese (snd (segnali_fault pronta sig s))" using d costruisci_difese [OF d]
    by (auto simp: segnali_fault_def split: option.split)
  have 4: "snd (snd (sys_seg_azione base fine sig az prima s)) = s"
    if "nat sig = SIGKILL \<or> nat sig = SIGSTOP" "az = Punta a" "az_tipo a \<noteq> SEG_PREDEFINITO"
    using that by (auto simp: sys_seg_azione_def Let_def split: option.split)
  show ?thesis using 1 2 3 4 sys_seg_azione_difese [OF d] segnali_consegna_difese [OF d] by blast
qed

lemma azioni_ok_esempio: "azioni_ok seg_esempio"
proof -
  have lt: "i < length (g_proc seg_esempio) \<longleftrightarrow> i \<in> {0, 1, 2, 3}" for i
    by (auto simp: seg_esempio_def sched_esempio_def)
  show ?thesis unfolding azioni_ok_def lt
    by (simp add: azione_ok_def seg_esempio_def sched_esempio_def proc_upd_def proc_zero_def)
qed

text \<open>The default action for SIGSTOP with the bits of a handler among the flags.\<close>

definition stop_preso :: seg_azione where
  "stop_preso = \<lparr>az_tipo = SEG_PREDEFINITO, az_flag = SEG_PRESO, az_maschera = 0xFFFFFFFF, az_ingresso = 0\<rparr>"

theorem unblockable_stays_witness:
  "difese (snd (sys_seg_maschera SIG_SETMASK (Punta 0xFFFFFFFF) Nullo seg_esempio)) \<and>
   seg_bloccati (g_proc (snd (sys_seg_maschera SIG_SETMASK (Punta 0xFFFFFFFF) Nullo seg_esempio)) ! 0) = 0xFFF7FDFF \<and>
   fst (sys_seg_azione 0 0 19 (Punta stop_preso) Nullo seg_esempio) = Inr () \<and>
   azioni_ok (snd (snd (sys_seg_azione 0 0 19 (Punta stop_preso) Nullo seg_esempio)))"
proof (intro conjI)
  show "seg_ok (snd (sys_seg_maschera SIG_SETMASK (Punta 0xFFFFFFFF) Nullo seg_esempio))"
    "azioni_ok (snd (sys_seg_maschera SIG_SETMASK (Punta 0xFFFFFFFF) Nullo seg_esempio))"
    "azioni_ok (snd (snd (sys_seg_azione 0 0 19 (Punta stop_preso) Nullo seg_esempio)))"
    using unblockable_stays [OF seg_ok_esempio azioni_ok_esempio] by blast+
  show "seg_bloccati (g_proc (snd (sys_seg_maschera SIG_SETMASK (Punta 0xFFFFFFFF) Nullo seg_esempio)) ! 0) = 0xFFF7FDFF"
    by (simp add: sys_seg_maschera_def seg_esempio_def sched_esempio_def proc_get_current_def g_current_def proc_upd_def
        NON_BLOCCABILI_def BIT_def Let_def)
  show "fst (sys_seg_azione 0 0 19 (Punta stop_preso) Nullo seg_esempio) = Inr ()"
    by (simp add: sys_seg_azione_def stop_preso_def seg_esempio_def sched_esempio_def proc_get_current_def g_current_def proc_upd_def Let_def)
qed

section \<open>Whom a scheduling step can block\<close>

text \<open>No step moves a process or changes its pid, and only the processes of \<open>C\<close> can become blocked.\<close>

definition blocks_only :: "nat set \<Rightarrow> sched \<Rightarrow> sched \<Rightarrow> bool" where
  "blocks_only C s s' \<longleftrightarrow> length (g_proc s') = length (g_proc s) \<and>
     (\<forall>i < length (g_proc s). pid (g_proc s' ! i) = pid (g_proc s ! i) \<and>
        (state (g_proc s' ! i) = PROC_UNUSED \<longleftrightarrow> state (g_proc s ! i) = PROC_UNUSED) \<and>
        (state (g_proc s' ! i) = PROC_BLOCKED \<longrightarrow> state (g_proc s ! i) = PROC_BLOCKED \<or> i \<in> C))"

lemma blocks_only_refl: "blocks_only C s s"
  by (simp add: blocks_only_def)

lemma blocks_only_trans: "blocks_only C s s' \<Longrightarrow> blocks_only C s' s'' \<Longrightarrow> blocks_only C s s''"
  unfolding blocks_only_def by auto

lemma blocks_only_cong: "g_proc s' = g_proc s \<Longrightarrow> blocks_only C s s'"
  by (simp add: blocks_only_def)

lemma blocks_only_proc_upd:
  assumes "\<And>p. pid (f p) = pid p" "\<And>p. (state (f p) = PROC_UNUSED) = (state p = PROC_UNUSED) \<or> p \<noteq> g_proc s ! i"
    "\<And>p. state (f p) = PROC_BLOCKED \<Longrightarrow> state p = PROC_BLOCKED \<or> i \<in> C"
  shows "blocks_only C s (proc_upd i f s)"
  using assms unfolding blocks_only_def by (auto simp: proc_upd_nth)

lemma blocks_only_runq_add: "blocks_only C s s' \<Longrightarrow> blocks_only C s (runq_add i s')"
  by (simp add: blocks_only_def)

lemma blocks_only_runq_remove: "blocks_only C s s' \<Longrightarrow> blocks_only C s (runq_remove i s')"
  by (simp add: blocks_only_def)

lemma blocks_only_wake:
  assumes "state (g_proc s ! i) \<noteq> PROC_UNUSED" "\<And>p. pid (f p) = pid p" "\<And>p. state (f p) = PROC_READY"
  shows "blocks_only C s (runq_add i (proc_upd i f s))"
  by (rule blocks_only_runq_add, rule blocks_only_proc_upd) (use assms in auto)

lemma blocks_only_unblock: "blocks_only C s (sched_unblock_locked k s)"
proof (cases "find (\<lambda>i. pid (g_proc s ! i) = k \<and>
    (state (g_proc s ! i) = PROC_NASCENTE \<or> state (g_proc s ! i) = PROC_BLOCKED)) [0..<length (g_proc s)]")
  case (Some i)
  then have "state (g_proc s ! i) \<noteq> PROC_UNUSED" using find_SomeD [OF Some] by auto
  then have "blocks_only C s (runq_add i (proc_upd i (\<lambda>p. p\<lparr>block_until := 0, state := PROC_READY\<rparr>) s))"
    by (rule blocks_only_wake) simp_all
  then show ?thesis using Some by (simp add: sched_unblock_locked_def blocks_only_refl)
qed (simp add: sched_unblock_locked_def blocks_only_refl)

lemma sched_pick_from_g_proc: "g_proc (snd (sched_pick_from prios s)) = g_proc s"
  by (induction prios) (auto split: option.split)

lemma blocks_only_pick_cong: "sched_pick_next s = (n, s') \<Longrightarrow> g_proc s' = g_proc s"
  using sched_pick_from_g_proc unfolding sched_pick_next_def by (metis snd_conv)

lemma blocks_only_switch:
  assumes "\<And>c. g_current s = Some c \<Longrightarrow> state (g_proc s ! c) \<noteq> PROC_UNUSED" "g_current s \<noteq> None"
    "state (g_proc s ! n) \<noteq> PROC_UNUSED"
  shows "blocks_only C s (sched_switch_to n s)"
proof (cases "g_current s = Some n")
  case False
  obtain c where c: "g_current s = Some c" using assms(2) by auto
  define s1 where "s1 = (if state (g_proc s ! c) = PROC_RUNNING
    then proc_upd c (\<lambda>p. p\<lparr>state := PROC_READY\<rparr>) s else s)"
  have 1: "blocks_only C s s1" unfolding s1_def using assms(1) [OF c]
    by (auto intro: blocks_only_proc_upd blocks_only_refl)
  have "state (g_proc s1 ! n) \<noteq> PROC_UNUSED" using assms(3) by (auto simp: s1_def proc_upd_nth)
  then have 2: "blocks_only C s1 (proc_upd n (\<lambda>p. p\<lparr>state := PROC_RUNNING, quantum := quantum_total p, cpu := g_cpu s\<rparr>) s1)"
    by (intro blocks_only_proc_upd) auto
  show ?thesis using False blocks_only_trans [OF blocks_only_trans [OF 1 2] blocks_only_cong]
    unfolding sched_switch_to_def Let_def c option.sel s1_def [symmetric] by simp
qed (simp add: sched_switch_to_def blocks_only_refl)

lemma attivo_used: "attivo p \<Longrightarrow> state p \<noteq> PROC_UNUSED"
  by (auto simp: attivo_def)

text \<open>The state of the running process: the tasks of the processors are never free slots.\<close>

definition cur_used :: "sched \<Rightarrow> bool" where
  "cur_used s \<longleftrightarrow> (\<exists>c. g_current s = Some c \<and> state (g_proc s ! c) \<noteq> PROC_UNUSED)"

lemma blocks_only_pick_switch:
  assumes ok: "sched_ok s" and cur: "cur_used s"
  shows "blocks_only C s (case sched_pick_next s of (n, s1) \<Rightarrow> sched_switch_to n s1)"
    "blocks_only C s (case sched_pick_next s of (n, s1) \<Rightarrow> if n \<noteq> c then sched_switch_to n s1 else s1)"
proof -
  obtain n s1 where p: "sched_pick_next s = (n, s1)" by (cases "sched_pick_next s")
  note ok1 = sched_ok_pick [OF ok p]
  have "blocks_only C s s1" using ok1 by (simp add: blocks_only_cong)
  moreover have "blocks_only C s1 (sched_switch_to n s1)"
    by (rule blocks_only_switch) (use ok1 cur in \<open>auto simp: cur_used_def attivo_used\<close>)
  ultimately show "blocks_only C s (case sched_pick_next s of (n, s1) \<Rightarrow> sched_switch_to n s1)"
    "blocks_only C s (case sched_pick_next s of (n, s1) \<Rightarrow> if n \<noteq> c then sched_switch_to n s1 else s1)"
    using blocks_only_trans by (auto simp: p)
qed

lemma blocks_only_block:
  assumes ok: "sched_ok s" and c: "g_current s = Some c" "c \<notin> set (g_ozio s)" "state (g_proc s ! c) \<noteq> PROC_UNUSED"
  shows "blocks_only {c} s (sched_block r s)"
proof -
  define s1 where "s1 = (if r = PROC_BLOCKED \<or> r = PROC_SLEEPING
    then runq_remove c (proc_upd c (\<lambda>p. p\<lparr>state := r\<rparr>) s) else s)"
  have cl: "c < length (g_proc s)" by (rule sched_ok_currentD [OF ok c(1)])
  have "sched_ok s1" unfolding s1_def using ok c(2) cl by (auto intro!: sched_ok_stop)
  moreover have "cur_used s1" using c cl by (auto simp: s1_def cur_used_def proc_upd_nth)
  ultimately have "blocks_only {c} s1 (case sched_pick_next s1 of (n, s1) \<Rightarrow> sched_switch_to n s1)"
    by (rule blocks_only_pick_switch)
  moreover have "blocks_only {c} s s1" unfolding s1_def using c(3)
    by (auto intro!: blocks_only_runq_remove blocks_only_proc_upd blocks_only_refl)
  ultimately show ?thesis using blocks_only_trans
    unfolding sched_block_def Let_def c option.sel s1_def [symmetric] by blast
qed

lemma blocks_only_same_state:
  assumes "\<And>p. pid (f p) = pid p" "\<And>p. state (f p) = state p"
  shows "blocks_only C s (proc_upd i f s)"
  by (rule blocks_only_proc_upd) (simp_all add: assms)

lemma cur_used_proc_upd:
  assumes "cur_used s" "\<And>p. state (f p) = state p"
  shows "cur_used (proc_upd i f s)"
  using assms by (auto simp: cur_used_def proc_upd_nth g_current_def)

lemma blocks_only_yield:
  assumes ok: "sched_ok s" and cur: "cur_used s"
  shows "blocks_only C s (sched_yield s)"
proof -
  define s0 where "s0 = proc_upd (the (g_current s)) (\<lambda>p. p\<lparr>quantum := 0\<rparr>) s"
  have "sched_ok s0" unfolding s0_def by (rule sched_ok_proc_upd [OF ok]) (auto simp: attivo_def)
  moreover have "cur_used s0" unfolding s0_def by (rule cur_used_proc_upd [OF cur]) simp
  moreover have "blocks_only C s s0" unfolding s0_def by (rule blocks_only_same_state) simp_all
  ultimately show ?thesis unfolding sched_yield_def Let_def s0_def [symmetric]
    using blocks_only_trans blocks_only_pick_switch(2) by blast
qed

lemma blocks_only_interrompi: "blocks_only C s (snd (proc_interrompi_locked k s))"
proof -
  have "blocks_only C s (proc_upd i (\<lambda>p. p\<lparr>interrotto := True\<rparr>) s)" for i by (rule blocks_only_same_state) simp_all
  then show ?thesis using blocks_only_trans [OF _ blocks_only_unblock]
    by (auto simp: proc_interrompi_locked_def Let_def blocks_only_refl split: option.split)
qed

lemma blocks_only_pendente: "blocks_only C s (pendente i sig s)"
  unfolding pendente_def by (rule blocks_only_same_state) simp_all

lemma blocks_only_sveglia_per: "blocks_only C s s' \<Longrightarrow> blocks_only C s (sveglia_per i sig s')"
  using blocks_only_trans [OF _ blocks_only_unblock] by (simp add: sveglia_per_def Let_def)

lemma blocks_only_consegna_attesa: "blocks_only C s (consegna_attesa q sig s)"
proof -
  have "blocks_only C s (proc_upd q (\<lambda>p. p\<lparr>seg_pendenti := seg_pendenti p OR BIT sig, seg_attesi := 0\<rparr>) s)"
    by (rule blocks_only_same_state) simp_all
  then show ?thesis using blocks_only_trans [OF _ blocks_only_unblock]
    by (simp add: consegna_attesa_def Let_def)
qed

lemmas blocks_only_signals = blocks_only_refl blocks_only_interrompi blocks_only_pendente blocks_only_consegna_attesa
  blocks_only_sveglia_per

lemma blocks_only_manda_locked: "blocks_only C s (segnali_manda_locked i sig s)"
  by (simp add: segnali_manda_locked_def Let_def blocks_only_signals split: option.split)

lemma blocks_only_sys_seg_manda: "blocks_only C s (snd (sys_seg_manda k sig s))"
  by (simp add: sys_seg_manda_def manda_def Let_def blocks_only_signals split: option.split)

lemma blocks_only_figlio: "blocks_only C s (segnali_figlio_finito k s)"
  using blocks_only_trans [OF blocks_only_pendente blocks_only_unblock]
  by (simp add: segnali_figlio_finito_def Let_def blocks_only_signals split: option.split)

lemma blocks_only_allarme_posto: "blocks_only C (snd (snd x)) (snd (snd (allarme_posto k x)))"
proof -
  obtain pr ar s where x: "x = (pr, ar, s)" by (metis prod_cases3)
  have "blocks_only C s (proc_upd k (\<lambda>p. p\<lparr>allarme_tick := 0\<rparr>) s)" by (rule blocks_only_same_state) simp_all
  moreover have "blocks_only C s (proc_upd k (riarma (g_ticks s)) s)"
    by (rule blocks_only_same_state) (simp_all add: riarma_def Let_def)
  ultimately show ?thesis using blocks_only_trans [OF _ blocks_only_manda_locked]
    by (simp add: x allarme_posto_def Let_def blocks_only_refl)
qed

lemma blocks_only_allarmi_fold: "blocks_only C (snd (snd x)) (snd (snd (fold allarme_posto ks x)))"
proof (induction ks arbitrary: x)
  case (Cons k ks)
  show ?case using blocks_only_trans [OF blocks_only_allarme_posto Cons.IH] by simp
qed (simp add: blocks_only_refl)

lemma blocks_only_allarmi_tick: "blocks_only C s (segnali_allarmi_tick s)"
proof -
  obtain pr ar s1 where f: "fold allarme_posto [0..<length (g_proc s)] (0, 0, s) = (pr, ar, s1)" by (metis prod_cases3)
  have "blocks_only C s s1" using blocks_only_allarmi_fold [of C "(0, 0, s)" "[0..<length (g_proc s)]"] f by simp
  then have "blocks_only C s (s1\<lparr>g_allarme_prossimo := pr, g_allarmi_armati := ar\<rparr>)" by (simp add: blocks_only_def)
  then show ?thesis using f by (simp add: segnali_allarmi_tick_def blocks_only_refl)
qed

lemma unblock_current [simp]: "g_current (sched_unblock_locked k s) = g_current s"
  by (simp add: sched_unblock_locked_def g_current_def split: option.split)

lemma interrompi_current [simp]: "g_current (snd (proc_interrompi_locked k s)) = g_current s"
  by (auto simp: proc_interrompi_locked_def Let_def g_current_def sched_unblock_locked_def split: option.split)

lemma proc_upd_current [simp]: "g_current (proc_upd i f s) = g_current s"
  by (simp add: g_current_def)

lemma signals_current [simp]:
  "g_current (pendente i sig s) = g_current s" "g_current (sveglia_per i sig s) = g_current s"
  "g_current (consegna_attesa q sig s) = g_current s"
  by (simp_all add: pendente_def sveglia_per_def consegna_attesa_def Let_def)

lemma manda_locked_current [simp]: "g_current (segnali_manda_locked i sig s) = g_current s"
  by (simp add: segnali_manda_locked_def Let_def split: option.split)

lemma allarme_posto_current: "g_current (snd (snd (allarme_posto k x))) = g_current (snd (snd x))"
proof -
  obtain pr ar s where x: "x = (pr, ar, s)" by (metis prod_cases3)
  show ?thesis by (simp add: x allarme_posto_def Let_def)
qed

lemma allarmi_tick_current: "g_current (segnali_allarmi_tick s) = g_current s"
proof -
  have f: "g_current (snd (snd (fold allarme_posto ks x))) = g_current (snd (snd x))" for ks x
    by (induction ks arbitrary: x) (simp_all add: allarme_posto_current)
  have g: "g_current (s\<lparr>g_allarme_prossimo := a, g_allarmi_armati := b\<rparr>) = g_current s" for s a b
    by (simp add: g_current_def)
  obtain pr ar s1 where p: "fold allarme_posto [0..<length (g_proc s)] (0, 0, s) = (pr, ar, s1)" by (metis prod_cases3)
  then show ?thesis using f [of "[0..<length (g_proc s)]" "(0, 0, s)"] by (simp add: segnali_allarmi_tick_def g)
qed

lemma cur_used_blocks_only:
  assumes "cur_used s" "blocks_only C s s'" "sched_ok s" "g_current s' = g_current s"
  shows "cur_used s'"
proof -
  obtain c where c: "g_current s = Some c" "state (g_proc s ! c) \<noteq> PROC_UNUSED" using assms(1) by (auto simp: cur_used_def)
  then have "state (g_proc s' ! c) \<noteq> PROC_UNUSED"
    using assms(2) sched_ok_currentD [OF assms(3) c(1)] by (simp add: blocks_only_def)
  then show ?thesis using c assms(4) by (simp add: cur_used_def)
qed

lemma blocks_only_sveglia_posto: "blocks_only C s (sveglia_posto i s) \<and> g_current (sveglia_posto i s) = g_current s"
proof -
  define s1 where "s1 = (if state (g_proc s ! i) = PROC_SLEEPING \<and> g_ticks s \<ge> sleep_until (g_proc s ! i)
    then runq_add i (proc_upd i (\<lambda>p. p\<lparr>state := PROC_READY\<rparr>) s) else s)"
  have s1: "blocks_only C s s1" unfolding s1_def by (auto intro!: blocks_only_wake blocks_only_refl)
  have "blocks_only C s1 (runq_add i (proc_upd i (\<lambda>p. p\<lparr>block_until := 0, state := PROC_READY\<rparr>) s1))"
    if "state (g_proc s1 ! i) = PROC_BLOCKED" by (rule blocks_only_wake) (use that in simp_all)
  then have "blocks_only C s (sveglia_posto i s)"
    unfolding sveglia_posto_def Let_def s1_def [symmetric] using s1 blocks_only_trans by auto
  moreover have "g_current (sveglia_posto i s) = g_current s"
    by (simp add: sveglia_posto_def Let_def)
  ultimately show ?thesis ..
qed

lemma blocks_only_sveglia: "blocks_only C s (sveglia_scaduti s) \<and> g_current (sveglia_scaduti s) = g_current s"
proof -
  have "blocks_only C s (fold sveglia_posto ks s) \<and> g_current (fold sveglia_posto ks s) = g_current s" for ks
  proof (induction ks arbitrary: s)
    case (Cons k ks)
    have "blocks_only C s (fold sveglia_posto (k # ks) s)"
      using blocks_only_trans blocks_only_sveglia_posto Cons.IH by (metis fold_simps(2))
    then show ?case using Cons.IH blocks_only_sveglia_posto [of C s k] by simp
  qed (simp add: blocks_only_refl)
  then show ?thesis by (simp add: sveglia_scaduti_def)
qed

lemma blocks_only_battito:
  assumes ok: "sched_ok s" and cur: "cur_used s"
  shows "blocks_only C s (sched_battito_comune s)"
proof -
  obtain n s1 where p: "sched_pick_next s = (n, s1)" by (cases "sched_pick_next s")
  note ok1 = sched_ok_pick [OF ok p] and sw = blocks_only_pick_switch [OF ok cur, of C, unfolded p]
  have "blocks_only C s s1" using ok1 by (simp add: blocks_only_cong)
  then have "blocks_only C s (proc_upd c (\<lambda>p. p\<lparr>quantum := quantum_total p\<rparr>) s1)" for c
    by (rule blocks_only_trans) (rule blocks_only_same_state, simp_all)
  then show ?thesis using sw \<open>blocks_only C s s1\<close>
    by (auto simp: sched_battito_comune_def Let_def p blocks_only_refl)
qed

lemma blocks_only_consuma: "blocks_only C s (consuma_quanto s) \<and> g_current (consuma_quanto s) = g_current s"
  unfolding consuma_quanto_def by (simp add: blocks_only_same_state)

lemma blocks_only_tick:
  assumes "sched_ok s" "cur_used s"
  shows "blocks_only C s (sched_battito_comune (consuma_quanto s))"
  using assms blocks_only_trans blocks_only_consuma blocks_only_battito sched_ok_consuma cur_used_blocks_only by metis

lemma blocks_only_irq0:
  assumes ok: "sched_ok s" and cur: "cur_used s"
  shows "blocks_only C s (sched_irq0_handler s)"
proof -
  define s0 where "s0 = s\<lparr>g_ticks := g_ticks s + 1\<rparr>"
  define s1 where "s1 = segnali_allarmi_tick s0"
  have 0: "blocks_only C s s0" "sched_ok s0" "cur_used s0"
    using cur by (simp_all add: s0_def blocks_only_def sched_ok_ticks [OF ok] cur_used_def g_current_def)
  have 1: "blocks_only C s0 s1" "sched_ok s1" "cur_used s1"
    using 0 cur_used_blocks_only [OF 0(3) blocks_only_allarmi_tick [of C] 0(2) allarmi_tick_current]
    by (simp_all add: s1_def blocks_only_allarmi_tick sched_ok_allarmi_tick)
  have 2: "blocks_only C s1 (sveglia_scaduti s1)" "cur_used (sveglia_scaduti s1)"
    using blocks_only_sveglia cur_used_blocks_only [OF 1(3) _ 1(2)] by blast+
  have "blocks_only C s1 (sched_battito_comune (consuma_quanto (sveglia_scaduti s1)))"
    using blocks_only_trans [OF 2(1) blocks_only_tick] 1(2) 2(2) sched_ok_sveglia by blast
  moreover have "blocks_only C s s1" using blocks_only_trans [OF 0(1) 1(1)] .
  ultimately show ?thesis using blocks_only_trans
    unfolding sched_irq0_handler_def Let_def s0_def [symmetric] s1_def [symmetric] by auto
qed

lemma kstep_blocks_only:
  assumes "kstep s s'" "sched_ok s" "cur_used s"
  shows "blocks_only {c. g_current s = Some c} s s'"
  using assms
proof (cases rule: kstep.cases)
  case (block c r)
  then show ?thesis using blocks_only_block [OF assms(2), of c r] assms(3) by (simp add: cur_used_def)
next
  case (sleep c ms)
  define t where "t = (if (ms + 9) div 10 = 0 then 1 else (ms + 9) div 10)"
  let ?s = "proc_upd c (\<lambda>p. p\<lparr>sleep_until := g_ticks s + t\<rparr>) s"
  have "blocks_only {c} ?s (sched_block PROC_SLEEPING ?s)"
    by (rule blocks_only_block, rule sched_ok_proc_upd [OF assms(2)])
      (use sleep assms(3) in \<open>auto simp: attivo_def cur_used_def proc_upd_nth\<close>)
  moreover have "blocks_only {c} s ?s" by (rule blocks_only_same_state) simp_all
  ultimately have "blocks_only {c} s (sched_block PROC_SLEEPING ?s)" by (rule blocks_only_trans [rotated])
  then show ?thesis using sleep by (simp add: sched_sleep_def Let_def t_def)
next
  case (set_ready i)
  have twice: "proc_upd i g (proc_upd i f s) = proc_upd i (\<lambda>p. g (f p)) s" for f g
    using set_ready by (simp add: proc_upd_def)
  show ?thesis unfolding set_ready(1)
    by (auto simp: proc_set_ready_def Let_def set_ready twice intro!: blocks_only_wake)
next
  case (cpu c k)
  then show ?thesis by (simp add: blocks_only_def)
next
  case tick_cpu
  then show ?thesis using blocks_only_tick [OF assms(2,3)] by (simp add: sched_battito_cpu_def blocks_only_refl)
qed (simp_all add: blocks_only_yield blocks_only_unblock blocks_only_interrompi blocks_only_sys_seg_manda blocks_only_figlio
    blocks_only_irq0)

end
