(* ===== verification/Attese.thy ===== *)
theory Attese
  imports Segnali
begin

text \<open>
  Who sleeps waiting on an object (\<^verbatim>\<open>kernel/include/attese.h\<close>): the first waiter inline, the others in an
  array that grows. The interface \<open>waiter_set\<close> is what the pipes and the pseudo terminals rely on, and it is
  interpreted here on the model of the header.
\<close>

section \<open>The structure\<close>

text \<open>\<^verbatim>\<open>posti\<close>, the room of the array \<^verbatim>\<open>altri\<close>, is the length of its list.\<close>

record attese =
  uno :: u32
  altri :: "u32 list"
  n_altri :: nat

definition posti :: "attese \<Rightarrow> nat" where
  "posti a = length (altri a)"

definition attese_c_e :: "attese \<Rightarrow> u32 \<Rightarrow> bool" where
  "attese_c_e a k \<longleftrightarrow> uno a = k \<or> k \<in> set (take (n_altri a) (altri a))"

definition attese_metti :: "attese \<Rightarrow> u32 \<Rightarrow> bool \<times> attese" where
  "attese_metti a k =
     (if attese_c_e a k then (True, a)
      else if uno a = 0 then (True, a\<lparr>uno := k\<rparr>)
      else if n_altri a \<ge> posti a then (False, a)
      else (True, a\<lparr>altri := (altri a)[n_altri a := k], n_altri := n_altri a + 1\<rparr>))"

fun indice_di :: "u32 \<Rightarrow> u32 list \<Rightarrow> nat option" where
  "indice_di k [] = None"
| "indice_di k (x # xs) = (if x = k then Some 0 else map_option Suc (indice_di k xs))"

definition attese_togli :: "attese \<Rightarrow> u32 \<Rightarrow> attese" where
  "attese_togli a k =
     (if uno a = k then
        (if n_altri a \<noteq> 0 then a\<lparr>uno := altri a ! (n_altri a - 1), n_altri := n_altri a - 1\<rparr> else a\<lparr>uno := 0\<rparr>)
      else (case indice_di k (take (n_altri a) (altri a)) of
              None \<Rightarrow> a
            | Some i \<Rightarrow> a\<lparr>altri := (altri a)[i := altri a ! (n_altri a - 1)], n_altri := n_altri a - 1\<rparr>))"

definition attese_sveglia_locked :: "attese \<Rightarrow> sched \<Rightarrow> attese \<times> sched" where
  "attese_sveglia_locked a s =
     (a\<lparr>uno := 0, n_altri := 0\<rparr>,
      fold sched_unblock_locked (take (n_altri a) (altri a)) (if uno a \<noteq> 0 then sched_unblock_locked (uno a) s else s))"

text \<open>\<^verbatim>\<open>attese_cresci\<close> has two critical sections: the first reads the room, the second installs the new
  array of \<^verbatim>\<open>posti\<close> places (its content \<open>nuovo\<close> is what the allocator gives) unless another process grew it
  meanwhile.\<close>

definition attese_cresci_posti :: "attese \<Rightarrow> nat" where
  "attese_cresci_posti a = (if posti a \<noteq> 0 then posti a * 2 else 8)"

definition attese_cresci_metti :: "u32 list \<Rightarrow> attese \<Rightarrow> attese" where
  "attese_cresci_metti nuovo a =
     (if posti a < length nuovo
      then a\<lparr>altri := take (n_altri a) (altri a) @ drop (n_altri a) nuovo\<rparr> else a)"

definition attese_cresci :: "u32 list option \<Rightarrow> attese \<Rightarrow> bool \<times> attese" where
  "attese_cresci kmalloc a =
     (case kmalloc of None \<Rightarrow> (False, a) | Some nuovo \<Rightarrow> (True, attese_cresci_metti nuovo a))"

definition attese_rimetti :: "attese \<Rightarrow> attese \<Rightarrow> attese" where
  "attese_rimetti a salva = \<lparr>uno = 0, altri = altri salva, n_altri = 0\<rparr>"

section \<open>The waiters\<close>

definition waiters :: "attese \<Rightarrow> u32 set" where
  "waiters a = (if uno a = 0 then {} else insert (uno a) (set (take (n_altri a) (altri a))))"

definition att_ok :: "attese \<Rightarrow> bool" where
  "att_ok a \<longleftrightarrow> n_altri a \<le> length (altri a) \<and> (uno a = 0 \<longrightarrow> n_altri a = 0) \<and>
     distinct (uno a # take (n_altri a) (altri a)) \<and> 0 \<notin> set (take (n_altri a) (altri a))"

lemma indice_di_None: "indice_di k xs = None \<longleftrightarrow> k \<notin> set xs"
  by (induction xs) auto

lemma indice_di_Some: "indice_di k xs = Some i \<Longrightarrow> i < length xs \<and> xs ! i = k"
  by (induction xs arbitrary: i) (auto split: if_splits)

lemma attese_c_e_waiters: "att_ok a \<Longrightarrow> k \<noteq> 0 \<Longrightarrow> attese_c_e a k \<longleftrightarrow> k \<in> waiters a"
  by (auto simp: attese_c_e_def waiters_def att_ok_def)

lemma attese_metti_spec:
  assumes ok: "att_ok a" and k: "k \<noteq> 0" and m: "attese_metti a k = (r, a')"
  shows "att_ok a' \<and> waiters a' = (if r then insert k (waiters a) else waiters a) \<and> (\<not> r \<longrightarrow> a' = a \<and> posti a \<le> n_altri a)"
proof (cases "attese_c_e a k \<or> uno a = 0 \<or> n_altri a \<ge> posti a")
  case True
  then show ?thesis using assms
    by (auto simp: attese_metti_def attese_c_e_def waiters_def att_ok_def split: if_splits)
next
  case False
  then have n: "n_altri a < length (altri a)" by (simp add: posti_def)
  have t: "take (Suc (n_altri a)) ((altri a)[n_altri a := k]) = take (n_altri a) (altri a) @ [k]"
    using n by (simp add: take_Suc_conv_app_nth)
  show ?thesis using False assms n t
    by (auto simp: attese_metti_def attese_c_e_def waiters_def att_ok_def)
qed

lemma take_last_conv: "0 < n \<Longrightarrow> n \<le> length xs \<Longrightarrow> take n xs = take (n - 1) xs @ [xs ! (n - 1)]"
  by (metis Suc_diff_1 Suc_le_lessD take_Suc_conv_app_nth)

lemma set_swap_last:
  assumes "i < length ys" "distinct (ys @ [z])"
  shows "distinct (ys[i := z])" "set (ys[i := z]) = insert z (set ys - {ys ! i})"
  using assms by (auto simp: distinct_list_update set_update_distinct)

lemma attese_togli_spec:
  assumes ok: "att_ok a" and k: "k \<noteq> 0"
  shows "att_ok (attese_togli a k) \<and> waiters (attese_togli a k) = waiters a - {k}"
proof (cases "uno a = k")
  case True
  show ?thesis
  proof (cases "n_altri a = 0")
    case True
    then show ?thesis using ok k \<open>uno a = k\<close> by (auto simp: attese_togli_def att_ok_def waiters_def)
  next
    case False
    then have t: "take (n_altri a) (altri a) = take (n_altri a - 1) (altri a) @ [altri a ! (n_altri a - 1)]"
      using ok by (intro take_last_conv) (auto simp: att_ok_def)
    show ?thesis using ok k True False
      by (auto simp: attese_togli_def att_ok_def waiters_def t)
  qed
next
  case False
  show ?thesis
  proof (cases "indice_di k (take (n_altri a) (altri a))")
    case None
    then have "attese_togli a k = a" "k \<notin> waiters a"
      using False by (auto simp: attese_togli_def waiters_def indice_di_None [symmetric])
    then show ?thesis using ok by simp
  next
    case (Some i)
    let ?n = "n_altri a"
    define m where "m = n_altri a - 1"
    define ys where "ys = take m (altri a)"
    define z where "z = altri a ! m"
    have i: "i < ?n" "altri a ! i = k" using indice_di_Some [OF Some] by auto
    have n: "?n \<le> length (altri a)" "?n = Suc m" using ok i by (auto simp: att_ok_def m_def)
    have t: "take ?n (altri a) = ys @ [z]" using n by (simp add: ys_def z_def take_Suc_conv_app_nth)
    have d: "distinct (uno a # ys @ [z])" "0 \<notin> set (ys @ [z])" "uno a \<noteq> 0" using ok t n by (auto simp: att_ok_def)
    have new: "take m ((altri a)[i := z]) = ys[i := z]" by (simp add: take_update_swap ys_def)
    have togli: "attese_togli a k = a\<lparr>altri := (altri a)[i := z], n_altri := m\<rparr>"
      using False Some by (simp add: attese_togli_def m_def z_def)
    have ysl: "length ys = m" using n by (simp add: ys_def)
    have swap: "distinct (ys[i := z]) \<and> set (ys[i := z]) = set (ys @ [z]) - {k}"
    proof (cases "i = m")
      case True
      then have "ys[i := z] = ys" "z = k" using i ysl by (simp_all add: list_update_beyond z_def)
      then show ?thesis using d(1) by auto
    next
      case False
      then have il: "i < length ys" "ys ! i = k" using i n ysl by (auto simp: ys_def)
      have dz: "distinct (ys @ [z])" using d(1) by simp
      have "k \<in> set ys" using nth_mem [OF il(1)] unfolding il(2) .
      then have "k \<noteq> z" using dz by (metis disjoint_insert(1) distinct_append list.set(2))
      then show ?thesis using set_swap_last [OF il(1) dz] unfolding il(2) set_append by (simp add: insert_Diff_if)
    qed
    have w: "uno a \<notin> set (ys[i := z])" "0 \<notin> set (ys[i := z])" using swap d by auto
    have "att_ok (attese_togli a k)" using n d(3) swap w by (simp add: togli att_ok_def new)
    moreover have "waiters (attese_togli a k) = waiters a - {k}"
      using d(3) swap \<open>uno a \<noteq> k\<close> by (auto simp: togli waiters_def new t)
    ultimately show ?thesis by simp
  qed
qed

lemma attese_vuota_spec: "att_ok a \<Longrightarrow> att_ok (a\<lparr>uno := 0, n_altri := 0\<rparr>) \<and> waiters (a\<lparr>uno := 0, n_altri := 0\<rparr>) = {}"
  by (simp add: att_ok_def waiters_def)

lemma attese_cresci_metti_spec:
  assumes "att_ok a"
  shows "att_ok (attese_cresci_metti nuovo a)" "waiters (attese_cresci_metti nuovo a) = waiters a"
    "posti a < length nuovo \<Longrightarrow> posti (attese_cresci_metti nuovo a) = length nuovo"
proof -
  have "take (n_altri a) (take (n_altri a) (altri a) @ drop (n_altri a) nuovo) = take (n_altri a) (altri a)"
    using assms by (simp add: att_ok_def)
  then show "att_ok (attese_cresci_metti nuovo a)" "waiters (attese_cresci_metti nuovo a) = waiters a"
    using assms by (auto simp: attese_cresci_metti_def att_ok_def waiters_def posti_def)
  show "posti (attese_cresci_metti nuovo a) = length nuovo" if "posti a < length nuovo"
    using that assms by (simp add: attese_cresci_metti_def att_ok_def posti_def)
qed

section \<open>The interface\<close>

text \<open>What an object that processes wait on relies on: a successful registration is remembered, and stays until
  that process is taken out or everybody is woken.\<close>

datatype att_op = Metti u32 | Togli u32

fun att_run :: "('a \<Rightarrow> u32 \<Rightarrow> bool \<times> 'a) \<Rightarrow> ('a \<Rightarrow> u32 \<Rightarrow> 'a) \<Rightarrow> att_op list \<Rightarrow> 'a \<Rightarrow> 'a" where
  "att_run metti togli [] a = a"
| "att_run metti togli (Metti k # ops) a = att_run metti togli ops (snd (metti a k))"
| "att_run metti togli (Togli k # ops) a = att_run metti togli ops (togli a k)"

definition pid_di :: "att_op \<Rightarrow> u32" where
  "pid_di x = (case x of Metti k \<Rightarrow> k | Togli k \<Rightarrow> k)"

locale waiter_set =
  fixes ok :: "'a \<Rightarrow> bool"
    and who :: "'a \<Rightarrow> u32 set"
    and metti :: "'a \<Rightarrow> u32 \<Rightarrow> bool \<times> 'a"
    and togli :: "'a \<Rightarrow> u32 \<Rightarrow> 'a"
  assumes metti_ok: "ok a \<Longrightarrow> k \<noteq> 0 \<Longrightarrow> ok (snd (metti a k))"
    and metti_who: "ok a \<Longrightarrow> k \<noteq> 0 \<Longrightarrow> who (snd (metti a k)) = (if fst (metti a k) then insert k (who a) else who a)"
    and togli_ok: "ok a \<Longrightarrow> k \<noteq> 0 \<Longrightarrow> ok (togli a k)"
    and togli_who: "ok a \<Longrightarrow> k \<noteq> 0 \<Longrightarrow> who (togli a k) = who a - {k}"
begin

lemma stays_registered:
  "ok a \<Longrightarrow> \<forall>x \<in> set ops. pid_di x \<noteq> 0 \<Longrightarrow> k \<in> who a \<Longrightarrow> Togli k \<notin> set ops \<Longrightarrow> k \<in> who (att_run metti togli ops a)"
proof (induction ops arbitrary: a)
  case (Cons x ops)
  then show ?case
    by (cases x) (auto simp: pid_di_def metti_ok metti_who togli_ok togli_who)
qed simp

end

interpretation attese_ws: waiter_set att_ok waiters attese_metti attese_togli
proof
  fix a :: attese and k :: u32
  assume a: "att_ok a" "k \<noteq> 0"
  obtain r a' where m: "attese_metti a k = (r, a')" by fastforce
  show "att_ok (snd (attese_metti a k))"
    "waiters (snd (attese_metti a k)) = (if fst (attese_metti a k) then insert k (waiters a) else waiters a)"
    using attese_metti_spec [OF a m] by (simp_all add: m)
  show "att_ok (attese_togli a k)" "waiters (attese_togli a k) = waiters a - {k}"
    using attese_togli_spec [OF a] by simp_all
qed

section \<open>Waking\<close>

lemma pids_ok_blocks_only:
  assumes "pids_ok s" "blocks_only C s s'"
  shows "pids_ok s'"
  unfolding pids_ok_def
proof (intro allI impI)
  fix i j assume "i < length (g_proc s')" "j < length (g_proc s')"
    "state (g_proc s' ! i) \<noteq> PROC_UNUSED \<and> state (g_proc s' ! j) \<noteq> PROC_UNUSED \<and> pid (g_proc s' ! i) = pid (g_proc s' ! j)"
  then show "i = j" using assms(2) by (intro pids_okD [OF assms(1)]) (auto simp: blocks_only_def)
qed

lemma unblock_not_blocked:
  assumes "pids_ok s" "i < length (g_proc s)" "pid (g_proc s ! i) = k"
  shows "state (g_proc (sched_unblock_locked k s) ! i) \<noteq> PROC_BLOCKED"
proof (cases "state (g_proc s ! i) = PROC_BLOCKED")
  case True
  then show ?thesis using sched_unblock_state [OF assms(1,2) True, of i] assms(3) by simp
next
  case False
  then show ?thesis using blocks_only_unblock [of "{}" s k] assms(2) by (auto simp: blocks_only_def)
qed

lemma fold_unblock:
  assumes "pids_ok s" "sched_ok s"
  shows "blocks_only {} s (fold sched_unblock_locked ks s) \<and> sched_ok (fold sched_unblock_locked ks s) \<and>
    g_current (fold sched_unblock_locked ks s) = g_current s \<and>
    (\<forall>i < length (g_proc s). pid (g_proc s ! i) \<in> set ks \<longrightarrow>
       state (g_proc (fold sched_unblock_locked ks s) ! i) \<noteq> PROC_BLOCKED)"
  using assms
proof (induction ks arbitrary: s)
  case (Cons k ks)
  let ?s = "sched_unblock_locked k s"
  have b: "blocks_only {} s ?s" by (rule blocks_only_unblock)
  note IH = Cons.IH [OF pids_ok_blocks_only [OF Cons.prems(1) b] sched_ok_unblock [OF Cons.prems(2)]]
  have "state (g_proc (fold sched_unblock_locked ks ?s) ! i) \<noteq> PROC_BLOCKED"
    if i: "i < length (g_proc s)" "pid (g_proc s ! i) = k" for i
  proof -
    have "state (g_proc ?s ! i) \<noteq> PROC_BLOCKED" by (rule unblock_not_blocked [OF Cons.prems(1) i])
    then show ?thesis using IH i b by (auto simp: blocks_only_def)
  qed
  moreover have "\<forall>i < length (g_proc s). pid (g_proc s ! i) \<in> set ks \<longrightarrow>
      state (g_proc (fold sched_unblock_locked ks ?s) ! i) \<noteq> PROC_BLOCKED"
    using IH b by (auto simp: blocks_only_def)
  ultimately show ?case using IH blocks_only_trans [OF b] by auto
qed (simp add: blocks_only_refl)

lemma attese_sveglia_fold:
  "snd (attese_sveglia_locked a s) =
     fold sched_unblock_locked ((if uno a \<noteq> 0 then [uno a] else []) @ take (n_altri a) (altri a)) s"
  by (simp add: attese_sveglia_locked_def)

text \<open>Waking: everybody who was registered is no longer blocked, nobody is registered any more, and no other
  process is touched.\<close>

lemma attese_sveglia_spec:
  assumes "pids_ok s" "sched_ok s" "att_ok a"
  shows "blocks_only {} s (snd (attese_sveglia_locked a s))" "sched_ok (snd (attese_sveglia_locked a s))"
    "g_current (snd (attese_sveglia_locked a s)) = g_current s"
    "i < length (g_proc s) \<Longrightarrow> pid (g_proc s ! i) \<in> waiters a \<Longrightarrow>
     state (g_proc (snd (attese_sveglia_locked a s)) ! i) \<noteq> PROC_BLOCKED"
    "waiters (fst (attese_sveglia_locked a s)) = {}" "att_ok (fst (attese_sveglia_locked a s))"
  using fold_unblock [OF assms(1,2), of "(if uno a \<noteq> 0 then [uno a] else []) @ take (n_altri a) (altri a)"] assms(3)
    attese_vuota_spec [OF assms(3)]
  unfolding attese_sveglia_fold
  by (auto simp: attese_sveglia_locked_def waiters_def split: if_splits)

lemma corsa_pids: "pids_ok sched_corsa" "1 < length (g_proc sched_corsa)" "state (g_proc sched_corsa ! 1) \<noteq> PROC_UNUSED"
proof -
  have "cur_used sched_esempio" by (simp add: cur_used_def sched_esempio_def g_current_def)
  then have b: "blocks_only {} sched_esempio sched_corsa"
    unfolding sched_corsa_def by (intro blocks_only_yield [OF sched_ok_esempio])
  then show "pids_ok sched_corsa" by (rule pids_ok_blocks_only [OF pids_ok_esempio])
  show "1 < length (g_proc sched_corsa)" by (rule sched_ok_currentD [OF sched_corsa_ok sched_corsa_sel(1)])
  show "state (g_proc sched_corsa ! 1) \<noteq> PROC_UNUSED" using sched_corsa_sel by simp
qed

end
