(* ===== verification/Pipe.thy ===== *)
theory Pipe
  imports Attese
begin

text \<open>
  The pipes of \<^verbatim>\<open>kernel/ipc/pipe.c\<close>: a ring of bytes with counted ends and two sets of waiters. The turns of
  the loops of \<^verbatim>\<open>pipe_leggi\<close> and \<^verbatim>\<open>pipe_scrivi\<close> run with interrupts off and are functions of the scheduler and
  of the table of the pipes; between two turns everything else may happen, which is what the step relation
  \<open>pstep\<close> says. Shown: the ring is a bounded FIFO, the three boundary rules of \<^verbatim>\<open>pipe.h\<close>, the handles, and that no
  wake-up is lost.
\<close>

section \<open>The table\<close>

abbreviation PIPE_DIM :: nat where "PIPE_DIM \<equiv> 4096"
abbreviation PIPE_TRANCHE :: nat where "PIPE_TRANCHE \<equiv> 1024"

record pipe =
  p_usata :: bool
  p_testa :: nat
  p_quanti :: nat
  p_lettori :: nat
  p_scrittori :: nat
  p_att_lettori :: attese
  p_att_scrittori :: attese
  p_buf :: "u8 list"

text \<open>The scheduler and the directory: \<open>pdir\<close> holds the first \<^verbatim>\<open>g_pipe_n\<close> entries of \<^verbatim>\<open>g_pipe_dir\<close>, whose room is
  \<^verbatim>\<open>g_pipe_dir_posti\<close>.\<close>

record pipe_sys =
  sch :: sched
  pdir :: "pipe list"
  pdir_posti :: nat

definition attese_scorda :: "attese \<Rightarrow> attese" where
  "attese_scorda a = a\<lparr>uno := 0, n_altri := 0\<rparr>"

definition pipe_libera_se_orfana :: "pipe \<Rightarrow> pipe" where
  "pipe_libera_se_orfana p =
     (if p_lettori p = 0 \<and> p_scrittori p = 0
      then p\<lparr>p_usata := False, p_testa := 0, p_quanti := 0,
             p_att_lettori := attese_scorda (p_att_lettori p), p_att_scrittori := attese_scorda (p_att_scrittori p)\<rparr>
      else p)"

definition pipe_da_handle :: "int \<Rightarrow> pipe list \<Rightarrow> nat option" where
  "pipe_da_handle h dir =
     (if h < 0 \<or> nat h \<ge> length dir then None
      else if \<not> p_usata (dir ! nat h) then None
      else Some (nat h))"

section \<open>Creation\<close>

definition pipe_nuova :: "pipe \<Rightarrow> pipe" where
  "pipe_nuova p = p\<lparr>p_usata := True, p_testa := 0, p_quanti := 0, p_lettori := 1, p_scrittori := 1,
     p_att_lettori := attese_scorda (p_att_lettori p), p_att_scrittori := attese_scorda (p_att_scrittori p)\<rparr>"

text \<open>The first critical section of the loop of \<^verbatim>\<open>pipe_crea\<close>: the first pipe that is not in use.\<close>

definition pipe_crea_cerca :: "pipe list \<Rightarrow> (nat \<times> pipe list) option" where
  "pipe_crea_cerca dir =
     (case find (\<lambda>h. \<not> p_usata (dir ! h)) [0..<length dir] of
        None \<Rightarrow> None
      | Some h \<Rightarrow> Some (h, dir[h := pipe_nuova (dir ! h)]))"

text \<open>All in use: one more. \<open>mem\<close> is the buffer of the pipe the allocator returned, if it did (its bytes are
  whatever they were), and \<open>mem_dir\<close> whether a larger directory could be allocated when one was needed.\<close>

definition pipe_zero :: "u8 list \<Rightarrow> pipe" where
  "pipe_zero b = \<lparr>p_usata = False, p_testa = 0, p_quanti = 0, p_lettori = 0, p_scrittori = 0,
     p_att_lettori = \<lparr>uno = 0, altri = [], n_altri = 0\<rparr>, p_att_scrittori = \<lparr>uno = 0, altri = [], n_altri = 0\<rparr>,
     p_buf = b\<rparr>"

definition pipe_crea_aggiungi :: "u8 list option \<Rightarrow> bool \<Rightarrow> pipe list \<times> nat \<Rightarrow> (pipe list \<times> nat) option" where
  "pipe_crea_aggiungi mem mem_dir = (\<lambda>(dir, room).
     (case mem of None \<Rightarrow> None
      | Some b \<Rightarrow>
          (let room' = (if length dir \<ge> room then (if room \<noteq> 0 then room * 2 else 16) else room) in
           if length dir \<ge> room \<and> \<not> mem_dir then None
           else if length dir < room' then Some (dir @ [pipe_zero b], room')
           else Some (dir, room'))))"

text \<open>The whole loop, when no other process takes the new pipe in between. Each turn asks the allocator again;
  \<open>mems\<close> is what it answers turn by turn.\<close>

fun pipe_crea :: "(u8 list option \<times> bool) list \<Rightarrow> pipe list \<times> nat \<Rightarrow> (errno + nat) option \<times> pipe list \<times> nat" where
  "pipe_crea mems (dir, room) =
     (case pipe_crea_cerca dir of
        Some (h, dir') \<Rightarrow> (Some (Inr h), dir', room)
      | None \<Rightarrow>
          (case mems of
             [] \<Rightarrow> (None, dir, room)
           | (mem, mem_dir) # rest \<Rightarrow>
               (case pipe_crea_aggiungi mem mem_dir (dir, room) of
                  None \<Rightarrow> (Some (Inl ENFILE), dir, room)
                | Some (dir', room') \<Rightarrow> pipe_crea rest (dir', room'))))"

section \<open>Opening and closing the ends\<close>

definition pipe_agg :: "nat \<Rightarrow> (pipe \<Rightarrow> pipe) \<Rightarrow> pipe_sys \<Rightarrow> pipe_sys" where
  "pipe_agg k f y = y\<lparr>pdir := (pdir y)[k := f (pdir y ! k)]\<rparr>"

definition pipe_apri_lettore :: "int \<Rightarrow> pipe_sys \<Rightarrow> pipe_sys" where
  "pipe_apri_lettore h y =
     (case pipe_da_handle h (pdir y) of None \<Rightarrow> y
      | Some k \<Rightarrow> pipe_agg k (\<lambda>p. p\<lparr>p_lettori := p_lettori p + 1\<rparr>) y)"

definition pipe_apri_scrittore :: "int \<Rightarrow> pipe_sys \<Rightarrow> pipe_sys" where
  "pipe_apri_scrittore h y =
     (case pipe_da_handle h (pdir y) of None \<Rightarrow> y
      | Some k \<Rightarrow> pipe_agg k (\<lambda>p. p\<lparr>p_scrittori := p_scrittori p + 1\<rparr>) y)"

definition sveglia_scrittori :: "nat \<Rightarrow> pipe_sys \<Rightarrow> pipe_sys" where
  "sveglia_scrittori k y =
     (case attese_sveglia_locked (p_att_scrittori (pdir y ! k)) (sch y) of
        (a, s) \<Rightarrow> pipe_agg k (\<lambda>p. p\<lparr>p_att_scrittori := a\<rparr>) (y\<lparr>sch := s\<rparr>))"

definition sveglia_lettori :: "nat \<Rightarrow> pipe_sys \<Rightarrow> pipe_sys" where
  "sveglia_lettori k y =
     (case attese_sveglia_locked (p_att_lettori (pdir y ! k)) (sch y) of
        (a, s) \<Rightarrow> pipe_agg k (\<lambda>p. p\<lparr>p_att_lettori := a\<rparr>) (y\<lparr>sch := s\<rparr>))"

definition pipe_chiudi_lettore_locked :: "int \<Rightarrow> pipe_sys \<Rightarrow> pipe_sys" where
  "pipe_chiudi_lettore_locked h y =
     (case pipe_da_handle h (pdir y) of None \<Rightarrow> y
      | Some k \<Rightarrow>
          (let y1 = pipe_agg k (\<lambda>p. p\<lparr>p_lettori := p_lettori p - 1\<rparr>) y;
               y2 = (if p_lettori (pdir y1 ! k) = 0 then sveglia_scrittori k y1 else y1)
           in pipe_agg k pipe_libera_se_orfana y2))"

definition pipe_chiudi_scrittore_locked :: "int \<Rightarrow> pipe_sys \<Rightarrow> pipe_sys" where
  "pipe_chiudi_scrittore_locked h y =
     (case pipe_da_handle h (pdir y) of None \<Rightarrow> y
      | Some k \<Rightarrow>
          (let y1 = pipe_agg k (\<lambda>p. p\<lparr>p_scrittori := p_scrittori p - 1\<rparr>) y;
               y2 = (if p_scrittori (pdir y1 ! k) = 0 then sveglia_lettori k y1 else y1)
           in pipe_agg k pipe_libera_se_orfana y2))"

section \<open>For poll\<close>

definition pipe_disponibili :: "int \<Rightarrow> pipe_sys \<Rightarrow> errno + nat" where
  "pipe_disponibili h y =
     (case pipe_da_handle h (pdir y) of None \<Rightarrow> Inl EBADF | Some k \<Rightarrow> Inr (p_quanti (pdir y ! k)))"

definition pipe_stato_locked :: "int \<Rightarrow> pipe_sys \<Rightarrow> errno + (nat \<times> nat \<times> nat \<times> nat)" where
  "pipe_stato_locked h y =
     (case pipe_da_handle h (pdir y) of None \<Rightarrow> Inl EBADF
      | Some k \<Rightarrow> (let p = pdir y ! k in Inr (p_quanti p, PIPE_DIM - p_quanti p, p_lettori p, p_scrittori p)))"

definition pipe_attesa_registra_locked :: "int \<Rightarrow> bool \<Rightarrow> u32 \<Rightarrow> pipe_sys \<Rightarrow> bool \<times> pipe_sys" where
  "pipe_attesa_registra_locked h per_lettura k y =
     (case pipe_da_handle h (pdir y) of None \<Rightarrow> (False, y)
      | Some i \<Rightarrow>
          (if per_lettura
           then (case attese_metti (p_att_lettori (pdir y ! i)) k of
                   (r, a) \<Rightarrow> (r, pipe_agg i (\<lambda>p. p\<lparr>p_att_lettori := a\<rparr>) y))
           else (case attese_metti (p_att_scrittori (pdir y ! i)) k of
                   (r, a) \<Rightarrow> (r, pipe_agg i (\<lambda>p. p\<lparr>p_att_scrittori := a\<rparr>) y))))"

definition pipe_attesa_togli_locked :: "int \<Rightarrow> bool \<Rightarrow> u32 \<Rightarrow> pipe_sys \<Rightarrow> pipe_sys" where
  "pipe_attesa_togli_locked h per_lettura k y =
     (case pipe_da_handle h (pdir y) of None \<Rightarrow> y
      | Some i \<Rightarrow>
          (if per_lettura then pipe_agg i (\<lambda>p. p\<lparr>p_att_lettori := attese_togli (p_att_lettori p) k\<rparr>) y
           else pipe_agg i (\<lambda>p. p\<lparr>p_att_scrittori := attese_togli (p_att_scrittori p) k\<rparr>) y))"

section \<open>Reading and writing\<close>

text \<open>The copies between the ring and the bounce buffer.\<close>

definition pipe_prendi :: "nat \<Rightarrow> pipe \<Rightarrow> u8 list \<times> pipe" where
  "pipe_prendi n p =
     (let presi = (if n < p_quanti p then n else p_quanti p) in
      (ring_read (p_buf p) (p_testa p) presi,
       p\<lparr>p_testa := (p_testa p + presi) mod PIPE_DIM, p_quanti := p_quanti p - presi\<rparr>))"

definition pipe_metti :: "u8 list \<Rightarrow> pipe \<Rightarrow> nat \<times> pipe" where
  "pipe_metti xs p =
     (let spazio = PIPE_DIM - p_quanti p;
          messi = (if length xs < spazio then length xs else spazio);
          inizio = (p_testa p + p_quanti p) mod PIPE_DIM
      in (messi, p\<lparr>p_buf := ring_write (p_buf p) inizio (take messi xs), p_quanti := p_quanti p + messi\<rparr>))"

text \<open>One turn of \<^verbatim>\<open>pipe_leggi\<close>; \<open>n\<close> is the count already cut to \<^verbatim>\<open>PIPE_TRANCHE\<close>.\<close>

definition pipe_tranche :: "nat \<Rightarrow> nat" where
  "pipe_tranche n = (if n > PIPE_TRANCHE then PIPE_TRANCHE else n)"

definition pipe_leggi_giro :: "int \<Rightarrow> nat \<Rightarrow> bool \<Rightarrow> pipe_sys \<Rightarrow> (errno + u8 list) giro \<times> pipe_sys" where
  "pipe_leggi_giro h n nonblocca y =
     (case pipe_da_handle h (pdir y) of None \<Rightarrow> (Ritorna (Inl EBADF), y)
      | Some k \<Rightarrow>
          (let p = pdir y ! k in
           if p_quanti p > 0 then
             (case pipe_prendi n p of
                (bs, p1) \<Rightarrow> (Ritorna (Inr bs), sveglia_scrittori k (pipe_agg k (\<lambda>_. p1) y)))
           else if p_scrittori p = 0 then (Ritorna (Inr []), y)
           else if nonblocca then (Ritorna (Inl EAGAIN), y)
           else (case proc_get_current (sch y) of None \<Rightarrow> (Ritorna (Inl EAGAIN), y)
                 | Some c \<Rightarrow>
                     (case attese_metti (p_att_lettori p) (pid (g_proc (sch y) ! c)) of
                        (r, a) \<Rightarrow>
                          if \<not> r then (Cresce, y)
                          else (Dormi, (pipe_agg k (\<lambda>p. p\<lparr>p_att_lettori := a\<rparr>) y)
                                  \<lparr>sch := sched_block PROC_BLOCKED (sch y)\<rparr>)))))"

definition pipe_scrivi_giro :: "int \<Rightarrow> u8 list \<Rightarrow> bool \<Rightarrow> pipe_sys \<Rightarrow> (errno + nat) giro \<times> pipe_sys" where
  "pipe_scrivi_giro h xs nonblocca y =
     (case pipe_da_handle h (pdir y) of None \<Rightarrow> (Ritorna (Inl EBADF), y)
      | Some k \<Rightarrow>
          (let p = pdir y ! k in
           if p_lettori p = 0 then (Ritorna (Inl EPIPE), y)
           else if p_quanti p < PIPE_DIM then
             (case pipe_metti xs p of
                (m, p1) \<Rightarrow> (Ritorna (Inr m), sveglia_lettori k (pipe_agg k (\<lambda>_. p1) y)))
           else if nonblocca then (Ritorna (Inl EAGAIN), y)
           else (case proc_get_current (sch y) of None \<Rightarrow> (Ritorna (Inl EAGAIN), y)
                 | Some c \<Rightarrow>
                     (case attese_metti (p_att_scrittori p) (pid (g_proc (sch y) ! c)) of
                        (r, a) \<Rightarrow>
                          if \<not> r then (Cresce, y)
                          else (Dormi, (pipe_agg k (\<lambda>p. p\<lparr>p_att_scrittori := a\<rparr>) y)
                                  \<lparr>sch := sched_block PROC_BLOCKED (sch y)\<rparr>)))))"

text \<open>A whole call that does not sleep: what the first turn gives, after the test of the count.\<close>

definition pipe_leggi :: "int \<Rightarrow> nat \<Rightarrow> bool \<Rightarrow> pipe_sys \<Rightarrow> (errno + u8 list) giro \<times> pipe_sys" where
  "pipe_leggi h n nonblocca y =
     (if n = 0 then (Ritorna (Inr []), y) else pipe_leggi_giro h (pipe_tranche n) nonblocca y)"

definition pipe_scrivi :: "int \<Rightarrow> u8 list \<Rightarrow> bool \<Rightarrow> pipe_sys \<Rightarrow> (errno + nat) giro \<times> pipe_sys" where
  "pipe_scrivi h xs nonblocca y =
     (if xs = [] then (Ritorna (Inr 0), y) else pipe_scrivi_giro h (take (pipe_tranche (length xs)) xs) nonblocca y)"

text \<open>What a sleeper does first when it runs again.\<close>

definition pipe_sveglio :: "sched \<Rightarrow> (errno + 'a) giro option" where
  "pipe_sveglio s = (if proc_da_interrompere s then Some (Ritorna (Inl EINTR)) else None)"

section \<open>The ring is a bounded FIFO\<close>

definition pipe_ok :: "pipe \<Rightarrow> bool" where
  "pipe_ok p \<longleftrightarrow> length (p_buf p) = PIPE_DIM \<and> p_testa p < PIPE_DIM \<and> p_quanti p \<le> PIPE_DIM \<and>
     att_ok (p_att_lettori p) \<and> att_ok (p_att_scrittori p)"

definition pipe_content :: "pipe \<Rightarrow> u8 list" where
  "pipe_content p = ring_read (p_buf p) (p_testa p) (p_quanti p)"

lemma length_pipe_content [simp]: "length (pipe_content p) = p_quanti p"
  by (simp add: pipe_content_def)

lemma pipe_prendi_sel [simp]:
  "p_att_lettori (snd (pipe_prendi n p)) = p_att_lettori p" "p_att_scrittori (snd (pipe_prendi n p)) = p_att_scrittori p"
  "p_usata (snd (pipe_prendi n p)) = p_usata p" "p_lettori (snd (pipe_prendi n p)) = p_lettori p"
  "p_scrittori (snd (pipe_prendi n p)) = p_scrittori p" "p_quanti (snd (pipe_prendi n p)) = p_quanti p - n"
  by (auto simp: pipe_prendi_def Let_def)

lemma pipe_metti_sel [simp]:
  "p_att_lettori (snd (pipe_metti xs p)) = p_att_lettori p" "p_att_scrittori (snd (pipe_metti xs p)) = p_att_scrittori p"
  "p_usata (snd (pipe_metti xs p)) = p_usata p" "p_lettori (snd (pipe_metti xs p)) = p_lettori p"
  "p_scrittori (snd (pipe_metti xs p)) = p_scrittori p"
  "p_quanti (snd (pipe_metti xs p)) = p_quanti p + min (length xs) (PIPE_DIM - p_quanti p)"
  "fst (pipe_metti xs p) = min (length xs) (PIPE_DIM - p_quanti p)"
  by (auto simp: pipe_metti_def Let_def)

lemma pipe_metti_content:
  assumes "pipe_ok p"
  shows "pipe_content (snd (pipe_metti xs p)) = pipe_content p @ take (fst (pipe_metti xs p)) xs"
proof -
  define m where "m = fst (pipe_metti xs p)"
  define ys where "ys = take m xs"
  have m: "m = min (length xs) (PIPE_DIM - p_quanti p)" by (simp add: m_def)
  have len: "length (p_buf p) = PIPE_DIM" and le: "p_quanti p + length ys \<le> length (p_buf p)" and ml: "m = length ys"
    using assms m by (auto simp: pipe_ok_def ys_def)
  have "snd (pipe_metti xs p) = p\<lparr>p_buf := ring_write (p_buf p) ((p_testa p + p_quanti p) mod PIPE_DIM) ys,
      p_quanti := p_quanti p + m\<rparr>"
    by (simp add: pipe_metti_def Let_def ys_def m_def)
  then have "pipe_content (snd (pipe_metti xs p)) =
      ring_read (ring_write (p_buf p) ((p_testa p + p_quanti p) mod length (p_buf p)) ys) (p_testa p) (p_quanti p + length ys)"
    by (simp add: pipe_content_def ml len)
  also have "\<dots> = pipe_content p @ ys"
    using ring_read_ring_write [OF le, of "p_testa p"] by (simp add: ring_write_mod pipe_content_def)
  finally show ?thesis by (simp only: ys_def m_def)
qed

lemma pipe_prendi_content:
  assumes "pipe_ok p"
  shows "fst (pipe_prendi n p) = take n (pipe_content p)"
    "pipe_content (snd (pipe_prendi n p)) = drop n (pipe_content p)"
proof -
  define k where "k = min n (p_quanti p)"
  have pr: "pipe_prendi n p = (ring_read (p_buf p) (p_testa p) k,
      p\<lparr>p_testa := (p_testa p + k) mod PIPE_DIM, p_quanti := p_quanti p - k\<rparr>)"
    by (auto simp: pipe_prendi_def Let_def k_def)
  have len: "length (p_buf p) = PIPE_DIM" using assms by (simp add: pipe_ok_def)
  show "fst (pipe_prendi n p) = take n (pipe_content p)"
    by (simp add: pr pipe_content_def take_ring_read k_def)
  have "pipe_content (snd (pipe_prendi n p)) = ring_read (p_buf p) ((p_testa p + k) mod length (p_buf p)) (p_quanti p - k)"
    by (simp add: pr pipe_content_def len)
  also have "\<dots> = drop k (pipe_content p)" by (simp add: ring_read_mod pipe_content_def drop_ring_read)
  also have "\<dots> = drop n (pipe_content p)" by (simp add: k_def min_def)
  finally show "pipe_content (snd (pipe_prendi n p)) = drop n (pipe_content p)" .
qed

lemma pipe_metti_ok: "pipe_ok p \<Longrightarrow> pipe_ok (snd (pipe_metti xs p))"
  by (auto simp: pipe_ok_def pipe_metti_def Let_def)

lemma pipe_prendi_ok: "pipe_ok p \<Longrightarrow> pipe_ok (snd (pipe_prendi n p))"
  by (auto simp: pipe_ok_def pipe_prendi_def Let_def)

lemma pipe_ok_bound: "pipe_ok p \<Longrightarrow> p_quanti p \<le> PIPE_DIM"
  by (simp add: pipe_ok_def)

interpretation pipe_fifo: bounded_fifo pipe_content PIPE_DIM pipe_ok pipe_metti pipe_prendi
  by unfold_locales
    (simp_all add: pipe_metti_content pipe_metti_ok pipe_prendi_content pipe_prendi_ok pipe_ok_bound)

text \<open>C12. A pipe neither loses nor invents nor reorders bytes: whatever the sizes of the writes and of the
  reads and however they alternate, the bytes accepted since the pipe was empty are, in order, those handed out
  followed by those still in the ring, and these never exceed its size.\<close>

theorem pipe_stream:
  assumes "pipe_ok p" "pipe_content p = []" "fifo_run pipe_metti pipe_prendi ops p = (w, r, p')"
  shows "w = r @ pipe_content p' \<and> length (pipe_content p') \<le> PIPE_DIM \<and> pipe_ok p'"
proof -
  have "pipe_ok p' \<and> pipe_content p @ w = r @ pipe_content p'"
    by (rule pipe_fifo.run_stream [OF assms(1,3)])
  then show ?thesis using assms(2) pipe_fifo.content_bound [of p'] by auto
qed

definition pipe_esempio :: pipe where
  "pipe_esempio = pipe_nuova (pipe_zero (replicate PIPE_DIM 0))"

lemma pipe_esempio_ok: "pipe_ok pipe_esempio" "pipe_content pipe_esempio = []"
  by (simp_all add: pipe_esempio_def pipe_nuova_def pipe_zero_def attese_scorda_def pipe_ok_def att_ok_def pipe_content_def)

theorem pipe_stream_witness:
  "fst (snd (fifo_run pipe_metti pipe_prendi [Put [1, 2, 3], Get 2, Put [4], Get 9] pipe_esempio)) = [1, 2, 3, 4]"
proof -
  let ?ops = "[Put [1, 2, 3], Get 2, Put [4], Get 9] :: u8 fifo_op list"
  obtain w r p' where f: "fifo_run pipe_metti pipe_prendi ?ops pipe_esempio = (w, r, p')" by (metis prod_cases3)
  note st = pipe_stream [OF pipe_esempio_ok f]
  define p1 where "p1 = snd (pipe_metti [1, 2, 3] pipe_esempio)"
  define p2 where "p2 = snd (pipe_prendi 2 p1)"
  define p3 where "p3 = snd (pipe_metti [4] p2)"
  define p4 where "p4 = snd (pipe_prendi 9 p3)"
  have q: "p_quanti pipe_esempio = 0" using pipe_esempio_ok(2) length_pipe_content [of pipe_esempio] by simp
  have "p' = p4" "w = [1, 2, 3, 4]" using f q
    by (auto simp: p1_def p2_def p3_def p4_def Let_def split_beta)
  moreover have "p_quanti p4 = 0" using q by (simp add: p1_def p2_def p3_def p4_def)
  then have "pipe_content p4 = []" by (simp add: pipe_content_def)
  ultimately show ?thesis using st f by simp
qed

section \<open>Frames of the table\<close>

lemma pipe_agg_simps [simp]:
  "sch (pipe_agg k f y) = sch y" "pdir_posti (pipe_agg k f y) = pdir_posti y"
  "length (pdir (pipe_agg k f y)) = length (pdir y)"
  by (simp_all add: pipe_agg_def)

lemma pipe_agg_nth: "j < length (pdir y) \<Longrightarrow> pdir (pipe_agg k f y) ! j = (if j = k then f (pdir y ! k) else pdir y ! j)"
  by (simp add: pipe_agg_def nth_list_update)

lemma pipe_da_handle_Some:
  "pipe_da_handle h dir = Some k \<longleftrightarrow> 0 \<le> h \<and> k = nat h \<and> k < length dir \<and> p_usata (dir ! k)"
  by (auto simp: pipe_da_handle_def)

lemma sveglia_scrittori_sel:
  "sch (sveglia_scrittori k y) = snd (attese_sveglia_locked (p_att_scrittori (pdir y ! k)) (sch y))"
  "length (pdir (sveglia_scrittori k y)) = length (pdir y)"
  "j < length (pdir y) \<Longrightarrow> pdir (sveglia_scrittori k y) ! j =
     (if j = k then (pdir y ! k)\<lparr>p_att_scrittori := fst (attese_sveglia_locked (p_att_scrittori (pdir y ! k)) (sch y))\<rparr>
      else pdir y ! j)"
  by (simp_all add: sveglia_scrittori_def split_beta pipe_agg_def nth_list_update)

lemma sveglia_lettori_sel:
  "sch (sveglia_lettori k y) = snd (attese_sveglia_locked (p_att_lettori (pdir y ! k)) (sch y))"
  "length (pdir (sveglia_lettori k y)) = length (pdir y)"
  "j < length (pdir y) \<Longrightarrow> pdir (sveglia_lettori k y) ! j =
     (if j = k then (pdir y ! k)\<lparr>p_att_lettori := fst (attese_sveglia_locked (p_att_lettori (pdir y ! k)) (sch y))\<rparr>
      else pdir y ! j)"
  by (simp_all add: sveglia_lettori_def split_beta pipe_agg_def nth_list_update)

section \<open>The boundary rules\<close>

text \<open>C13. Reading from an open pipe. What is there is delivered, oldest first, up to the count, and leaves the
  pipe. An empty pipe with no writer left gives the end of the data. An empty pipe with a writer never gives a
  zero: the caller sleeps, registered among the readers (or gets EAGAIN when it asked not to sleep, or leaves to
  make room for its registration).\<close>

theorem pipe_leggi_rules:
  assumes "pipe_da_handle h (pdir y) = Some k" "pipe_ok (pdir y ! k)" "g_current (sch y) = Some c"
    "pid (g_proc (sch y) ! c) \<noteq> 0"
  shows "fst (pipe_leggi_giro h n nb y) =
      (if pipe_content (pdir y ! k) \<noteq> [] then Ritorna (Inr (take n (pipe_content (pdir y ! k))))
       else if p_scrittori (pdir y ! k) = 0 then Ritorna (Inr [])
       else if nb then Ritorna (Inl EAGAIN)
       else if fst (attese_metti (p_att_lettori (pdir y ! k)) (pid (g_proc (sch y) ! c))) then Dormi else Cresce) \<and>
    pipe_content (pdir (snd (pipe_leggi_giro h n nb y)) ! k) = drop n (pipe_content (pdir y ! k)) \<and>
    (fst (pipe_leggi_giro h n nb y) = Dormi \<longrightarrow>
       pid (g_proc (sch y) ! c) \<in> waiters (p_att_lettori (pdir (snd (pipe_leggi_giro h n nb y)) ! k)))"
proof (cases "p_quanti (pdir y ! k) > 0")
  case True
  let ?p = "pdir y ! k"
  have k: "k < length (pdir y)" using assms(1) by (simp add: pipe_da_handle_Some)
  obtain bs p1 where pr: "pipe_prendi n ?p = (bs, p1)" by fastforce
  have g: "pipe_leggi_giro h n nb y = (Ritorna (Inr bs), sveglia_scrittori k (pipe_agg k (\<lambda>_. p1) y))"
    using assms(1) True pr by (simp add: pipe_leggi_giro_def Let_def)
  have "pipe_content (pdir (sveglia_scrittori k (pipe_agg k (\<lambda>_. p1) y)) ! k) = pipe_content p1"
    using k by (simp add: sveglia_scrittori_sel pipe_agg_nth pipe_content_def)
  moreover have "pipe_content ?p \<noteq> []" using True length_pipe_content [of ?p] by (metis length_0_conv less_not_refl)
  ultimately show ?thesis using g pipe_prendi_content [OF assms(2), of n] pr by simp
next
  case False
  let ?p = "pdir y ! k"
  have k: "k < length (pdir y)" using assms(1) by (simp add: pipe_da_handle_Some)
  have e: "pipe_content ?p = []" using False by (simp add: pipe_content_def)
  obtain r a where m: "attese_metti (p_att_lettori ?p) (pid (g_proc (sch y) ! c)) = (r, a)" by fastforce
  have "att_ok (p_att_lettori ?p)" using assms(2) by (simp add: pipe_ok_def)
  then have w: "r \<Longrightarrow> pid (g_proc (sch y) ! c) \<in> waiters a" using attese_metti_spec [OF _ assms(4) m] by simp
  show ?thesis using assms(1,3) False e m w k
    by (auto simp: pipe_leggi_giro_def Let_def proc_get_current_def pipe_agg_nth pipe_content_def)
qed

definition psys_esempio :: pipe_sys where
  "psys_esempio = \<lparr>sch = sched_esempio, pdir = [pipe_esempio], pdir_posti = 16\<rparr>"

lemma psys_esempio_hyps:
  "pipe_da_handle 0 (pdir psys_esempio) = Some 0" "pipe_ok (pdir psys_esempio ! 0)"
  "g_current (sch psys_esempio) = Some 0" "pid (g_proc (sch psys_esempio) ! 0) \<noteq> 0"
  using pipe_esempio_ok
  by (simp_all add: psys_esempio_def pipe_da_handle_def pipe_esempio_def pipe_nuova_def pipe_zero_def sched_esempio_def
      proc_zero_def g_current_def)

theorem pipe_leggi_rules_witness:
  "fst (pipe_leggi_giro 0 5 False psys_esempio) = Dormi \<and> fst (pipe_leggi_giro 0 5 True psys_esempio) = Ritorna (Inl EAGAIN)"
proof -
  have "pipe_content (pdir psys_esempio ! 0) = []" "p_scrittori (pdir psys_esempio ! 0) = 1"
    "fst (attese_metti (p_att_lettori (pdir psys_esempio ! 0)) (pid (g_proc (sch psys_esempio) ! 0)))"
    using pipe_esempio_ok
    by (simp_all add: psys_esempio_def pipe_esempio_def pipe_nuova_def pipe_zero_def attese_scorda_def attese_metti_def)
  then show ?thesis using pipe_leggi_rules [OF psys_esempio_hyps, of 5 False] pipe_leggi_rules [OF psys_esempio_hyps, of 5 True]
    by simp
qed

text \<open>C14. Writing to an open pipe. With no reader left it is an error whatever the room, and the pipe is left as
  it was. With room, the first bytes that fit go behind what is there and the call says how many. A full pipe
  makes the caller sleep, registered among the writers, unless it asked not to.\<close>

theorem pipe_scrivi_rules:
  assumes "pipe_da_handle h (pdir y) = Some k" "pipe_ok (pdir y ! k)" "g_current (sch y) = Some c"
    "pid (g_proc (sch y) ! c) \<noteq> 0"
  shows "fst (pipe_scrivi_giro h xs nb y) =
      (if p_lettori (pdir y ! k) = 0 then Ritorna (Inl EPIPE)
       else if length (pipe_content (pdir y ! k)) < PIPE_DIM
         then Ritorna (Inr (min (length xs) (PIPE_DIM - length (pipe_content (pdir y ! k)))))
       else if nb then Ritorna (Inl EAGAIN)
       else if fst (attese_metti (p_att_scrittori (pdir y ! k)) (pid (g_proc (sch y) ! c))) then Dormi else Cresce) \<and>
    pipe_content (pdir (snd (pipe_scrivi_giro h xs nb y)) ! k) =
      (if p_lettori (pdir y ! k) = 0 then pipe_content (pdir y ! k)
       else pipe_content (pdir y ! k) @ take (PIPE_DIM - length (pipe_content (pdir y ! k))) xs) \<and>
    (fst (pipe_scrivi_giro h xs nb y) = Dormi \<longrightarrow>
       pid (g_proc (sch y) ! c) \<in> waiters (p_att_scrittori (pdir (snd (pipe_scrivi_giro h xs nb y)) ! k)))"
proof -
  let ?p = "pdir y ! k"
  have k: "k < length (pdir y)" using assms(1) by (simp add: pipe_da_handle_Some)
  consider (none) "p_lettori ?p = 0" | (room) "p_lettori ?p \<noteq> 0" "p_quanti ?p < PIPE_DIM"
    | (full) "p_lettori ?p \<noteq> 0" "p_quanti ?p = PIPE_DIM"
    using pipe_ok_bound [OF assms(2)] by linarith
  then show ?thesis
  proof cases
    case none
    then show ?thesis using assms(1) by (simp add: pipe_scrivi_giro_def Let_def)
  next
    case room
    obtain m p1 where me: "pipe_metti xs ?p = (m, p1)" by fastforce
    have g: "pipe_scrivi_giro h xs nb y = (Ritorna (Inr m), sveglia_lettori k (pipe_agg k (\<lambda>_. p1) y))"
      using assms(1) room me by (simp add: pipe_scrivi_giro_def Let_def)
    have c: "pipe_content (pdir (sveglia_lettori k (pipe_agg k (\<lambda>_. p1) y)) ! k) = pipe_content p1"
      using k by (simp add: sveglia_lettori_sel pipe_agg_nth pipe_content_def)
    have m: "m = min (length xs) (PIPE_DIM - p_quanti ?p)" using me pipe_metti_sel(7) [of xs ?p] by simp
    have "take m xs = take (PIPE_DIM - p_quanti ?p) xs" by (simp add: m min_def)
    then show ?thesis using g c room m pipe_metti_content [OF assms(2), of xs] me by simp
  next
    case full
    obtain r a where m: "attese_metti (p_att_scrittori ?p) (pid (g_proc (sch y) ! c)) = (r, a)" by fastforce
    have "att_ok (p_att_scrittori ?p)" using assms(2) by (simp add: pipe_ok_def)
    then have w: "r \<Longrightarrow> pid (g_proc (sch y) ! c) \<in> waiters a" using attese_metti_spec [OF _ assms(4) m] by simp
    show ?thesis using assms(1,3) full m w k
      by (auto simp: pipe_scrivi_giro_def Let_def proc_get_current_def pipe_agg_nth pipe_content_def)
  qed
qed

theorem pipe_scrivi_rules_witness:
  "fst (pipe_scrivi_giro 0 [7, 8] False psys_esempio) = Ritorna (Inr 2) \<and>
   pipe_content (pdir (snd (pipe_scrivi_giro 0 [7, 8] False psys_esempio)) ! 0) = [7, 8]"
proof -
  have "pipe_content (pdir psys_esempio ! 0) = []" "p_lettori (pdir psys_esempio ! 0) = 1"
    using pipe_esempio_ok
    by (simp_all add: psys_esempio_def pipe_esempio_def pipe_nuova_def pipe_zero_def)
  then show ?thesis using pipe_scrivi_rules [OF psys_esempio_hyps, of "[7, 8]" False] by simp
qed

section \<open>No wake-up is lost\<close>

text \<open>The pipes and the scheduler together. \<open>dove\<close> records, for a process that went to sleep in a pipe, where it
  sleeps; it is not in the program, it only says which blocked processes the invariant speaks about.\<close>

datatype lato = Lettura nat | Scrittura nat

definition in_corso :: "pipe_sys \<Rightarrow> nat \<Rightarrow> bool" where
  "in_corso y c \<longleftrightarrow> g_current (sch y) = Some c \<and> state (g_proc (sch y) ! c) = PROC_RUNNING \<and>
     c \<notin> set (g_ozio (sch y)) \<and> pid (g_proc (sch y) ! c) \<noteq> 0"

inductive pstep :: "pipe_sys \<times> (nat \<Rightarrow> lato option) \<Rightarrow> pipe_sys \<times> (nat \<Rightarrow> lato option) \<Rightarrow> bool" where
  leggi: "in_corso y c \<Longrightarrow> pipe_leggi_giro h n nb y = (g, y') \<Longrightarrow>
    pstep (y, d) (y', d(c := if g = Dormi then Some (Lettura (nat h)) else None))"
| scrivi: "in_corso y c \<Longrightarrow> pipe_scrivi_giro h xs nb y = (g, y') \<Longrightarrow>
    pstep (y, d) (y', d(c := if g = Dormi then Some (Scrittura (nat h)) else None))"
| apri_lettore: "pstep (y, d) (pipe_apri_lettore h y, d)"
| apri_scrittore: "pstep (y, d) (pipe_apri_scrittore h y, d)"
| chiudi_lettore: "pstep (y, d) (pipe_chiudi_lettore_locked h y, d)"
| chiudi_scrittore: "pstep (y, d) (pipe_chiudi_scrittore_locked h y, d)"
| crea: "pipe_crea_cerca (pdir y) = Some (h, dir) \<Longrightarrow> pstep (y, d) (y\<lparr>pdir := dir\<rparr>, d)"
| aggiungi: "length b = PIPE_DIM \<Longrightarrow> pipe_crea_aggiungi (Some b) m (pdir y, pdir_posti y) = Some (dir, room) \<Longrightarrow>
    pstep (y, d) (y\<lparr>pdir := dir, pdir_posti := room\<rparr>, d)"
| registra: "in_corso y c \<Longrightarrow>
    pstep (y, d) (snd (pipe_attesa_registra_locked h l (pid (g_proc (sch y) ! c)) y), d)"
| togli: "in_corso y c \<Longrightarrow> pstep (y, d) (pipe_attesa_togli_locked h l (pid (g_proc (sch y) ! c)) y, d)"
| cresci_lettori: "k < length (pdir y) \<Longrightarrow>
    pstep (y, d) (pipe_agg k (\<lambda>p. p\<lparr>p_att_lettori := attese_cresci_metti nuovo (p_att_lettori p)\<rparr>) y, d)"
| cresci_scrittori: "k < length (pdir y) \<Longrightarrow>
    pstep (y, d) (pipe_agg k (\<lambda>p. p\<lparr>p_att_scrittori := attese_cresci_metti nuovo (p_att_scrittori p)\<rparr>) y, d)"
| altro: "kstep (sch y) s' \<Longrightarrow> cur_used (sch y) \<Longrightarrow>
    pstep (y, d) (y\<lparr>sch := s'\<rparr>, \<lambda>i. if g_current (sch y) = Some i then None else d i)"

definition attende_lettura :: "pipe \<Rightarrow> u32 \<Rightarrow> bool" where
  "attende_lettura p k \<longleftrightarrow> p_usata p \<and> p_quanti p = 0 \<and> p_scrittori p > 0 \<and> k \<in> waiters (p_att_lettori p)"

definition attende_scrittura :: "pipe \<Rightarrow> u32 \<Rightarrow> bool" where
  "attende_scrittura p k \<longleftrightarrow> p_usata p \<and> p_quanti p = PIPE_DIM \<and> p_lettori p > 0 \<and> k \<in> waiters (p_att_scrittori p)"

definition dorme_bene :: "pipe list \<Rightarrow> lato option \<Rightarrow> u32 \<Rightarrow> bool" where
  "dorme_bene dir l k \<longleftrightarrow>
     (case l of None \<Rightarrow> True
      | Some (Lettura h) \<Rightarrow> h < length dir \<and> attende_lettura (dir ! h) k
      | Some (Scrittura h) \<Rightarrow> h < length dir \<and> attende_scrittura (dir ! h) k)"

definition pinv :: "pipe_sys \<times> (nat \<Rightarrow> lato option) \<Rightarrow> bool" where
  "pinv = (\<lambda>(y, d). sched_ok (sch y) \<and> pids_ok (sch y) \<and> (\<forall>k < length (pdir y). pipe_ok (pdir y ! k)) \<and>
     (\<forall>i < length (g_proc (sch y)). state (g_proc (sch y) ! i) = PROC_BLOCKED \<longrightarrow>
        dorme_bene (pdir y) (d i) (pid (g_proc (sch y) ! i))))"

lemma pinvD:
  assumes "pinv (y, d)"
  shows "sched_ok (sch y)" "pids_ok (sch y)" "k < length (pdir y) \<Longrightarrow> pipe_ok (pdir y ! k)"
    "i < length (g_proc (sch y)) \<Longrightarrow> state (g_proc (sch y) ! i) = PROC_BLOCKED \<Longrightarrow>
     dorme_bene (pdir y) (d i) (pid (g_proc (sch y) ! i))"
  using assms by (auto simp: pinv_def)

text \<open>A step that blocks nobody new and keeps, for whoever is still blocked, what it sleeps for.\<close>

lemma pinv_step:
  assumes inv: "pinv (y, d)" and b: "blocks_only {} (sch y) (sch y')" and ok: "sched_ok (sch y')"
    and p: "\<And>k. k < length (pdir y') \<Longrightarrow> pipe_ok (pdir y' ! k)"
    and keep: "\<And>i k. i < length (g_proc (sch y)) \<Longrightarrow> state (g_proc (sch y') ! i) = PROC_BLOCKED \<Longrightarrow> k < length (pdir y) \<Longrightarrow>
      k < length (pdir y') \<and>
      (attende_lettura (pdir y ! k) (pid (g_proc (sch y) ! i)) \<longrightarrow> attende_lettura (pdir y' ! k) (pid (g_proc (sch y) ! i))) \<and>
      (attende_scrittura (pdir y ! k) (pid (g_proc (sch y) ! i)) \<longrightarrow> attende_scrittura (pdir y' ! k) (pid (g_proc (sch y) ! i)))"
    and d: "\<And>i. d' i = d i \<or> d' i = None"
  shows "pinv (y', d')"
proof -
  have "dorme_bene (pdir y') (d' i) (pid (g_proc (sch y') ! i))"
    if i: "i < length (g_proc (sch y'))" "state (g_proc (sch y') ! i) = PROC_BLOCKED" for i
  proof -
    have i': "i < length (g_proc (sch y))" "state (g_proc (sch y) ! i) = PROC_BLOCKED"
      "pid (g_proc (sch y') ! i) = pid (g_proc (sch y) ! i)" using i b by (auto simp: blocks_only_def)
    show ?thesis using pinvD(4) [OF inv i'(1,2)] keep [OF i'(1) i(2)] d [of i] i'(3)
      by (auto simp: dorme_bene_def split: option.splits lato.splits)
  qed
  then show ?thesis using ok p pids_ok_blocks_only [OF pinvD(2) [OF inv] b] by (simp add: pinv_def)
qed

text \<open>The same for a change of one pipe.\<close>

lemma pinv_pipe:
  assumes inv: "pinv (y, d)" and k: "k < length (pdir y)"
    and len: "length (pdir y') = length (pdir y)"
    and other: "\<And>j. j < length (pdir y) \<Longrightarrow> j \<noteq> k \<Longrightarrow> pdir y' ! j = pdir y ! j"
    and b: "blocks_only {} (sch y) (sch y')" and ok: "sched_ok (sch y')" and p: "pipe_ok (pdir y' ! k)"
    and keep: "\<And>i. i < length (g_proc (sch y)) \<Longrightarrow> state (g_proc (sch y') ! i) = PROC_BLOCKED \<Longrightarrow>
      state (g_proc (sch y) ! i) = PROC_BLOCKED \<Longrightarrow>
      (attende_lettura (pdir y ! k) (pid (g_proc (sch y) ! i)) \<longrightarrow> attende_lettura (pdir y' ! k) (pid (g_proc (sch y) ! i))) \<and>
      (attende_scrittura (pdir y ! k) (pid (g_proc (sch y) ! i)) \<longrightarrow> attende_scrittura (pdir y' ! k) (pid (g_proc (sch y) ! i)))"
    and d: "\<And>i. d' i = d i \<or> d' i = None"
  shows "pinv (y', d')"
proof (rule pinv_step [OF inv b ok])
  show "pipe_ok (pdir y' ! j)" if "j < length (pdir y')" for j
    using that len p other [of j] pinvD(3) [OF inv, of j] by (cases "j = k") auto
  show "j < length (pdir y') \<and>
      (attende_lettura (pdir y ! j) (pid (g_proc (sch y) ! i)) \<longrightarrow> attende_lettura (pdir y' ! j) (pid (g_proc (sch y) ! i))) \<and>
      (attende_scrittura (pdir y ! j) (pid (g_proc (sch y) ! i)) \<longrightarrow> attende_scrittura (pdir y' ! j) (pid (g_proc (sch y) ! i)))"
    if i: "i < length (g_proc (sch y))" "state (g_proc (sch y') ! i) = PROC_BLOCKED" and j: "j < length (pdir y)" for i j
  proof (cases "j = k")
    case True
    have "state (g_proc (sch y) ! i) = PROC_BLOCKED" using i b by (auto simp: blocks_only_def)
    then show ?thesis using keep [OF i] True j len by simp
  next
    case False
    then show ?thesis using other [OF j] j len by simp
  qed
qed (rule d)

lemma pinv_agg:
  assumes inv: "pinv (y, d)" and k: "k < length (pdir y)" and p: "pipe_ok (f (pdir y ! k))"
    and l: "\<And>i. i < length (g_proc (sch y)) \<Longrightarrow> state (g_proc (sch y) ! i) = PROC_BLOCKED \<Longrightarrow>
      attende_lettura (pdir y ! k) (pid (g_proc (sch y) ! i)) \<Longrightarrow> attende_lettura (f (pdir y ! k)) (pid (g_proc (sch y) ! i))"
    and w: "\<And>i. i < length (g_proc (sch y)) \<Longrightarrow> state (g_proc (sch y) ! i) = PROC_BLOCKED \<Longrightarrow>
      attende_scrittura (pdir y ! k) (pid (g_proc (sch y) ! i)) \<Longrightarrow> attende_scrittura (f (pdir y ! k)) (pid (g_proc (sch y) ! i))"
    and d: "\<And>i. d' i = d i \<or> d' i = None"
  shows "pinv (pipe_agg k f y, d')"
  by (rule pinv_pipe [OF inv k _ _ _ _ _ _ d])
    (use k p l w pinvD(1) [OF inv] in \<open>auto simp: pipe_agg_nth blocks_only_refl\<close>)

lemma pinv_wake_writers:
  assumes inv: "pinv (y, d)" and k: "k < length (pdir y)" and p: "pipe_ok p1"
    and same: "p_att_scrittori p1 = p_att_scrittori (pdir y ! k)"
    and l: "\<And>x. attende_lettura (pdir y ! k) x \<Longrightarrow> attende_lettura p1 x"
    and d: "\<And>i. d' i = d i \<or> d' i = None"
  shows "pinv (sveglia_scrittori k (pipe_agg k (\<lambda>_. p1) y), d')"
proof -
  let ?y = "sveglia_scrittori k (pipe_agg k (\<lambda>_. p1) y)"
  let ?a = "p_att_scrittori (pdir y ! k)"
  have ak: "att_ok ?a" using p same by (simp add: pipe_ok_def)
  note sv = attese_sveglia_spec [OF pinvD(2) [OF inv] pinvD(1) [OF inv] ak]
  have sel: "sch ?y = snd (attese_sveglia_locked ?a (sch y))"
    "pdir ?y ! k = p1\<lparr>p_att_scrittori := fst (attese_sveglia_locked ?a (sch y))\<rparr>"
    using k same by (simp_all add: sveglia_scrittori_sel pipe_agg_nth)
  show ?thesis
  proof (rule pinv_pipe [OF inv k _ _ _ _ _ _ d])
    show "pipe_ok (pdir ?y ! k)" using p sv(6) by (simp add: sel pipe_ok_def)
    show "(attende_lettura (pdir y ! k) (pid (g_proc (sch y) ! i)) \<longrightarrow> attende_lettura (pdir ?y ! k) (pid (g_proc (sch y) ! i))) \<and>
      (attende_scrittura (pdir y ! k) (pid (g_proc (sch y) ! i)) \<longrightarrow> attende_scrittura (pdir ?y ! k) (pid (g_proc (sch y) ! i)))"
      if "i < length (g_proc (sch y))" "state (g_proc (sch ?y) ! i) = PROC_BLOCKED" for i
      using that l sv(4) [OF that(1)] by (auto simp: sel attende_lettura_def attende_scrittura_def)
  qed (use k sv in \<open>simp_all add: sveglia_scrittori_sel pipe_agg_nth same\<close>)
qed

lemma pinv_wake_readers:
  assumes inv: "pinv (y, d)" and k: "k < length (pdir y)" and p: "pipe_ok p1"
    and same: "p_att_lettori p1 = p_att_lettori (pdir y ! k)"
    and w: "\<And>x. attende_scrittura (pdir y ! k) x \<Longrightarrow> attende_scrittura p1 x"
    and d: "\<And>i. d' i = d i \<or> d' i = None"
  shows "pinv (sveglia_lettori k (pipe_agg k (\<lambda>_. p1) y), d')"
proof -
  let ?y = "sveglia_lettori k (pipe_agg k (\<lambda>_. p1) y)"
  let ?a = "p_att_lettori (pdir y ! k)"
  have ak: "att_ok ?a" using p same by (simp add: pipe_ok_def)
  note sv = attese_sveglia_spec [OF pinvD(2) [OF inv] pinvD(1) [OF inv] ak]
  have sel: "sch ?y = snd (attese_sveglia_locked ?a (sch y))"
    "pdir ?y ! k = p1\<lparr>p_att_lettori := fst (attese_sveglia_locked ?a (sch y))\<rparr>"
    using k same by (simp_all add: sveglia_lettori_sel pipe_agg_nth)
  show ?thesis
  proof (rule pinv_pipe [OF inv k _ _ _ _ _ _ d])
    show "pipe_ok (pdir ?y ! k)" using p sv(6) by (simp add: sel pipe_ok_def)
    show "(attende_lettura (pdir y ! k) (pid (g_proc (sch y) ! i)) \<longrightarrow> attende_lettura (pdir ?y ! k) (pid (g_proc (sch y) ! i))) \<and>
      (attende_scrittura (pdir y ! k) (pid (g_proc (sch y) ! i)) \<longrightarrow> attende_scrittura (pdir ?y ! k) (pid (g_proc (sch y) ! i)))"
      if "i < length (g_proc (sch y))" "state (g_proc (sch ?y) ! i) = PROC_BLOCKED" for i
      using that w sv(4) [OF that(1)] by (auto simp: sel attende_lettura_def attende_scrittura_def)
  qed (use k sv in \<open>simp_all add: sveglia_lettori_sel pipe_agg_nth same\<close>)
qed

lemma pipe_ok_libera: "pipe_ok p \<Longrightarrow> pipe_ok (pipe_libera_se_orfana p)"
  by (simp add: pipe_ok_def pipe_libera_se_orfana_def attese_scorda_def att_ok_def)

lemma pinv_libera:
  assumes inv: "pinv (y, d)" and k: "k < length (pdir y)"
  shows "pinv (pipe_agg k pipe_libera_se_orfana y, d)"
  by (rule pinv_agg [OF inv k])
    (use pipe_ok_libera [OF pinvD(3) [OF inv k]] in
      \<open>auto simp: attende_lettura_def attende_scrittura_def pipe_libera_se_orfana_def\<close>)

lemma pinv_chiudi_lettore:
  assumes inv: "pinv (y, d)" shows "pinv (pipe_chiudi_lettore_locked h y, d)"
proof (cases "pipe_da_handle h (pdir y)")
  case (Some k)
  then have k: "k < length (pdir y)" by (simp add: pipe_da_handle_Some)
  define p1 where "p1 = (pdir y ! k)\<lparr>p_lettori := p_lettori (pdir y ! k) - 1\<rparr>"
  define y1 where "y1 = pipe_agg k (\<lambda>p. p\<lparr>p_lettori := p_lettori p - 1\<rparr>) y"
  have y1: "y1 = pipe_agg k (\<lambda>_. p1) y" "pdir y1 ! k = p1" "length (pdir y1) = length (pdir y)"
    using k by (simp_all add: y1_def p1_def pipe_agg_def)
  have p1: "pipe_ok p1" using pinvD(3) [OF inv k] by (simp add: p1_def pipe_ok_def)
  have "pinv (if p_lettori (pdir y1 ! k) = 0 then sveglia_scrittori k y1 else y1, d)"
  proof (cases "p_lettori p1 = 0")
    case True
    have "pinv (sveglia_scrittori k y1, d)" unfolding y1(1)
      by (rule pinv_wake_writers [OF inv k p1]) (auto simp: p1_def attende_lettura_def)
    then show ?thesis using True y1(2) by simp
  next
    case False
    have "pinv (y1, d)" unfolding y1(1)
      by (rule pinv_agg [OF inv k p1]) (use False in \<open>auto simp: p1_def attende_lettura_def attende_scrittura_def\<close>)
    then show ?thesis using False y1(2) by simp
  qed
  then have "pinv (pipe_agg k pipe_libera_se_orfana (if p_lettori (pdir y1 ! k) = 0 then sveglia_scrittori k y1 else y1), d)"
    by (rule pinv_libera) (use k y1(3) in \<open>simp add: sveglia_scrittori_sel\<close>)
  then show ?thesis unfolding pipe_chiudi_lettore_locked_def Let_def Some option.case y1_def [symmetric] .
qed (simp add: pipe_chiudi_lettore_locked_def inv)

lemma pinv_chiudi_scrittore:
  assumes inv: "pinv (y, d)" shows "pinv (pipe_chiudi_scrittore_locked h y, d)"
proof (cases "pipe_da_handle h (pdir y)")
  case (Some k)
  then have k: "k < length (pdir y)" by (simp add: pipe_da_handle_Some)
  define p1 where "p1 = (pdir y ! k)\<lparr>p_scrittori := p_scrittori (pdir y ! k) - 1\<rparr>"
  define y1 where "y1 = pipe_agg k (\<lambda>p. p\<lparr>p_scrittori := p_scrittori p - 1\<rparr>) y"
  have y1: "y1 = pipe_agg k (\<lambda>_. p1) y" "pdir y1 ! k = p1" "length (pdir y1) = length (pdir y)"
    using k by (simp_all add: y1_def p1_def pipe_agg_def)
  have p1: "pipe_ok p1" using pinvD(3) [OF inv k] by (simp add: p1_def pipe_ok_def)
  have "pinv (if p_scrittori (pdir y1 ! k) = 0 then sveglia_lettori k y1 else y1, d)"
  proof (cases "p_scrittori p1 = 0")
    case True
    have "pinv (sveglia_lettori k y1, d)" unfolding y1(1)
      by (rule pinv_wake_readers [OF inv k p1]) (auto simp: p1_def attende_scrittura_def)
    then show ?thesis using True y1(2) by simp
  next
    case False
    have "pinv (y1, d)" unfolding y1(1)
      by (rule pinv_agg [OF inv k p1]) (use False in \<open>auto simp: p1_def attende_lettura_def attende_scrittura_def\<close>)
    then show ?thesis using False y1(2) by simp
  qed
  then have "pinv (pipe_agg k pipe_libera_se_orfana (if p_scrittori (pdir y1 ! k) = 0 then sveglia_lettori k y1 else y1), d)"
    by (rule pinv_libera) (use k y1(3) in \<open>simp add: sveglia_lettori_sel\<close>)
  then show ?thesis unfolding pipe_chiudi_scrittore_locked_def Let_def Some option.case y1_def [symmetric] .
qed (simp add: pipe_chiudi_scrittore_locked_def inv)

text \<open>The running process goes to sleep in pipe \<open>k\<close>, whose waiters now hold it.\<close>

lemma pinv_sleep:
  assumes inv: "pinv (y, d)" and c: "in_corso y c" and k: "k < length (pdir y)" and p: "pipe_ok p1"
    and l: "\<And>x. attende_lettura (pdir y ! k) x \<Longrightarrow> attende_lettura p1 x"
    and w: "\<And>x. attende_scrittura (pdir y ! k) x \<Longrightarrow> attende_scrittura p1 x"
    and here: "dorme_bene ((pdir y)[k := p1]) l (pid (g_proc (sch y) ! c))"
  shows "pinv (y\<lparr>pdir := (pdir y)[k := p1], sch := sched_block PROC_BLOCKED (sch y)\<rparr>, d(c := l))"
proof -
  let ?s = "sched_block PROC_BLOCKED (sch y)" let ?dir = "(pdir y)[k := p1]"
  have cur: "g_current (sch y) = Some c" "c \<notin> set (g_ozio (sch y))" "state (g_proc (sch y) ! c) \<noteq> PROC_UNUSED"
    using c by (auto simp: in_corso_def)
  have b: "blocks_only {c} (sch y) ?s" by (rule blocks_only_block [OF pinvD(1) [OF inv] cur])
  have ok: "sched_ok ?s" by (rule sched_ok_block [OF pinvD(1) [OF inv] cur(1,2)])
  have "dorme_bene ?dir ((d(c := l)) i) (pid (g_proc ?s ! i))"
    if i: "i < length (g_proc ?s)" "state (g_proc ?s ! i) = PROC_BLOCKED" for i
  proof -
    have i': "i < length (g_proc (sch y))" "pid (g_proc ?s ! i) = pid (g_proc (sch y) ! i)"
      and was: "i \<noteq> c \<Longrightarrow> state (g_proc (sch y) ! i) = PROC_BLOCKED" using i b by (auto simp: blocks_only_def)
    show ?thesis
    proof (cases "i = c")
      case True
      then show ?thesis using here i'(2) by simp
    next
      case False
      then show ?thesis using pinvD(4) [OF inv i'(1) was] l w k i'(2)
        by (auto simp: dorme_bene_def nth_list_update split: option.splits lato.splits)
    qed
  qed
  moreover have "pipe_ok (?dir ! j)" if "j < length (pdir y)" for j
    using that p k pinvD(3) [OF inv that] by (simp add: nth_list_update)
  ultimately show ?thesis using ok pids_ok_blocks_only [OF pinvD(2) [OF inv] b] by (simp add: pinv_def)
qed

lemma pinv_leggi:
  assumes inv: "pinv (y, d)" and c: "in_corso y c" and g: "pipe_leggi_giro h n nb y = (g, y')"
  shows "pinv (y', d(c := if g = Dormi then Some (Lettura (nat h)) else None))"
proof -
  have same: "pinv (y, d(c := None))" by (rule pinv_step [OF inv blocks_only_refl]) (use inv in \<open>auto simp: pinvD\<close>)
  show ?thesis
  proof (cases "pipe_da_handle h (pdir y)")
    case None
    then show ?thesis using g same by (auto simp: pipe_leggi_giro_def)
  next
    case (Some k)
    then have k: "k < length (pdir y)" and h: "nat h = k" and u: "p_usata (pdir y ! k)"
      by (auto simp: pipe_da_handle_Some)
    have pk: "pipe_ok (pdir y ! k)" by (rule pinvD(3) [OF inv k])
    show ?thesis
    proof (cases "p_quanti (pdir y ! k) > 0")
      case True
      obtain bs p1 where pr: "pipe_prendi n (pdir y ! k) = (bs, p1)" by fastforce
      have y': "y' = sveglia_scrittori k (pipe_agg k (\<lambda>_. p1) y)" "g = Ritorna (Inr bs)"
        using g Some True pr by (auto simp: pipe_leggi_giro_def)
      have "pinv (sveglia_scrittori k (pipe_agg k (\<lambda>_. p1) y), d(c := None))"
        by (rule pinv_wake_writers [OF inv k])
          (use pipe_prendi_ok [OF pk, of n] pipe_prendi_sel(2) [of n "pdir y ! k"] pr True in \<open>auto simp: attende_lettura_def\<close>)
      then show ?thesis using y' by simp
    next
      case False
      obtain r a where m: "attese_metti (p_att_lettori (pdir y ! k)) (pid (g_proc (sch y) ! c)) = (r, a)" by fastforce
      have cur: "proc_get_current (sch y) = Some c" using c by (simp add: in_corso_def proc_get_current_def)
      have "att_ok (p_att_lettori (pdir y ! k))" "pid (g_proc (sch y) ! c) \<noteq> 0" using pk c by (auto simp: pipe_ok_def in_corso_def)
      note ms = attese_metti_spec [OF this m]
      define p1 where "p1 = (pdir y ! k)\<lparr>p_att_lettori := a\<rparr>"
      have "pinv (y\<lparr>pdir := (pdir y)[k := p1], sch := sched_block PROC_BLOCKED (sch y)\<rparr>, d(c := Some (Lettura k)))"
        if "r" "p_scrittori (pdir y ! k) \<noteq> 0"
        by (rule pinv_sleep [OF inv c k])
          (use that ms pk u False k in \<open>auto simp: p1_def pipe_ok_def attende_lettura_def attende_scrittura_def dorme_bene_def\<close>)
      then show ?thesis using g same Some False m cur h
        by (auto simp: pipe_leggi_giro_def Let_def pipe_agg_def p1_def split: if_splits)
    qed
  qed
qed

lemma pinv_scrivi:
  assumes inv: "pinv (y, d)" and c: "in_corso y c" and g: "pipe_scrivi_giro h xs nb y = (g, y')"
  shows "pinv (y', d(c := if g = Dormi then Some (Scrittura (nat h)) else None))"
proof -
  have same: "pinv (y, d(c := None))" by (rule pinv_step [OF inv blocks_only_refl]) (use inv in \<open>auto simp: pinvD\<close>)
  show ?thesis
  proof (cases "pipe_da_handle h (pdir y)")
    case None
    then show ?thesis using g same by (auto simp: pipe_scrivi_giro_def)
  next
    case (Some k)
    then have k: "k < length (pdir y)" and h: "nat h = k" and u: "p_usata (pdir y ! k)"
      by (auto simp: pipe_da_handle_Some)
    have pk: "pipe_ok (pdir y ! k)" by (rule pinvD(3) [OF inv k])
    show ?thesis
    proof (cases "p_lettori (pdir y ! k) = 0 \<or> p_quanti (pdir y ! k) < PIPE_DIM")
      case True
      obtain m p1 where pr: "pipe_metti xs (pdir y ! k) = (m, p1)" by fastforce
      have "pinv (sveglia_lettori k (pipe_agg k (\<lambda>_. p1) y), d(c := None))" if "p_quanti (pdir y ! k) < PIPE_DIM"
        by (rule pinv_wake_readers [OF inv k])
          (use that pipe_metti_ok [OF pk, of xs] pipe_metti_sel(1) [of xs "pdir y ! k"] pr in \<open>auto simp: attende_scrittura_def\<close>)
      then show ?thesis using g Some True pr same by (auto simp: pipe_scrivi_giro_def Let_def split: if_splits)
    next
      case False
      obtain r a where m: "attese_metti (p_att_scrittori (pdir y ! k)) (pid (g_proc (sch y) ! c)) = (r, a)" by fastforce
      have cur: "proc_get_current (sch y) = Some c" using c by (simp add: in_corso_def proc_get_current_def)
      have "att_ok (p_att_scrittori (pdir y ! k))" "pid (g_proc (sch y) ! c) \<noteq> 0" using pk c by (auto simp: pipe_ok_def in_corso_def)
      note ms = attese_metti_spec [OF this m]
      define p1 where "p1 = (pdir y ! k)\<lparr>p_att_scrittori := a\<rparr>"
      have "pinv (y\<lparr>pdir := (pdir y)[k := p1], sch := sched_block PROC_BLOCKED (sch y)\<rparr>, d(c := Some (Scrittura k)))" if "r"
        by (rule pinv_sleep [OF inv c k])
          (use that ms pk u False k pipe_ok_bound [OF pk] in
            \<open>auto simp: p1_def pipe_ok_def attende_lettura_def attende_scrittura_def dorme_bene_def\<close>)
      then show ?thesis using g same Some False m cur h
        by (auto simp: pipe_scrivi_giro_def Let_def pipe_agg_def p1_def split: if_splits)
    qed
  qed
qed

lemma pinv_apri:
  assumes inv: "pinv (y, d)"
  shows "pinv (pipe_apri_lettore h y, d)" "pinv (pipe_apri_scrittore h y, d)"
proof -
  have l: "pinv (pipe_agg k (\<lambda>p. p\<lparr>p_lettori := p_lettori p + 1\<rparr>) y, d)" if k: "k < length (pdir y)" for k
    by (rule pinv_agg [OF inv k])
      (use pinvD(3) [OF inv k] in \<open>auto simp: pipe_ok_def attende_lettura_def attende_scrittura_def\<close>)
  have w: "pinv (pipe_agg k (\<lambda>p. p\<lparr>p_scrittori := p_scrittori p + 1\<rparr>) y, d)" if k: "k < length (pdir y)" for k
    by (rule pinv_agg [OF inv k])
      (use pinvD(3) [OF inv k] in \<open>auto simp: pipe_ok_def attende_lettura_def attende_scrittura_def\<close>)
  show "pinv (pipe_apri_lettore h y, d)" "pinv (pipe_apri_scrittore h y, d)"
    using l w inv by (auto simp: pipe_apri_lettore_def pipe_apri_scrittore_def pipe_da_handle_Some split: option.split)
qed

lemma pipe_ok_nuova: "pipe_ok p \<Longrightarrow> pipe_ok (pipe_nuova p)"
  by (simp add: pipe_ok_def pipe_nuova_def attese_scorda_def att_ok_def)

lemma pipe_crea_cerca_Some:
  assumes "pipe_crea_cerca dir = Some (h, dir')"
  shows "h < length dir \<and> \<not> p_usata (dir ! h) \<and> dir' = dir[h := pipe_nuova (dir ! h)]"
proof (cases "find (\<lambda>h. \<not> p_usata (dir ! h)) [0..<length dir]")
  case (Some k)
  then show ?thesis using assms find_SomeD [OF Some] by (auto simp: pipe_crea_cerca_def)
qed (use assms in \<open>simp add: pipe_crea_cerca_def\<close>)

lemma pinv_crea:
  assumes inv: "pinv (y, d)" and c: "pipe_crea_cerca (pdir y) = Some (h, dir)"
  shows "pinv (y\<lparr>pdir := dir\<rparr>, d)"
proof -
  have h: "h < length (pdir y)" "\<not> p_usata (pdir y ! h)" "dir = (pdir y)[h := pipe_nuova (pdir y ! h)]"
    using pipe_crea_cerca_Some [OF c] by auto
  have "pinv (pipe_agg h pipe_nuova y, d)"
    by (rule pinv_agg [OF inv h(1)])
      (use pipe_ok_nuova [OF pinvD(3) [OF inv h(1)]] h(2) in \<open>auto simp: attende_lettura_def attende_scrittura_def\<close>)
  then show ?thesis using h(3) by (simp add: pipe_agg_def)
qed

lemma pinv_aggiungi:
  assumes inv: "pinv (y, d)" and b: "length b = PIPE_DIM"
    and a: "pipe_crea_aggiungi (Some b) m (pdir y, pdir_posti y) = Some (dir, room)"
  shows "pinv (y\<lparr>pdir := dir, pdir_posti := room\<rparr>, d)"
proof (rule pinv_step [OF inv])
  have dir: "dir = pdir y \<or> dir = pdir y @ [pipe_zero b]"
    using a by (auto simp: pipe_crea_aggiungi_def Let_def split: if_splits)
  have z: "pipe_ok (pipe_zero b)" using b by (simp add: pipe_ok_def pipe_zero_def att_ok_def)
  show "pipe_ok (pdir (y\<lparr>pdir := dir, pdir_posti := room\<rparr>) ! k)"
    if "k < length (pdir (y\<lparr>pdir := dir, pdir_posti := room\<rparr>))" for k
    using that dir z pinvD(3) [OF inv, of k] by (auto simp: nth_append)
  show "k < length (pdir (y\<lparr>pdir := dir, pdir_posti := room\<rparr>)) \<and>
      (attende_lettura (pdir y ! k) (pid (g_proc (sch y) ! i)) \<longrightarrow>
       attende_lettura (pdir (y\<lparr>pdir := dir, pdir_posti := room\<rparr>) ! k) (pid (g_proc (sch y) ! i))) \<and>
      (attende_scrittura (pdir y ! k) (pid (g_proc (sch y) ! i)) \<longrightarrow>
       attende_scrittura (pdir (y\<lparr>pdir := dir, pdir_posti := room\<rparr>) ! k) (pid (g_proc (sch y) ! i)))"
    if "k < length (pdir y)" for i k
    using that dir by (auto simp: nth_append)
qed (use pinvD(1) [OF inv] in \<open>simp_all add: blocks_only_refl\<close>)

text \<open>A running process has a pid of its own.\<close>

lemma other_pid:
  assumes inv: "pinv (y, d)" and c: "in_corso y c" and i: "i < length (g_proc (sch y))"
    "state (g_proc (sch y) ! i) = PROC_BLOCKED"
  shows "pid (g_proc (sch y) ! i) \<noteq> pid (g_proc (sch y) ! c)"
proof
  assume p: "pid (g_proc (sch y) ! i) = pid (g_proc (sch y) ! c)"
  have cl: "c < length (g_proc (sch y))" using sched_ok_currentD [OF pinvD(1) [OF inv]] c by (simp add: in_corso_def)
  have "i = c" by (rule pids_okD [OF pinvD(2) [OF inv] i(1) cl]) (use i c p in \<open>auto simp: in_corso_def\<close>)
  then show False using i c by (simp add: in_corso_def)
qed

lemma pinv_registra:
  assumes inv: "pinv (y, d)" and c: "in_corso y c"
  shows "pinv (snd (pipe_attesa_registra_locked h l (pid (g_proc (sch y) ! c)) y), d)"
proof (cases "pipe_da_handle h (pdir y)")
  case (Some k)
  then have k: "k < length (pdir y)" by (simp add: pipe_da_handle_Some)
  let ?c = "pid (g_proc (sch y) ! c)"
  have pk: "pipe_ok (pdir y ! k)" by (rule pinvD(3) [OF inv k])
  have ak: "att_ok (p_att_lettori (pdir y ! k))" "att_ok (p_att_scrittori (pdir y ! k))" using pk by (auto simp: pipe_ok_def)
  have c0: "?c \<noteq> 0" using c by (simp add: in_corso_def)
  have 1: "pinv (pipe_agg k (\<lambda>p. p\<lparr>p_att_lettori := a\<rparr>) y, d)" if m: "attese_metti (p_att_lettori (pdir y ! k)) ?c = (r, a)" for r a
    by (rule pinv_agg [OF inv k])
      (use attese_metti_spec [OF ak(1) c0 m] pk in \<open>auto simp: pipe_ok_def attende_lettura_def attende_scrittura_def\<close>)
  have 2: "pinv (pipe_agg k (\<lambda>p. p\<lparr>p_att_scrittori := a\<rparr>) y, d)" if m: "attese_metti (p_att_scrittori (pdir y ! k)) ?c = (r, a)" for r a
    by (rule pinv_agg [OF inv k])
      (use attese_metti_spec [OF ak(2) c0 m] pk in \<open>auto simp: pipe_ok_def attende_lettura_def attende_scrittura_def\<close>)
  show ?thesis using Some 1 2
    by (cases "attese_metti (p_att_lettori (pdir y ! k)) ?c"; cases "attese_metti (p_att_scrittori (pdir y ! k)) ?c")
      (simp add: pipe_attesa_registra_locked_def)
qed (simp add: pipe_attesa_registra_locked_def inv)

lemma pinv_togli:
  assumes inv: "pinv (y, d)" and c: "in_corso y c"
  shows "pinv (pipe_attesa_togli_locked h l (pid (g_proc (sch y) ! c)) y, d)"
proof (cases "pipe_da_handle h (pdir y)")
  case (Some k)
  then have k: "k < length (pdir y)" by (simp add: pipe_da_handle_Some)
  let ?c = "pid (g_proc (sch y) ! c)"
  have pk: "pipe_ok (pdir y ! k)" by (rule pinvD(3) [OF inv k])
  have ak: "att_ok (p_att_lettori (pdir y ! k))" "att_ok (p_att_scrittori (pdir y ! k))" using pk by (auto simp: pipe_ok_def)
  have c0: "?c \<noteq> 0" using c by (simp add: in_corso_def)
  have 1: "pinv (pipe_agg k (\<lambda>p. p\<lparr>p_att_lettori := attese_togli (p_att_lettori p) ?c\<rparr>) y, d)"
    by (rule pinv_agg [OF inv k])
      (use attese_togli_spec [OF ak(1) c0] pk other_pid [OF inv c] in
        \<open>auto simp: pipe_ok_def attende_lettura_def attende_scrittura_def\<close>)
  have 2: "pinv (pipe_agg k (\<lambda>p. p\<lparr>p_att_scrittori := attese_togli (p_att_scrittori p) ?c\<rparr>) y, d)"
    by (rule pinv_agg [OF inv k])
      (use attese_togli_spec [OF ak(2) c0] pk other_pid [OF inv c] in
        \<open>auto simp: pipe_ok_def attende_lettura_def attende_scrittura_def\<close>)
  show ?thesis using Some 1 2 by (simp add: pipe_attesa_togli_locked_def)
qed (simp add: pipe_attesa_togli_locked_def inv)

lemma pinv_cresci:
  assumes inv: "pinv (y, d)" and k: "k < length (pdir y)"
  shows "pinv (pipe_agg k (\<lambda>p. p\<lparr>p_att_lettori := attese_cresci_metti nuovo (p_att_lettori p)\<rparr>) y, d)"
    "pinv (pipe_agg k (\<lambda>p. p\<lparr>p_att_scrittori := attese_cresci_metti nuovo (p_att_scrittori p)\<rparr>) y, d)"
proof -
  have pk: "pipe_ok (pdir y ! k)" by (rule pinvD(3) [OF inv k])
  have ak: "att_ok (p_att_lettori (pdir y ! k))" "att_ok (p_att_scrittori (pdir y ! k))" using pk by (auto simp: pipe_ok_def)
  show "pinv (pipe_agg k (\<lambda>p. p\<lparr>p_att_lettori := attese_cresci_metti nuovo (p_att_lettori p)\<rparr>) y, d)"
    by (rule pinv_agg [OF inv k])
      (use attese_cresci_metti_spec(1,2) [OF ak(1)] pk in \<open>auto simp: pipe_ok_def attende_lettura_def attende_scrittura_def\<close>)
  show "pinv (pipe_agg k (\<lambda>p. p\<lparr>p_att_scrittori := attese_cresci_metti nuovo (p_att_scrittori p)\<rparr>) y, d)"
    by (rule pinv_agg [OF inv k])
      (use attese_cresci_metti_spec(1,2) [OF ak(2)] pk in \<open>auto simp: pipe_ok_def attende_lettura_def attende_scrittura_def\<close>)
qed

lemma pinv_altro:
  assumes inv: "pinv (y, d)" and st: "kstep (sch y) s'" "cur_used (sch y)"
  shows "pinv (y\<lparr>sch := s'\<rparr>, \<lambda>i. if g_current (sch y) = Some i then None else d i)"
proof -
  have b: "blocks_only {c. g_current (sch y) = Some c} (sch y) s'"
    by (rule kstep_blocks_only [OF st(1) pinvD(1) [OF inv] st(2)])
  have "dorme_bene (pdir y) (if g_current (sch y) = Some i then None else d i) (pid (g_proc s' ! i))"
    if i: "i < length (g_proc s')" "state (g_proc s' ! i) = PROC_BLOCKED" for i
  proof (cases "g_current (sch y) = Some i")
    case True
    then show ?thesis by (simp add: dorme_bene_def)
  next
    case False
    have "i < length (g_proc (sch y))" "state (g_proc (sch y) ! i) = PROC_BLOCKED" "pid (g_proc s' ! i) = pid (g_proc (sch y) ! i)"
      using i b False by (auto simp: blocks_only_def)
    then show ?thesis using pinvD(4) [OF inv, of i] False by simp
  qed
  then show ?thesis using kstep_ok [OF st(1) pinvD(1) [OF inv]] pids_ok_blocks_only [OF pinvD(2) [OF inv] b] pinvD(3) [OF inv]
    by (simp add: pinv_def)
qed

lemma pstep_inv: "pstep x x' \<Longrightarrow> pinv x \<Longrightarrow> pinv x'"
  by (induction rule: pstep.induct)
    (simp_all add: pinv_leggi pinv_scrivi pinv_apri pinv_chiudi_lettore pinv_chiudi_scrittore pinv_crea pinv_aggiungi
      pinv_registra pinv_togli pinv_cresci pinv_altro)

lemma psteps_inv: "pstep\<^sup>*\<^sup>* x x' \<Longrightarrow> pinv x \<Longrightarrow> pinv x'"
  by (induction rule: rtranclp_induct) (auto intro: pstep_inv)

text \<open>C15. No wake-up is lost. From a state in which no process is asleep in a pipe, after any interleaving of
  reads, writes, opens, closes, creations, polls, signals, timer ticks and other scheduling steps: a process
  asleep in a read sleeps on a pipe that is open, empty and still has a writer, and is registered with it; a
  process asleep in a write sleeps on a pipe that is open, full and still has a reader, and is registered with it.
  So nobody sleeps when there is something to read, room to write, or nothing more to wait for.\<close>

theorem pipe_no_lost_wakeup:
  assumes "pinv (y0, \<lambda>_. None)" "pstep\<^sup>*\<^sup>* (y0, \<lambda>_. None) (y, d)" "i < length (g_proc (sch y))"
    "state (g_proc (sch y) ! i) = PROC_BLOCKED"
  shows "case d i of None \<Rightarrow> True
    | Some (Lettura h) \<Rightarrow> h < length (pdir y) \<and> p_usata (pdir y ! h) \<and> pipe_content (pdir y ! h) = [] \<and>
        p_scrittori (pdir y ! h) > 0 \<and> pid (g_proc (sch y) ! i) \<in> waiters (p_att_lettori (pdir y ! h))
    | Some (Scrittura h) \<Rightarrow> h < length (pdir y) \<and> p_usata (pdir y ! h) \<and> length (pipe_content (pdir y ! h)) = PIPE_DIM \<and>
        p_lettori (pdir y ! h) > 0 \<and> pid (g_proc (sch y) ! i) \<in> waiters (p_att_scrittori (pdir y ! h))"
proof -
  have "dorme_bene (pdir y) (d i) (pid (g_proc (sch y) ! i))"
    by (rule pinvD(4) [OF psteps_inv [OF assms(2,1)] assms(3,4)])
  then show ?thesis
    by (auto simp: dorme_bene_def attende_lettura_def attende_scrittura_def pipe_content_def split: option.splits lato.splits)
qed

definition psys_corsa :: pipe_sys where
  "psys_corsa = \<lparr>sch = sched_corsa, pdir = [pipe_esempio], pdir_posti = 16\<rparr>"

lemma pinv_corsa: "pinv (psys_corsa, \<lambda>_. None)"
proof -
  have "cur_used sched_esempio" by (simp add: cur_used_def sched_esempio_def g_current_def)
  then have "blocks_only {} sched_esempio sched_corsa"
    unfolding sched_corsa_def by (intro blocks_only_yield [OF sched_ok_esempio])
  then have "pids_ok sched_corsa" by (rule pids_ok_blocks_only [OF pids_ok_esempio])
  then show ?thesis using sched_corsa_ok pipe_esempio_ok(1) by (simp add: pinv_def psys_corsa_def dorme_bene_def)
qed

lemma leggi_corsa:
  "pipe_leggi_giro 0 5 False psys_corsa =
     (Dormi, (pipe_agg 0 (\<lambda>p. p\<lparr>p_att_lettori := \<lparr>uno = 2, altri = [], n_altri = 0\<rparr>\<rparr>) psys_corsa)
        \<lparr>sch := sched_block PROC_BLOCKED sched_corsa\<rparr>)"
  by (simp add: pipe_leggi_giro_def psys_corsa_def pipe_da_handle_def pipe_esempio_def pipe_nuova_def pipe_zero_def
      attese_scorda_def proc_get_current_def sched_corsa_sel [unfolded One_nat_def] attese_metti_def attese_c_e_def)

theorem pipe_no_lost_wakeup_witness:
  "state (g_proc (sch (snd (pipe_leggi_giro 0 5 False psys_corsa))) ! 1) = PROC_BLOCKED \<and>
   p_scrittori (pdir (snd (pipe_leggi_giro 0 5 False psys_corsa)) ! 0) > 0 \<and>
   pid (g_proc (sch (snd (pipe_leggi_giro 0 5 False psys_corsa))) ! 1)
     \<in> waiters (p_att_lettori (pdir (snd (pipe_leggi_giro 0 5 False psys_corsa)) ! 0))"
proof -
  let ?y = "snd (pipe_leggi_giro 0 5 False psys_corsa)"
  have c: "in_corso psys_corsa 1" by (simp add: in_corso_def psys_corsa_def sched_corsa_sel [unfolded One_nat_def])
  have g: "pipe_leggi_giro 0 5 False psys_corsa = (Dormi, ?y)" by (simp add: leggi_corsa)
  have "pstep (psys_corsa, \<lambda>_. None) (?y, [1 \<mapsto> Lettura 0])"
    using pstep.leggi [OF c g, of "\<lambda>_. None"] by simp
  then have st: "pstep\<^sup>*\<^sup>* (psys_corsa, \<lambda>_. None) (?y, [1 \<mapsto> Lettura 0])" by (rule r_into_rtranclp)
  have b: "state (g_proc (sch ?y) ! 1) = PROC_BLOCKED"
    using sched_block_effect [OF sched_corsa_ok sched_corsa_sel(1), of PROC_BLOCKED] by (simp add: sched_corsa_sel [unfolded One_nat_def] leggi_corsa)
  have "1 < length (g_proc (sch ?y))"
    using sched_ok_currentD [OF sched_corsa_ok sched_corsa_sel(1)] by (simp add: leggi_corsa sched_block_length)
  from pipe_no_lost_wakeup [OF pinv_corsa st this b] show ?thesis using b by simp
qed

section \<open>Creation\<close>

lemma pipe_crea_cerca_None: "pipe_crea_cerca dir = None \<longleftrightarrow> (\<forall>h < length dir. p_usata (dir ! h))"
proof (cases "find (\<lambda>h. \<not> p_usata (dir ! h)) [0..<length dir]")
  case None
  then show ?thesis by (simp add: pipe_crea_cerca_def) (auto simp: find_None_iff)
next
  case (Some h)
  then show ?thesis using find_SomeD [OF Some] by (auto simp: pipe_crea_cerca_def)
qed

lemma find_append_one: "(\<And>x. x \<in> set xs \<Longrightarrow> \<not> P x) \<Longrightarrow> P z \<Longrightarrow> find P (xs @ [z]) = Some z"
  by (induction xs) auto

lemma pipe_crea_cerca_new:
  assumes "\<forall>h < length dir. p_usata (dir ! h)"
  shows "pipe_crea_cerca (dir @ [pipe_zero b]) = Some (length dir, dir @ [pipe_nuova (pipe_zero b)])"
proof -
  have "find (\<lambda>h. \<not> p_usata ((dir @ [pipe_zero b]) ! h)) ([0..<length dir] @ [length dir]) = Some (length dir)"
    by (rule find_append_one) (use assms in \<open>auto simp: nth_append pipe_zero_def\<close>)
  then show ?thesis by (simp add: pipe_crea_cerca_def)
qed

text \<open>Creating a pipe ends after at most one allocation, and fails only for lack of memory: while the
  allocator answers, the call returns the handle of a pipe nobody was using, empty, with one reader, one writer
  and no waiters, and leaves every other pipe as it was; when the pipes are all in use and the allocator refuses, it
  is ENFILE and nothing changes.\<close>

theorem pipe_crea_fresh:
  assumes "length dir \<le> room"
  shows "(\<exists>h dir' room'. pipe_crea [(Some b, True)] (dir, room) = (Some (Inr h), dir', room') \<and>
      h < length dir' \<and> length dir' \<le> room' \<and> (h < length dir \<longrightarrow> \<not> p_usata (dir ! h)) \<and>
      p_usata (dir' ! h) \<and> p_lettori (dir' ! h) = 1 \<and> p_scrittori (dir' ! h) = 1 \<and> pipe_content (dir' ! h) = [] \<and>
      waiters (p_att_lettori (dir' ! h)) = {} \<and> waiters (p_att_scrittori (dir' ! h)) = {} \<and>
      (\<forall>j < length dir. j \<noteq> h \<longrightarrow> dir' ! j = dir ! j)) \<and>
    ((\<forall>h < length dir. p_usata (dir ! h)) \<longrightarrow> pipe_crea [(None, m)] (dir, room) = (Some (Inl ENFILE), dir, room))"
proof (intro conjI impI)
  have new: "p_usata (pipe_nuova p) \<and> p_lettori (pipe_nuova p) = 1 \<and> p_scrittori (pipe_nuova p) = 1 \<and>
      pipe_content (pipe_nuova p) = [] \<and> waiters (p_att_lettori (pipe_nuova p)) = {} \<and>
      waiters (p_att_scrittori (pipe_nuova p)) = {}" for p
    by (simp add: pipe_nuova_def pipe_content_def attese_scorda_def waiters_def)
  show "\<exists>h dir' room'. pipe_crea [(Some b, True)] (dir, room) = (Some (Inr h), dir', room') \<and>
      h < length dir' \<and> length dir' \<le> room' \<and> (h < length dir \<longrightarrow> \<not> p_usata (dir ! h)) \<and>
      p_usata (dir' ! h) \<and> p_lettori (dir' ! h) = 1 \<and> p_scrittori (dir' ! h) = 1 \<and> pipe_content (dir' ! h) = [] \<and>
      waiters (p_att_lettori (dir' ! h)) = {} \<and> waiters (p_att_scrittori (dir' ! h)) = {} \<and>
      (\<forall>j < length dir. j \<noteq> h \<longrightarrow> dir' ! j = dir ! j)"
  proof (cases "pipe_crea_cerca dir")
    case (Some r)
    obtain h dir' where r: "pipe_crea_cerca dir = Some (h, dir')" using Some by (cases r) simp
    note c = pipe_crea_cerca_Some [OF r]
    show ?thesis
      by (rule exI [of _ h], rule exI [of _ dir'], rule exI [of _ room]) (use c r new assms in \<open>auto simp: nth_list_update\<close>)
  next
    case None
    then have u: "\<forall>h < length dir. p_usata (dir ! h)" by (simp add: pipe_crea_cerca_None)
    define room' where "room' = (if length dir \<ge> room then (if room \<noteq> 0 then room * 2 else 16) else room)"
    have lt: "length dir < room'" using assms by (auto simp: room'_def)
    have a: "pipe_crea_aggiungi (Some b) True (dir, room) = Some (dir @ [pipe_zero b], room')"
      unfolding pipe_crea_aggiungi_def Let_def prod.case option.case room'_def [symmetric] using lt by simp
    show ?thesis
      by (rule exI [of _ "length dir"], rule exI [of _ "dir @ [pipe_nuova (pipe_zero b)]"], rule exI [of _ room'])
        (use None a pipe_crea_cerca_new [OF u, of b] lt new in \<open>auto simp: nth_append\<close>)
  qed
  assume "\<forall>h < length dir. p_usata (dir ! h)"
  then show "pipe_crea [(None, m)] (dir, room) = (Some (Inl ENFILE), dir, room)"
    using pipe_crea_cerca_None [of dir] by (simp add: pipe_crea_aggiungi_def)
qed

theorem pipe_crea_fresh_witness:
  "\<exists>h dir' room'. pipe_crea [(Some [], True)] ([pipe_esempio], 1) = (Some (Inr h), dir', room') \<and> h < length dir' \<and>
     dir' ! 0 = pipe_esempio"
proof -
  have "length [pipe_esempio] \<le> 1" by simp
  from pipe_crea_fresh [OF this, of "[]"] obtain h dir' room' where
    c: "pipe_crea [(Some [], True)] ([pipe_esempio], 1) = (Some (Inr h), dir', room')" "h < length dir'"
    "h < length [pipe_esempio] \<longrightarrow> \<not> p_usata ([pipe_esempio] ! h)" "\<forall>j < length [pipe_esempio]. j \<noteq> h \<longrightarrow> dir' ! j = [pipe_esempio] ! j"
    by blast
  then have "h \<noteq> 0" by (auto simp: pipe_esempio_def pipe_nuova_def)
  then show ?thesis using c by auto
qed

end
