(* ===== verification/Ipc.thy ===== *)
theory Ipc
  imports Attese
begin

text \<open>
  The messages of \<^verbatim>\<open>kernel/ipc/ipc.c\<close>: the mailbox of each process, the line of the senders in front of a full
  mailbox, the turns of the loops of \<^verbatim>\<open>ipc_send\<close> and \<^verbatim>\<open>ipc_recv_timeout\<close>, the interrupt notifications and the
  registry of the service names. Shown: a mailbox is a bounded FIFO, the line is a list served from the front, what
  is sent is what is received, and the registry gives a name to at most one living process.
\<close>

section \<open>Constants and state\<close>

abbreviation IPC_MSG_MAX_DATA :: nat where "IPC_MSG_MAX_DATA \<equiv> 1536"
abbreviation IPC_MAILBOX_DEPTH :: nat where "IPC_MAILBOX_DEPTH \<equiv> 4"
abbreviation IPC_NAME_LEN :: nat where "IPC_NAME_LEN \<equiv> 16"
abbreviation IPC_NOMI_MAX :: nat where "IPC_NOMI_MAX \<equiv> 128"
abbreviation IPC_SEND_ATTESA_TICK :: u32 where "IPC_SEND_ATTESA_TICK \<equiv> 1000"
abbreviation IPC_SENZA_ATTESA :: u32 where "IPC_SENZA_ATTESA \<equiv> 0x80000000"
abbreviation IPC_SENDER_KERNEL :: u32 where "IPC_SENDER_KERNEL \<equiv> 0"
abbreviation IPC_TYPE_IRQ_NOTIFY :: u32 where "IPC_TYPE_IRQ_NOTIFY \<equiv> 0xFFFFFFFF"

section \<open>The line\<close>

definition fila_togli :: "nat \<Rightarrow> sched \<Rightarrow> sched" where
  "fila_togli w s =
     (case ipc_fila_su (g_proc s ! w) of
        None \<Rightarrow> s
      | Some d \<Rightarrow>
          (let prima = ipc_fila_prima (g_proc s ! w); dopo = ipc_fila_dopo (g_proc s ! w);
               s1 = (case prima of
                       Some p \<Rightarrow> proc_upd p (\<lambda>q. q\<lparr>ipc_fila_dopo := dopo\<rparr>) s
                     | None \<Rightarrow> proc_upd d (\<lambda>q. q\<lparr>ipc_fila_testa := dopo\<rparr>) s);
               s2 = (case dopo of
                       Some p \<Rightarrow> proc_upd p (\<lambda>q. q\<lparr>ipc_fila_prima := prima\<rparr>) s1
                     | None \<Rightarrow> proc_upd d (\<lambda>q. q\<lparr>ipc_fila_coda := prima\<rparr>) s1);
               s3 = (if ipc_fila_concesso (g_proc s ! w) \<and> ipc_riservati (g_proc s2 ! d) > 0
                     then proc_upd d (\<lambda>q. q\<lparr>ipc_riservati := ipc_riservati q - 1\<rparr>) s2 else s2)
           in proc_upd w (\<lambda>q. q\<lparr>ipc_fila_su := None, ipc_fila_prima := None, ipc_fila_dopo := None,
                               ipc_fila_concesso := False\<rparr>) s3))"

definition fila_metti :: "nat \<Rightarrow> nat \<Rightarrow> sched \<Rightarrow> sched" where
  "fila_metti d w s =
     (let coda = ipc_fila_coda (g_proc s ! d);
          s1 = proc_upd w (\<lambda>q. q\<lparr>ipc_fila_su := Some d, ipc_fila_dopo := None, ipc_fila_prima := coda,
                               ipc_fila_concesso := False\<rparr>) s;
          s2 = (case coda of
                  Some c \<Rightarrow> proc_upd c (\<lambda>q. q\<lparr>ipc_fila_dopo := Some w\<rparr>) s1
                | None \<Rightarrow> proc_upd d (\<lambda>q. q\<lparr>ipc_fila_testa := Some w\<rparr>) s1)
      in proc_upd d (\<lambda>q. q\<lparr>ipc_fila_coda := Some w\<rparr>) s2)"

text \<open>The walk of \<^verbatim>\<open>fila_avanza\<close>; the fuel is the number of processes, and a line holds none twice.\<close>

fun fila_avanza_da :: "nat \<Rightarrow> nat \<Rightarrow> nat option \<Rightarrow> sched \<Rightarrow> sched" where
  "fila_avanza_da 0 d wo s = s"
| "fila_avanza_da (Suc n) d wo s =
     (case wo of None \<Rightarrow> s
      | Some w \<Rightarrow>
          (let sveglia = (\<lambda>s. if state (g_proc s ! w) = PROC_BLOCKED then sched_unblock_locked (pid (g_proc s ! w)) s else s)
           in if ipc_fila_concesso (g_proc s ! w) then
                (let s1 = sveglia s in fila_avanza_da n d (ipc_fila_dopo (g_proc s1 ! w)) s1)
              else if ipc_count (g_proc s ! d) + ipc_riservati (g_proc s ! d) \<ge> IPC_MAILBOX_DEPTH then s
              else
                (let s1 = sveglia (proc_upd d (\<lambda>q. q\<lparr>ipc_riservati := ipc_riservati q + 1\<rparr>)
                                    (proc_upd w (\<lambda>q. q\<lparr>ipc_fila_concesso := True\<rparr>) s))
                 in fila_avanza_da n d (ipc_fila_dopo (g_proc s1 ! w)) s1)))"

definition fila_avanza :: "nat \<Rightarrow> sched \<Rightarrow> sched" where
  "fila_avanza d s = fila_avanza_da (length (g_proc s)) d (ipc_fila_testa (g_proc s ! d)) s"

text \<open>The end of a process: it leaves the line it was in, and whoever was in line in front of it is sent away
  awake. The loop ends because every turn shortens the line; the fuel is the number of processes.\<close>

fun fila_sciogli :: "nat \<Rightarrow> nat \<Rightarrow> sched \<Rightarrow> sched" where
  "fila_sciogli 0 p s = s"
| "fila_sciogli (Suc n) p s =
     (case ipc_fila_testa (g_proc s ! p) of None \<Rightarrow> s
      | Some w \<Rightarrow>
          (let s1 = fila_togli w s;
               s2 = (if state (g_proc s1 ! w) = PROC_BLOCKED then sched_unblock_locked (pid (g_proc s1 ! w)) s1 else s1)
           in fila_sciogli n p s2))"

definition ipc_processo_finito :: "nat \<Rightarrow> sched \<Rightarrow> sched" where
  "ipc_processo_finito p s =
     (let s1 = (case ipc_fila_su (g_proc s ! p) of None \<Rightarrow> s | Some d \<Rightarrow> fila_avanza d (fila_togli p s));
          s2 = fila_sciogli (length (g_proc s)) p s1
      in proc_upd p (\<lambda>q. q\<lparr>ipc_riservati := 0\<rparr>) s2)"

section \<open>Delivering and taking\<close>

text \<open>Writing the slot at the tail. Without data (a null pointer) the bytes of the slot stay what they were.\<close>

definition slot_scrivi :: "u32 \<Rightarrow> u32 \<Rightarrow> nat \<Rightarrow> u8 list option \<Rightarrow> ipc_message \<Rightarrow> ipc_message" where
  "slot_scrivi mittente t l d m =
     m\<lparr>sender_pid := mittente, tipo := t, len := l,
       data := (case d of Some bs \<Rightarrow> take l bs @ drop l (data m) | None \<Rightarrow> data m)\<rparr>"

definition mailbox_metti :: "(ipc_message \<Rightarrow> ipc_message) \<Rightarrow> process \<Rightarrow> process" where
  "mailbox_metti f p =
     p\<lparr>ipc_mailbox := (ipc_mailbox p)[ipc_tail p := f (ipc_mailbox p ! ipc_tail p)],
       ipc_tail := (ipc_tail p + 1) mod IPC_MAILBOX_DEPTH, ipc_count := ipc_count p + 1\<rparr>"

definition mailbox_togli :: "process \<Rightarrow> ipc_message \<times> process" where
  "mailbox_togli p =
     (ipc_mailbox p ! ipc_head p,
      p\<lparr>ipc_head := (ipc_head p + 1) mod IPC_MAILBOX_DEPTH, ipc_count := ipc_count p - 1\<rparr>)"

definition vivo :: "process \<Rightarrow> bool" where
  "vivo p \<longleftrightarrow> state p \<noteq> PROC_UNUSED \<and> state p \<noteq> PROC_ZOMBIE"

definition u32_bytes :: "u32 \<Rightarrow> u8 list" where
  "u32_bytes w = map (\<lambda>i. ucast (drop_bit (8 * i) w)) [0, 1, 2, 3]"

definition ipc_notify_irq :: "u32 \<Rightarrow> u8 \<Rightarrow> sched \<Rightarrow> bool \<times> sched" where
  "ipc_notify_irq dest_pid irq s =
     (case proc_get_by_pid dest_pid s of None \<Rightarrow> (False, s)
      | Some d \<Rightarrow>
          (if \<not> vivo (g_proc s ! d) then (False, s)
           else if ipc_count (g_proc s ! d) < IPC_MAILBOX_DEPTH then
             (let s1 = proc_upd d (mailbox_metti (slot_scrivi IPC_SENDER_KERNEL IPC_TYPE_IRQ_NOTIFY 4 (Some (u32_bytes (ucast irq))))) s
              in (True, if state (g_proc s1 ! d) = PROC_BLOCKED then sched_unblock_locked dest_pid s1 else s1))
           else (False, s)))"

section \<open>Sending\<close>

text \<open>The values \<^verbatim>\<open>ipc_send\<close> computes before its loop: the length cut to the slot, whether to wait, the
  type without that bit, and the deadline.\<close>

definition ipc_send_len :: "nat \<Rightarrow> nat" where
  "ipc_send_len l = (if l > IPC_MSG_MAX_DATA then IPC_MSG_MAX_DATA else l)"

definition ipc_send_scadenza :: "u32 \<Rightarrow> u32" where
  "ipc_send_scadenza ticks = (if ticks + IPC_SEND_ATTESA_TICK = 0 then 1 else ticks + IPC_SEND_ATTESA_TICK)"

definition esci_dalla_fila :: "nat \<Rightarrow> sched \<Rightarrow> sched" where
  "esci_dalla_fila self s =
     (case ipc_fila_su (g_proc s ! self) of None \<Rightarrow> fila_togli self s | Some d \<Rightarrow> fila_avanza d (fila_togli self s))"

definition ipc_posto :: "bool \<Rightarrow> nat \<Rightarrow> nat \<Rightarrow> sched \<Rightarrow> bool" where
  "ipc_posto senza self d s =
     (let me = g_proc s ! self; dest = g_proc s ! d in
      if senza then ipc_count dest < IPC_MAILBOX_DEPTH
      else if ipc_fila_su me = Some d then ipc_fila_concesso me \<and> ipc_count dest < IPC_MAILBOX_DEPTH
      else ipc_fila_testa dest = None \<and> ipc_count dest + ipc_riservati dest < IPC_MAILBOX_DEPTH)"

text \<open>One turn of the loop. \<open>t\<close> is the type the caller passed, \<open>scadenza\<close> its deadline.\<close>

definition ipc_send_giro ::
  "nat \<Rightarrow> u32 \<Rightarrow> u32 \<Rightarrow> nat \<Rightarrow> u8 list option \<Rightarrow> u32 \<Rightarrow> sched \<Rightarrow> (errno + unit) giro \<times> sched" where
  "ipc_send_giro self dest_pid t l d scadenza s =
     (let senza = (t AND IPC_SENZA_ATTESA \<noteq> 0) in
      case (case proc_get_by_pid dest_pid s of None \<Rightarrow> None
            | Some k \<Rightarrow> if vivo (g_proc s ! k) then Some k else None) of
        None \<Rightarrow> (Ritorna (Inl ESRCH), esci_dalla_fila self s)
      | Some k \<Rightarrow>
          if ipc_posto senza self k s then
            (let s1 = (if ipc_fila_su (g_proc s ! self) = Some k then fila_togli self s else s);
                 s2 = proc_upd k (mailbox_metti (slot_scrivi (pid (g_proc s ! self)) (t AND NOT IPC_SENZA_ATTESA) (ipc_send_len l) d)) s1
             in (Ritorna (Inr ()), if state (g_proc s2 ! k) = PROC_BLOCKED then sched_unblock_locked dest_pid s2 else s2))
          else if senza then (Ritorna (Inl EBUSY), s)
          else if g_ticks s \<ge> scadenza then (Ritorna (Inl EBUSY), esci_dalla_fila self s)
          else
            (let s1 = (if ipc_fila_su (g_proc s ! self) \<noteq> Some k then fila_metti k self (esci_dalla_fila self s) else s)
             in (Dormi, sched_block PROC_BLOCKED (proc_upd self (\<lambda>p. p\<lparr>block_until := scadenza\<rparr>) s1))))"

section \<open>Receiving\<close>

definition ipc_recv_scadenza :: "u32 \<Rightarrow> u32 \<Rightarrow> u32" where
  "ipc_recv_scadenza ms ticks =
     (if ms > 0 then
        (let t0 = (ms + 9) div 10; t = (if t0 = 0 then 1 else t0); x = ticks + t in if x = 0 then 1 else x)
      else 0)"

text \<open>One turn of \<^verbatim>\<open>ipc_recv_timeout\<close>: the header of the message and the bytes copied out.\<close>

definition ipc_recv_giro ::
  "nat \<Rightarrow> nat \<Rightarrow> u32 \<Rightarrow> sched \<Rightarrow> (errno + (u32 \<times> u32 \<times> nat \<times> u8 list)) giro \<times> sched" where
  "ipc_recv_giro self buf_len scadenza s =
     (if ipc_count (g_proc s ! self) > 0 then
        (case mailbox_togli (g_proc s ! self) of
           (m, p1) \<Rightarrow>
             (let s1 = proc_upd self (\<lambda>_. p1\<lparr>block_until := 0\<rparr>) s;
                  s2 = (if ipc_fila_testa (g_proc s1 ! self) \<noteq> None then fila_avanza self s1 else s1)
              in (Ritorna (Inr (sender_pid m, tipo m, len m, take (min (len m) buf_len) (data m))), s2)))
      else if scadenza \<noteq> 0 \<and> g_ticks s \<ge> scadenza then
        (Ritorna (Inl ETIMEDOUT), proc_upd self (\<lambda>p. p\<lparr>block_until := 0\<rparr>) s)
      else (Dormi, sched_block PROC_BLOCKED (proc_upd self (\<lambda>p. p\<lparr>block_until := scadenza\<rparr>) s)))"

section \<open>The names\<close>

text \<open>An entry of the table of the names; \<^verbatim>\<open>nome\<close> is the buffer of \<^verbatim>\<open>IPC_NAME_LEN\<close> bytes.\<close>

record ipc_nome =
  n_pid :: u32
  nome :: "u8 list"

record ipc_sys =
  isch :: sched
  g_nomi :: "ipc_nome list"

text \<open>The loop compares at most \<^verbatim>\<open>IPC_NAME_LEN\<close> bytes and stops at a terminator of both.\<close>

fun nome_uguale_da :: "nat \<Rightarrow> u8 list \<Rightarrow> u8 list \<Rightarrow> bool" where
  "nome_uguale_da 0 a b = True"
| "nome_uguale_da (Suc n) a b =
     (if hd a \<noteq> hd b then False else if hd a = 0 then True else nome_uguale_da n (tl a) (tl b))"

definition nome_uguale :: "u8 list \<Rightarrow> u8 list \<Rightarrow> bool" where
  "nome_uguale = nome_uguale_da IPC_NAME_LEN"

definition voce_viva :: "sched \<Rightarrow> ipc_nome \<Rightarrow> bool" where
  "voce_viva s v =
     (if n_pid v = 0 then False
      else case proc_get_by_pid (n_pid v) s of None \<Rightarrow> False | Some i \<Rightarrow> vivo (g_proc s ! i))"

text \<open>A name the program passes: the bytes up to and including the terminator. \<open>lunghezza\<close> is the counting loop,
  which stops at \<^verbatim>\<open>IPC_NAME_LEN - 1\<close>.\<close>

fun lunghezza :: "nat \<Rightarrow> u8 list \<Rightarrow> nat" where
  "lunghezza 0 a = 0"
| "lunghezza (Suc n) a = (if a = [] \<or> hd a = 0 then 0 else Suc (lunghezza n (tl a)))"

text \<open>The decimal digits of the uid, as the loop produces them (last first) and reverses them.\<close>

fun cifre_rov :: "nat \<Rightarrow> u8 list" where
  "cifre_rov v = (if v = 0 then [] else of_nat (48 + v mod 10) # cifre_rov (v div 10))"

declare cifre_rov.simps [simp del]

definition atteso :: "u32 \<Rightarrow> u8 list" where
  "atteso u = rev (cifre_rov (unat u)) @ [58]"

fun copia_nome :: "nat \<Rightarrow> u8 list \<Rightarrow> u8 list \<Rightarrow> u8 list" where
  "copia_nome 0 new old = old"
| "copia_nome (Suc n) new old =
     (if hd new = 0 then 0 # tl old else hd new # copia_nome n (tl new) (tl old))"

definition ipc_register :: "u8 list option \<Rightarrow> ipc_sys \<Rightarrow> (errno + unit) \<times> ipc_sys" where
  "ipc_register name y =
     (case name of None \<Rightarrow> (Inl EINVAL, y)
      | Some nm \<Rightarrow>
          if hd nm = 0 then (Inl EINVAL, y)
          else if nm ! lunghezza (IPC_NAME_LEN - 1) nm \<noteq> 0 then (Inl EINVAL, y)
          else if list_ex (\<lambda>v. voce_viva (isch y) v \<and> nome_uguale (nome v) nm) (g_nomi y) then (Inl EEXIST, y)
          else
            (let self = map_option (\<lambda>i. g_proc (isch y) ! i) (proc_get_current (isch y)) in
             if (case self of None \<Rightarrow> False | Some p \<Rightarrow> uid p \<noteq> 0 \<and> take (length (atteso (uid p))) nm \<noteq> atteso (uid p))
             then (Inl EPERM, y)
             else (case find (\<lambda>i. \<not> voce_viva (isch y) (g_nomi y ! i)) [0..<length (g_nomi y)] of
                     None \<Rightarrow> (Inl ENOSPC, y)
                   | Some i \<Rightarrow>
                       (Inr (), y\<lparr>g_nomi := (g_nomi y)[i :=
                          \<lparr>n_pid = (case self of None \<Rightarrow> 0 | Some p \<Rightarrow> pid p),
                           nome = copia_nome IPC_NAME_LEN nm (nome (g_nomi y ! i))\<rparr>]\<rparr>))))"

text \<open>The source returns the pid and the errors in one signed number; here they are apart.\<close>

definition ipc_lookup :: "u8 list option \<Rightarrow> ipc_sys \<Rightarrow> errno + u32" where
  "ipc_lookup name y =
     (case name of None \<Rightarrow> Inl EINVAL
      | Some nm \<Rightarrow>
          if hd nm = 0 then Inl EINVAL
          else (case find (\<lambda>v. voce_viva (isch y) v \<and> nome_uguale (nome v) nm) (g_nomi y) of
                  None \<Rightarrow> Inl ENOENT
                | Some v \<Rightarrow> Inr (n_pid v)))"

definition ipc_cleanup_process :: "u32 \<Rightarrow> ipc_sys \<Rightarrow> ipc_sys" where
  "ipc_cleanup_process k y =
     (let s = isch y; chi = find (\<lambda>i. pid (g_proc s ! i) = k) [0..<length (g_proc s)];
          s1 = (case chi of None \<Rightarrow> s | Some i \<Rightarrow> ipc_processo_finito i s);
          s2 = (case chi of None \<Rightarrow> s1 | Some i \<Rightarrow> proc_upd i (\<lambda>p. p\<lparr>ipc_head := 0, ipc_tail := 0, ipc_count := 0\<rparr>) s1)
      in y\<lparr>isch := s2, g_nomi := map (\<lambda>v. if n_pid v = k then v\<lparr>n_pid := 0\<rparr> else v) (g_nomi y)\<rparr>)"

section \<open>A mailbox is a bounded FIFO\<close>

definition mb_ok :: "process \<Rightarrow> bool" where
  "mb_ok p \<longleftrightarrow> length (ipc_mailbox p) = IPC_MAILBOX_DEPTH \<and> ipc_head p < IPC_MAILBOX_DEPTH \<and>
     ipc_count p \<le> IPC_MAILBOX_DEPTH \<and> ipc_tail p = (ipc_head p + ipc_count p) mod IPC_MAILBOX_DEPTH \<and>
     (\<forall>m \<in> set (ipc_mailbox p). length (data m) = IPC_MSG_MAX_DATA)"

definition mb_content :: "process \<Rightarrow> ipc_message list" where
  "mb_content p = ring_read (ipc_mailbox p) (ipc_head p) (ipc_count p)"

lemma length_mb_content [simp]: "length (mb_content p) = ipc_count p"
  by (simp add: mb_content_def)

lemma mailbox_metti_content:
  assumes ok: "mb_ok p" and room: "ipc_count p < IPC_MAILBOX_DEPTH"
  shows "mb_content (mailbox_metti f p) = mb_content p @ [f (ipc_mailbox p ! ipc_tail p)]"
proof -
  let ?x = "f (ipc_mailbox p ! ipc_tail p)"
  have len: "length (ipc_mailbox p) = IPC_MAILBOX_DEPTH" and t: "ipc_tail p = (ipc_head p + ipc_count p) mod length (ipc_mailbox p)"
    using ok by (auto simp: mb_ok_def)
  have "mb_content (mailbox_metti f p) = ring_read ((ipc_mailbox p)[ipc_tail p := ?x]) (ipc_head p) (Suc (ipc_count p))"
    by (simp add: mb_content_def mailbox_metti_def)
  also have "\<dots> = mb_content p @ [?x]"
    unfolding mb_content_def by (subst t, rule ring_read_snoc) (use room len in simp)
  finally show ?thesis .
qed

lemma mailbox_metti_ok:
  assumes "mb_ok p" "ipc_count p < IPC_MAILBOX_DEPTH" "\<And>m. length (data m) = IPC_MSG_MAX_DATA \<Longrightarrow> length (data (f m)) = IPC_MSG_MAX_DATA"
  shows "mb_ok (mailbox_metti f p)"
proof -
  have t: "ipc_tail p < length (ipc_mailbox p)" using assms(1) by (simp add: mb_ok_def)
  have "\<forall>m \<in> set ((ipc_mailbox p)[ipc_tail p := f (ipc_mailbox p ! ipc_tail p)]). length (data m) = IPC_MSG_MAX_DATA"
    using assms(1,3) nth_mem [OF t] set_update_subset_insert by (fastforce simp: mb_ok_def)
  moreover have "(ipc_tail p + 1) mod IPC_MAILBOX_DEPTH = (ipc_head p + (ipc_count p + 1)) mod IPC_MAILBOX_DEPTH"
    using assms(1) by (simp add: mb_ok_def mod_Suc_eq)
  ultimately show ?thesis using assms(1,2) by (simp add: mb_ok_def mailbox_metti_def)
qed

lemma mailbox_togli_content:
  assumes ok: "mb_ok p" and some: "0 < ipc_count p"
  shows "mb_content p = fst (mailbox_togli p) # mb_content (snd (mailbox_togli p))" "mb_ok (snd (mailbox_togli p))"
proof -
  have len: "length (ipc_mailbox p) = IPC_MAILBOX_DEPTH" "ipc_head p < IPC_MAILBOX_DEPTH" using ok by (auto simp: mb_ok_def)
  have hd: "mb_content p \<noteq> []" using some by (metis length_mb_content less_numeral_extra(3) list.size(3))
  have 1: "mb_content (snd (mailbox_togli p)) = drop 1 (mb_content p)"
    unfolding mb_content_def drop_ring_read using ring_read_mod [of "ipc_mailbox p" "ipc_head p + 1"] len
    by (simp add: mailbox_togli_def)
  have "mb_content p ! 0 = ipc_mailbox p ! ipc_head p"
    using some len by (simp add: mb_content_def ring_read_def)
  then have 2: "hd (mb_content p) = fst (mailbox_togli p)" using hd by (simp add: hd_conv_nth mailbox_togli_def)
  have "drop 1 (mb_content p) = tl (mb_content p)" by (cases "mb_content p") simp_all
  then show "mb_content p = fst (mailbox_togli p) # mb_content (snd (mailbox_togli p))"
    using 1 2 hd by (cases "mb_content p") simp_all
  have "(ipc_head p + ipc_count p) mod IPC_MAILBOX_DEPTH =
      ((ipc_head p + 1) mod IPC_MAILBOX_DEPTH + (ipc_count p - 1)) mod IPC_MAILBOX_DEPTH"
    using some by (cases "ipc_count p") (simp_all add: mod_add_left_eq)
  then show "mb_ok (snd (mailbox_togli p))" using ok some by (auto simp: mb_ok_def mailbox_togli_def)
qed

section \<open>What the line leaves alone\<close>

text \<open>The part of a process the line does not touch.\<close>

definition mbox_of :: "process \<Rightarrow> ipc_message list \<times> nat \<times> nat \<times> nat \<times> u32" where
  "mbox_of p = (ipc_mailbox p, ipc_head p, ipc_tail p, ipc_count p, pid p)"

lemma mbox_of_upd:
  assumes "\<And>p. mbox_of (f p) = mbox_of p"
  shows "mbox_of (g_proc (proc_upd i f s) ! j) = mbox_of (g_proc s ! j)"
  by (rule proc_upd_proj) (rule assms)

lemma mbox_of_unblock: "mbox_of (g_proc (sched_unblock_locked k s) ! j) = mbox_of (g_proc s ! j)"
  by (auto simp: sched_unblock_locked_def mbox_of_def proc_upd_nth split: option.split)

lemma mbox_of_fila_togli: "mbox_of (g_proc (fila_togli w s) ! j) = mbox_of (g_proc s ! j)"
proof -
  have u: "mbox_of (q\<lparr>ipc_fila_dopo := a\<rparr>) = mbox_of q" "mbox_of (q\<lparr>ipc_fila_testa := a\<rparr>) = mbox_of q"
    "mbox_of (q\<lparr>ipc_fila_prima := a\<rparr>) = mbox_of q" "mbox_of (q\<lparr>ipc_fila_coda := a\<rparr>) = mbox_of q"
    "mbox_of (q\<lparr>ipc_riservati := b\<rparr>) = mbox_of q"
    "mbox_of (q\<lparr>ipc_fila_su := a, ipc_fila_prima := a', ipc_fila_dopo := a'', ipc_fila_concesso := x\<rparr>) = mbox_of q"
    for q a b a' a'' x by (simp_all add: mbox_of_def)
  show ?thesis by (simp add: fila_togli_def Let_def mbox_of_upd u split: option.split)
qed

lemma mb_of_eq:
  assumes "mbox_of p = mbox_of q" shows "mb_content p = mb_content q" "mb_ok p = mb_ok q" "pid p = pid q"
  using assms by (simp_all add: mbox_of_def mb_content_def mb_ok_def)

lemma fila_togli_length [simp]: "length (g_proc (fila_togli w s)) = length (g_proc s)"
  by (simp add: fila_togli_def Let_def split: option.split)

lemma slot_scrivi_data:
  assumes "length (data m) = IPC_MSG_MAX_DATA" "l \<le> IPC_MSG_MAX_DATA" "l \<le> length bs"
  shows "length (data (slot_scrivi a t l (Some bs) m)) = IPC_MSG_MAX_DATA"
    "take l (data (slot_scrivi a t l (Some bs) m)) = take l bs"
  using assms by (simp_all add: slot_scrivi_def)

text \<open>C17. A message that was accepted is received as it was sent, after those that were there before. When
  \<^verbatim>\<open>ipc_send\<close> returns success, the mailbox of the receiver holds what it held, in order, followed by one message with
  the sender's pid, the type without the no-wait bit, the length (cut to the slot) and exactly the bytes given.\<close>

theorem ipc_send_delivers:
  assumes "ipc_send_giro self k t l (Some bs) scadenza s = (Ritorna (Inr ()), s')" "l \<le> length bs"
    "proc_get_by_pid k s = Some d" "mb_ok (g_proc s ! d)"
  shows "\<exists>m. mb_content (g_proc s' ! d) = mb_content (g_proc s ! d) @ [m] \<and> mb_ok (g_proc s' ! d) \<and>
    sender_pid m = pid (g_proc s ! self) \<and> tipo m = t AND NOT IPC_SENZA_ATTESA \<and>
    len m = min l IPC_MSG_MAX_DATA \<and> take (len m) (data m) = take (min l IPC_MSG_MAX_DATA) bs"
proof -
  let ?senza = "t AND IPC_SENZA_ATTESA \<noteq> 0" let ?l = "ipc_send_len l"
  let ?f = "slot_scrivi (pid (g_proc s ! self)) (t AND NOT IPC_SENZA_ATTESA) ?l (Some bs)"
  have d: "d < length (g_proc s)" using proc_get_by_pid_Some [OF assms(3)] by simp
  define s1 where "s1 = (if ipc_fila_su (g_proc s ! self) = Some d then fila_togli self s else s)"
  define s2 where "s2 = proc_upd d (mailbox_metti ?f) s1"
  have posto: "ipc_posto ?senza self d s" and
    s': "s' = (if state (g_proc s2 ! d) = PROC_BLOCKED then sched_unblock_locked k s2 else s2)"
    using assms(1,3) unfolding ipc_send_giro_def Let_def s1_def s2_def by (auto split: if_splits)
  have room: "ipc_count (g_proc s ! d) < IPC_MAILBOX_DEPTH"
    using posto by (auto simp: ipc_posto_def Let_def split: if_splits)
  have m1: "mbox_of (g_proc s1 ! d) = mbox_of (g_proc s ! d)" and l1: "length (g_proc s1) = length (g_proc s)"
    by (simp_all add: s1_def mbox_of_fila_togli)
  note eq1 = mb_of_eq [OF m1]
  have c1: "ipc_count (g_proc s1 ! d) = ipc_count (g_proc s ! d)" using m1 by (simp add: mbox_of_def)
  have p2: "g_proc s2 ! d = mailbox_metti ?f (g_proc s1 ! d)" using d l1 by (simp add: s2_def proc_upd_nth)
  have "mbox_of (g_proc s' ! d) = mbox_of (g_proc s2 ! d)" by (simp add: s' mbox_of_unblock)
  note eq2 = mb_of_eq [OF this, unfolded p2]
  define m where "m = ?f (ipc_mailbox (g_proc s1 ! d) ! ipc_tail (g_proc s1 ! d))"
  have ll: "?l = min l IPC_MSG_MAX_DATA" by (simp add: ipc_send_len_def)
  have len: "length (data x) = IPC_MSG_MAX_DATA" if "x = ipc_mailbox (g_proc s1 ! d) ! ipc_tail (g_proc s1 ! d)" for x
    using assms(4) eq1(2) that by (auto simp: mb_ok_def)
  have "mb_content (g_proc s' ! d) = mb_content (g_proc s ! d) @ [m]"
    unfolding eq2(1) m_def using mailbox_metti_content [of "g_proc s1 ! d" ?f] eq1 assms(4) room c1 by simp
  moreover have "mb_ok (g_proc s' ! d)"
    unfolding eq2(2) by (rule mailbox_metti_ok) (use eq1 assms(2,4) room c1 ll in \<open>auto simp: slot_scrivi_data\<close>)
  moreover have "take ?l (data m) = take ?l bs"
    unfolding m_def by (rule slot_scrivi_data(2) [OF len]) (use ll assms(2) in auto)
  ultimately show ?thesis by (intro exI [of _ m]) (simp add: m_def slot_scrivi_def ll)
qed

definition posta_esempio :: sched where
  "posta_esempio = proc_upd 1 (\<lambda>p. p\<lparr>ipc_mailbox :=
     replicate IPC_MAILBOX_DEPTH \<lparr>sender_pid = 0, tipo = 0, len = 0, data = replicate IPC_MSG_MAX_DATA 0\<rparr>\<rparr>) sched_esempio"

lemma posta_esempio_sel:
  "proc_get_by_pid 2 posta_esempio = Some 1" "mb_ok (g_proc posta_esempio ! 1)" "mb_content (g_proc posta_esempio ! 1) = []"
  "pid (g_proc posta_esempio ! 0) = 1"
  "ipc_posto True 0 1 posta_esempio" "vivo (g_proc posta_esempio ! 1)"
  by (simp_all add: posta_esempio_def sched_esempio_def proc_zero_def proc_get_by_pid_def proc_upd_def upt_rec mb_ok_def
      mb_content_def ipc_posto_def vivo_def)

theorem ipc_send_delivers_witness:
  "\<exists>m. mb_content (g_proc (snd (ipc_send_giro 0 2 0x80000005 3 (Some [7, 8, 9]) 1000 posta_esempio)) ! 1) = [m] \<and>
    sender_pid m = 1 \<and> tipo m = 5 \<and> take 3 (data m) = [7, 8, 9]"
proof -
  obtain g s' where e: "ipc_send_giro 0 2 0x80000005 3 (Some [7, 8, 9]) 1000 posta_esempio = (g, s')" by fastforce
  have "g = Ritorna (Inr ())" using e posta_esempio_sel by (simp add: ipc_send_giro_def Let_def)
  then have e': "ipc_send_giro 0 2 0x80000005 3 (Some [7, 8, 9]) 1000 posta_esempio = (Ritorna (Inr ()), s')" using e by simp
  from ipc_send_delivers [OF e' _ posta_esempio_sel(1,2)] obtain m where
    "mb_content (g_proc s' ! 1) = mb_content (g_proc posta_esempio ! 1) @ [m]" "sender_pid m = pid (g_proc posta_esempio ! 0)"
    "tipo m = 0x80000005 AND NOT IPC_SENZA_ATTESA" "len m = min 3 IPC_MSG_MAX_DATA"
    "take (len m) (data m) = take (min 3 IPC_MSG_MAX_DATA) [7, 8, 9]" by auto
  then show ?thesis using e' posta_esempio_sel(3,4) by (intro exI [of _ m]) simp
qed

section \<open>Receiving\<close>

lemma mbox_of_fila_avanza_da: "mbox_of (g_proc (fila_avanza_da n d wo s) ! j) = mbox_of (g_proc s ! j)"
proof (induction n arbitrary: wo s)
  case (Suc n)
  have u: "mbox_of (q\<lparr>ipc_riservati := b\<rparr>) = mbox_of q" "mbox_of (q\<lparr>ipc_fila_concesso := x\<rparr>) = mbox_of q" for q b x
    by (simp_all add: mbox_of_def)
  show ?case
    by (simp add: Let_def Suc.IH mbox_of_upd mbox_of_unblock u split: option.split)
qed simp

lemma mbox_of_fila_avanza: "mbox_of (g_proc (fila_avanza d s) ! j) = mbox_of (g_proc s ! j)"
  by (simp add: fila_avanza_def mbox_of_fila_avanza_da)

text \<open>C18. Receiving takes the oldest message: with a message in the mailbox the call returns its sender, type and
  length and its first bytes (as many as the buffer holds), and the mailbox is left with the others in order. On an
  empty mailbox the call times out exactly when its deadline has passed, and otherwise sleeps.\<close>

theorem ipc_recv_takes_oldest:
  assumes "self < length (g_proc s)" "mb_ok (g_proc s ! self)"
  shows "case mb_content (g_proc s ! self) of
      [] \<Rightarrow> fst (ipc_recv_giro self n scadenza s) =
        (if scadenza \<noteq> 0 \<and> scadenza \<le> g_ticks s then Ritorna (Inl ETIMEDOUT) else Dormi)
    | m # ms \<Rightarrow> fst (ipc_recv_giro self n scadenza s) =
          Ritorna (Inr (sender_pid m, tipo m, len m, take (min (len m) n) (data m))) \<and>
        mb_content (g_proc (snd (ipc_recv_giro self n scadenza s)) ! self) = ms \<and>
        mb_ok (g_proc (snd (ipc_recv_giro self n scadenza s)) ! self)"
proof (cases "ipc_count (g_proc s ! self) = 0")
  case True
  then have "mb_content (g_proc s ! self) = []" by (simp add: mb_content_def)
  then show ?thesis using True by (simp add: ipc_recv_giro_def)
next
  case False
  obtain m p1 where t: "mailbox_togli (g_proc s ! self) = (m, p1)" by fastforce
  have c: "mb_content (g_proc s ! self) = m # mb_content p1" "mb_ok p1"
    using mailbox_togli_content [OF assms(2)] False t by auto
  define s1 where "s1 = proc_upd self (\<lambda>_. p1\<lparr>block_until := 0\<rparr>) s"
  define s2 where "s2 = (if ipc_fila_testa (g_proc s1 ! self) \<noteq> None then fila_avanza self s1 else s1)"
  have g: "ipc_recv_giro self n scadenza s = (Ritorna (Inr (sender_pid m, tipo m, len m, take (min (len m) n) (data m))), s2)"
    using False t unfolding ipc_recv_giro_def Let_def s1_def [symmetric] s2_def [symmetric] by (simp add: s1_def s2_def)
  have "mbox_of (g_proc s2 ! self) = mbox_of (p1\<lparr>block_until := 0\<rparr>)"
    using assms(1) by (simp add: s2_def mbox_of_fila_avanza s1_def proc_upd_nth)
  then have "mbox_of (g_proc s2 ! self) = mbox_of p1" by (simp add: mbox_of_def)
  note e = mb_of_eq [OF this]
  show ?thesis using c g e by simp
qed

theorem ipc_recv_takes_oldest_witness:
  "fst (ipc_recv_giro 1 10 8 posta_esempio) = Ritorna (Inl ETIMEDOUT)"
proof -
  have "1 < length (g_proc posta_esempio)" "g_ticks posta_esempio = 8" by (simp_all add: posta_esempio_def sched_esempio_def)
  then show ?thesis using ipc_recv_takes_oldest [of 1 posta_esempio 10 8] posta_esempio_sel(2,3) by simp
qed

section \<open>The registry of the names\<close>

text \<open>What a name means: its bytes before the terminator, within the first \<open>n\<close>.\<close>

definition chiave :: "nat \<Rightarrow> u8 list \<Rightarrow> u8 list" where
  "chiave n a = takeWhile (\<lambda>b. b \<noteq> 0) (take n a)"

lemma nome_uguale_da_chiave:
  "n \<le> length a \<Longrightarrow> n \<le> length b \<or> 0 \<in> set b \<Longrightarrow> nome_uguale_da n a b \<longleftrightarrow> chiave n a = chiave n b"
proof (induction n arbitrary: a b)
  case (Suc n)
  obtain x a' where a: "a = x # a'" using Suc.prems(1) by (cases a) auto
  obtain y b' where b: "b = y # b'" using Suc.prems(2) by (cases b) auto
  show ?case
  proof (cases "x = y \<and> y \<noteq> 0")
    case True
    then have "nome_uguale_da n a' b' \<longleftrightarrow> chiave n a' = chiave n b'" using Suc.prems a b by (intro Suc.IH) auto
    then show ?thesis using True a b by (simp add: chiave_def)
  qed (use a b in \<open>auto simp: chiave_def\<close>)
qed (simp add: chiave_def)

lemma copia_nome_chiave:
  "n \<le> length old \<Longrightarrow> 0 \<in> set (take n new) \<Longrightarrow> chiave n (copia_nome n new old) = chiave n new"
proof (induction n arbitrary: new old)
  case (Suc n)
  obtain x a where n: "new = x # a" using Suc.prems(2) by (cases new) auto
  obtain y b where o: "old = y # b" using Suc.prems(1) by (cases old) auto
  show ?case
  proof (cases "x = 0")
    case False
    then have "chiave n (copia_nome n a b) = chiave n a" using Suc.prems n o by (intro Suc.IH) auto
    then show ?thesis using False n o by (simp add: chiave_def)
  qed (simp add: n o chiave_def)
qed simp

lemma length_copia_nome: "n \<le> length old \<Longrightarrow> length (copia_nome n new old) = length old"
proof (induction n arbitrary: new old)
  case (Suc n)
  then show ?case by (cases old) auto
qed simp

lemma lunghezza_le: "lunghezza n a \<le> n \<and> (0 \<in> set a \<longrightarrow> lunghezza n a < length a)"
proof (induction n arbitrary: a)
  case (Suc n)
  show ?case using Suc.IH [of "tl a"] by (cases a) auto
qed auto

lemma nome_corto:
  assumes "0 \<in> set nm" "nm ! lunghezza (IPC_NAME_LEN - 1) nm = 0"
  shows "0 \<in> set (take IPC_NAME_LEN nm)"
proof -
  obtain k where k: "k < length nm" "k < IPC_NAME_LEN" "nm ! k = 0"
  proof (rule that)
    show "lunghezza (IPC_NAME_LEN - 1) nm < length nm" using lunghezza_le assms(1) by blast
    have "lunghezza (IPC_NAME_LEN - 1) nm \<le> IPC_NAME_LEN - 1" using lunghezza_le by blast
    then show "lunghezza (IPC_NAME_LEN - 1) nm < IPC_NAME_LEN" by linarith
  qed (rule assms(2))
  have "take IPC_NAME_LEN nm ! k = 0" using k by (simp add: nth_take)
  moreover have "k < length (take IPC_NAME_LEN nm)" using k by simp
  ultimately show ?thesis using nth_mem by metis
qed

text \<open>The table: every buffer has its size, and no two entries of living processes have the same name.\<close>

definition nomi_ok :: "ipc_sys \<Rightarrow> bool" where
  "nomi_ok y \<longleftrightarrow> (\<forall>v \<in> set (g_nomi y). length (nome v) = IPC_NAME_LEN) \<and>
     (\<forall>i < length (g_nomi y). \<forall>j < length (g_nomi y). voce_viva (isch y) (g_nomi y ! i) \<longrightarrow> voce_viva (isch y) (g_nomi y ! j) \<longrightarrow>
        chiave IPC_NAME_LEN (nome (g_nomi y ! i)) = chiave IPC_NAME_LEN (nome (g_nomi y ! j)) \<longrightarrow> i = j)"

lemma nomi_okD:
  "nomi_ok y \<Longrightarrow> i < length (g_nomi y) \<Longrightarrow> j < length (g_nomi y) \<Longrightarrow> voce_viva (isch y) (g_nomi y ! i) \<Longrightarrow>
   voce_viva (isch y) (g_nomi y ! j) \<Longrightarrow>
   chiave IPC_NAME_LEN (nome (g_nomi y ! i)) = chiave IPC_NAME_LEN (nome (g_nomi y ! j)) \<Longrightarrow> i = j"
  unfolding nomi_ok_def by meson

text \<open>The registry read as a map from names to pids.\<close>

definition registro :: "ipc_sys \<Rightarrow> u8 list \<Rightarrow> u32 option" where
  "registro y k = map_option n_pid (find (\<lambda>v. voce_viva (isch y) v \<and> chiave IPC_NAME_LEN (nome v) = k) (g_nomi y))"

lemma nome_uguale_chiave:
  assumes "length (nome v) = IPC_NAME_LEN" "0 \<in> set nm"
  shows "nome_uguale (nome v) nm \<longleftrightarrow> chiave IPC_NAME_LEN (nome v) = chiave IPC_NAME_LEN nm"
  unfolding nome_uguale_def by (rule nome_uguale_da_chiave) (use assms in auto)

lemma ipc_lookup_registro:
  assumes "nomi_ok y" "0 \<in> set nm" "hd nm \<noteq> 0"
  shows "ipc_lookup (Some nm) y = (case registro y (chiave IPC_NAME_LEN nm) of None \<Rightarrow> Inl ENOENT | Some k \<Rightarrow> Inr k)"
proof -
  have "find (\<lambda>v. voce_viva (isch y) v \<and> nome_uguale (nome v) nm) (g_nomi y) =
      find (\<lambda>v. voce_viva (isch y) v \<and> chiave IPC_NAME_LEN (nome v) = chiave IPC_NAME_LEN nm) (g_nomi y)"
    by (rule find_cong) (use assms in \<open>auto simp: nomi_ok_def nome_uguale_chiave\<close>)
  then show ?thesis using assms(3) by (simp add: ipc_lookup_def registro_def split: option.split)
qed

lemma find_list_update:
  assumes i: "i < length xs" and old: "\<not> P (xs ! i)"
  shows "find P (xs[i := x]) = (if P x \<and> (\<forall>j < i. \<not> P (xs ! j)) then Some x else find P xs)"
proof -
  have xs: "xs = take i xs @ xs ! i # drop (Suc i) xs" using id_take_nth_drop [OF i] .
  have up: "xs[i := x] = take i xs @ x # drop (Suc i) xs" using upd_conv_take_nth_drop [OF i] .
  have no: "(\<forall>j < i. \<not> P (xs ! j)) \<longleftrightarrow> find P (take i xs) = None"
    using i by (auto simp: find_None_iff in_set_conv_nth)
  have "find P xs = (case find P (take i xs) of None \<Rightarrow> find P (drop (Suc i) xs) | Some z \<Rightarrow> Some z)"
    by (subst xs) (simp add: find_append old split: option.split)
  then show ?thesis unfolding up no by (simp add: find_append split: option.split)
qed

lemma find_update_unique:
  assumes i: "i < length xs" and old: "\<not> P (xs ! i)" and x: "P x" and none: "\<forall>v \<in> set xs. \<not> P v"
  shows "find P (xs[i := x]) = Some x"
  using find_list_update [where P = P, OF i old] x none i by auto

text \<open>What a successful registration did.\<close>

lemma ipc_register_ok:
  assumes r: "ipc_register (Some nm) y = (Inr (), y')" and c: "proc_get_current (isch y) = Some c"
  obtains i where "i < length (g_nomi y)" "\<not> voce_viva (isch y) (g_nomi y ! i)" "isch y' = isch y"
    "g_nomi y' = (g_nomi y)[i := \<lparr>n_pid = pid (g_proc (isch y) ! c), nome = copia_nome IPC_NAME_LEN nm (nome (g_nomi y ! i))\<rparr>]"
    "hd nm \<noteq> 0" "nm ! lunghezza (IPC_NAME_LEN - 1) nm = 0"
    "\<forall>v \<in> set (g_nomi y). \<not> (voce_viva (isch y) v \<and> nome_uguale (nome v) nm)"
    "uid (g_proc (isch y) ! c) \<noteq> 0 \<Longrightarrow> take (length (atteso (uid (g_proc (isch y) ! c)))) nm = atteso (uid (g_proc (isch y) ! c))"
proof (cases "find (\<lambda>i. \<not> voce_viva (isch y) (g_nomi y ! i)) [0..<length (g_nomi y)]")
  case None
  then show ?thesis using r c by (auto simp: ipc_register_def Let_def split: if_splits)
next
  case (Some i)
  note f = find_SomeD [OF Some]
  show ?thesis
    by (rule that [of i]) (use r c Some f in \<open>auto simp: ipc_register_def Let_def list_ex_iff split: if_splits\<close>)
qed

text \<open>C19. The registry is a map. After a successful registration the name leads to the registering process, every
  other name leads where it led before, and the table still gives no name to two living processes.\<close>

theorem ipc_register_lookup:
  assumes "nomi_ok y" "0 \<in> set nm" "ipc_register (Some nm) y = (Inr (), y')" "proc_get_current (isch y) = Some c"
    "pids_ok (isch y)" "c < length (g_proc (isch y))" "vivo (g_proc (isch y) ! c)" "pid (g_proc (isch y) ! c) \<noteq> 0"
  shows "ipc_lookup (Some nm) y' = Inr (pid (g_proc (isch y) ! c)) \<and> nomi_ok y' \<and>
    (\<forall>nm'. 0 \<in> set nm' \<longrightarrow> hd nm' \<noteq> 0 \<longrightarrow> chiave IPC_NAME_LEN nm' \<noteq> chiave IPC_NAME_LEN nm \<longrightarrow>
       ipc_lookup (Some nm') y' = ipc_lookup (Some nm') y)"
proof -
  let ?k = "chiave IPC_NAME_LEN nm"
  obtain i where i: "i < length (g_nomi y)" "\<not> voce_viva (isch y) (g_nomi y ! i)" "isch y' = isch y"
    "g_nomi y' = (g_nomi y)[i := \<lparr>n_pid = pid (g_proc (isch y) ! c), nome = copia_nome IPC_NAME_LEN nm (nome (g_nomi y ! i))\<rparr>]"
    "hd nm \<noteq> 0" "nm ! lunghezza (IPC_NAME_LEN - 1) nm = 0"
    "\<forall>v \<in> set (g_nomi y). \<not> (voce_viva (isch y) v \<and> nome_uguale (nome v) nm)"
    using ipc_register_ok [OF assms(3,4)] by metis
  define x where "x = \<lparr>n_pid = pid (g_proc (isch y) ! c), nome = copia_nome IPC_NAME_LEN nm (nome (g_nomi y ! i))\<rparr>"
  have len: "\<forall>v \<in> set (g_nomi y). length (nome v) = IPC_NAME_LEN" using assms(1) by (simp add: nomi_ok_def)
  have li: "length (nome (g_nomi y ! i)) = IPC_NAME_LEN" using len i(1) by simp
  have kx: "chiave IPC_NAME_LEN (nome x) = ?k" "length (nome x) = IPC_NAME_LEN"
    using copia_nome_chiave [of IPC_NAME_LEN "nome (g_nomi y ! i)" nm] nome_corto [OF assms(2) i(6)] li
    by (simp_all add: x_def length_copia_nome)
  have vx: "voce_viva (isch y) x"
    using proc_get_by_pid_unique [OF assms(5,6)] assms(7,8) by (simp add: voce_viva_def x_def vivo_def)
  have none: "\<forall>v \<in> set (g_nomi y). \<not> (voce_viva (isch y) v \<and> chiave IPC_NAME_LEN (nome v) = ?k)"
    using i(7) len nome_uguale_chiave assms(2) by blast
  have reg: "registro y' k = (if k = ?k then Some (n_pid x) else registro y k)" for k
  proof (cases "k = ?k")
    case True
    have "find (\<lambda>v. voce_viva (isch y) v \<and> chiave IPC_NAME_LEN (nome v) = k) ((g_nomi y)[i := x]) = Some x"
      by (rule find_update_unique [OF i(1)]) (use i(2) vx kx none True in auto)
    then show ?thesis using True i(3,4) by (simp add: registro_def x_def)
  next
    case False
    have "find (\<lambda>v. voce_viva (isch y) v \<and> chiave IPC_NAME_LEN (nome v) = k) ((g_nomi y)[i := x]) =
        find (\<lambda>v. voce_viva (isch y) v \<and> chiave IPC_NAME_LEN (nome v) = k) (g_nomi y)"
      using find_list_update [OF i(1), of "\<lambda>v. voce_viva (isch y) v \<and> chiave IPC_NAME_LEN (nome v) = k" x] i(2) kx False by auto
    then show ?thesis using False i(3,4) by (simp add: registro_def x_def)
  qed
  have new: "nomi_ok y'"
    unfolding nomi_ok_def
  proof (intro conjI allI impI)
    show "\<forall>v \<in> set (g_nomi y'). length (nome v) = IPC_NAME_LEN"
      using len kx(2) set_update_subset_insert unfolding i(4) x_def [symmetric] by fastforce
    fix a b assume ab: "a < length (g_nomi y')" "b < length (g_nomi y')" "voce_viva (isch y') (g_nomi y' ! a)"
      "voce_viva (isch y') (g_nomi y' ! b)"
      "chiave IPC_NAME_LEN (nome (g_nomi y' ! a)) = chiave IPC_NAME_LEN (nome (g_nomi y' ! b))"
    have n: "g_nomi y' ! j = (if j = i then x else g_nomi y ! j)" for j using i(1,4) by (simp add: nth_list_update x_def)
    have l: "length (g_nomi y') = length (g_nomi y)" using i(4) by simp
    have old: "j < length (g_nomi y) \<Longrightarrow> voce_viva (isch y) (g_nomi y ! j) \<Longrightarrow> chiave IPC_NAME_LEN (nome (g_nomi y ! j)) \<noteq> ?k" for j
      using none nth_mem by blast
    show "a = b"
    proof (cases "a = i \<or> b = i")
      case True
      then show ?thesis using ab old [of a] old [of b] kx(1) unfolding n l i(3) by (cases "a = i"; cases "b = i") simp_all
    next
      case False
      show ?thesis by (rule nomi_okD [OF assms(1)]) (use ab False in \<open>simp_all add: n l i(3)\<close>)
    qed
  qed
  have "ipc_lookup (Some nm) y' = Inr (pid (g_proc (isch y) ! c))"
    using ipc_lookup_registro [OF new assms(2) i(5)] reg [of ?k] by (simp add: x_def)
  moreover have "ipc_lookup (Some nm') y' = ipc_lookup (Some nm') y"
    if "0 \<in> set nm'" "hd nm' \<noteq> 0" "chiave IPC_NAME_LEN nm' \<noteq> ?k" for nm'
    using ipc_lookup_registro [OF new that(1,2)] ipc_lookup_registro [OF assms(1) that(1,2)] reg that(3) by simp
  ultimately show ?thesis using new by blast
qed

definition ipc_esempio :: ipc_sys where
  "ipc_esempio = \<lparr>isch = sched_corsa, g_nomi = [\<lparr>n_pid = 0, nome = replicate IPC_NAME_LEN 0\<rparr>]\<rparr>"

lemma corsa_vivo: "vivo (g_proc sched_corsa ! 1)"
  using sched_corsa_sel by (simp add: vivo_def)

theorem ipc_register_lookup_witness:
  "ipc_lookup (Some [107, 98, 100, 0]) (snd (ipc_register (Some [107, 98, 100, 0]) ipc_esempio)) = Inr 2"
proof -
  let ?nm = "[107, 98, 100, 0] :: u8 list"
  have u: "uid (g_proc sched_corsa ! 1) = 0" by code_simp
  have c: "proc_get_current (isch ipc_esempio) = Some 1"
    by (simp add: ipc_esempio_def proc_get_current_def sched_corsa_sel)
  have n: "nomi_ok ipc_esempio" by (simp add: nomi_ok_def ipc_esempio_def)
  have l: "lunghezza 15 ?nm = 3" by code_simp
  have "fst (ipc_register (Some ?nm) ipc_esempio) = Inr ()"
    using u c l by (simp add: ipc_register_def ipc_esempio_def voce_viva_def)
  then obtain y' where r: "ipc_register (Some ?nm) ipc_esempio = (Inr (), y')"
    by (cases "ipc_register (Some ?nm) ipc_esempio") auto
  have "ipc_lookup (Some ?nm) y' = Inr (pid (g_proc (isch ipc_esempio) ! 1))"
    using ipc_register_lookup [OF n _ r c] corsa_pids corsa_vivo sched_corsa_sel(3) by (simp add: ipc_esempio_def)
  then show ?thesis using r sched_corsa_sel(3) by (simp add: ipc_esempio_def)
qed

text \<open>The decimal value of a string of digits.\<close>

definition valore :: "u8 list \<Rightarrow> nat" where
  "valore ds = foldl (\<lambda>a d. a * 10 + (unat d - 48)) 0 ds"

lemma cifra_unat: "unat (of_nat (48 + v mod 10) :: u8) = 48 + v mod 10"
proof -
  have "48 + v mod 10 < 2 ^ 8" using mod_less_divisor [of 10 v] by simp
  then show ?thesis unfolding unat_of_nat by (intro mod_less) simp
qed

lemma valore_cifre: "valore (rev (cifre_rov v)) = v \<and> (\<forall>d \<in> set (cifre_rov v). 48 \<le> unat d \<and> unat d \<le> 57)"
proof (induction v rule: cifre_rov.induct)
  case (1 v)
  show ?case
  proof (cases "v = 0")
    case True
    then show ?thesis by (simp add: cifre_rov.simps valore_def)
  next
    case False
    have c: "cifre_rov v = of_nat (48 + v mod 10) # cifre_rov (v div 10)" using False by (subst cifre_rov.simps) simp
    have "valore (rev (cifre_rov v)) = valore (rev (cifre_rov (v div 10))) * 10 + v mod 10"
      using cifra_unat [of v] by (simp add: c valore_def)
    moreover have "48 + v mod 10 \<le> 57" using mod_less_divisor [of 10 v] by linarith
    ultimately show ?thesis using 1 [OF False] cifra_unat [of v] by (auto simp: c)
  qed
qed

text \<open>Names without a prefix belong to root: whatever an ordinary user registers begins with the decimal
  digits of their own uid and a colon.\<close>

theorem ipc_register_uid_prefix:
  assumes "ipc_register (Some nm) y = (Inr (), y')" "proc_get_current (isch y) = Some c" "uid (g_proc (isch y) ! c) \<noteq> 0"
  shows "\<exists>ds rest. nm = ds @ 58 # rest \<and> valore ds = unat (uid (g_proc (isch y) ! c)) \<and>
    (\<forall>d \<in> set ds. 48 \<le> unat d \<and> unat d \<le> 57)"
proof -
  let ?u = "uid (g_proc (isch y) ! c)"
  have "take (length (atteso ?u)) nm = atteso ?u" using ipc_register_ok [OF assms(1,2)] assms(3) by metis
  then have "nm = atteso ?u @ drop (length (atteso ?u)) nm" by (metis append_take_drop_id)
  then have "nm = rev (cifre_rov (unat ?u)) @ 58 # drop (length (atteso ?u)) nm" by (simp add: atteso_def)
  then show ?thesis using valore_cifre [of "unat ?u"] by (metis set_rev)
qed

definition ipc_utente :: ipc_sys where
  "ipc_utente = ipc_esempio\<lparr>isch := proc_upd 1 (\<lambda>p. p\<lparr>uid := 7\<rparr>) sched_corsa\<rparr>"

theorem ipc_register_uid_prefix_witness:
  "fst (ipc_register (Some [55, 58, 97, 0]) ipc_utente) = Inr () \<and>
   (\<exists>ds rest. [55, 58, 97, 0] = ds @ 58 # rest \<and> valore ds = 7)"
proof -
  let ?nm = "[55, 58, 97, 0] :: u8 list"
  have c: "proc_get_current (isch ipc_utente) = Some 1" and u: "uid (g_proc (isch ipc_utente) ! 1) = 7"
    using corsa_pids(2) by (simp_all add: ipc_utente_def proc_get_current_def sched_corsa_sel proc_upd_nth)
  have a: "atteso 7 = [55, 58]" by (simp add: atteso_def cifre_rov.simps)
  have l: "lunghezza 15 ?nm = 3" by code_simp
  have "fst (ipc_register (Some ?nm) ipc_utente) = Inr ()"
    using u c a l by (simp add: ipc_register_def ipc_utente_def ipc_esempio_def voce_viva_def)
  then obtain y' where r: "ipc_register (Some ?nm) ipc_utente = (Inr (), y')"
    by (cases "ipc_register (Some ?nm) ipc_utente") auto
  then show ?thesis using ipc_register_uid_prefix [OF r c] u by auto
qed

end
