(* ===== verification/Pty.thy ===== *)
theory Pty
  imports Attese
begin

text \<open>
  Pseudo terminals (\<^verbatim>\<open>kernel/ipc/pty.c\<close>): two rings, the line discipline between them, the four ways in and
  out as turns of their blocking loops, the modes, the poll tests. The discipline is shown to implement a line
  editor on lists; the rings are bounded first-in first-out stores.
\<close>

unbundle bit_operations_syntax

section \<open>The structures\<close>

abbreviation PTY_DIM :: nat where "PTY_DIM \<equiv> 1024"
abbreviation PTY_RIGA_MAX :: nat where "PTY_RIGA_MAX \<equiv> 256"
abbreviation PTY_NCCS :: nat where "PTY_NCCS \<equiv> 20"
abbreviation T_ISTRIP :: u32 where "T_ISTRIP \<equiv> 0x20"
abbreviation T_INLCR :: u32 where "T_INLCR \<equiv> 0x40"
abbreviation T_IGNCR :: u32 where "T_IGNCR \<equiv> 0x80"
abbreviation T_ICRNL :: u32 where "T_ICRNL \<equiv> 0x100"
abbreviation T_OPOST :: u32 where "T_OPOST \<equiv> 1"
abbreviation T_ONLCR :: u32 where "T_ONLCR \<equiv> 4"
abbreviation T_ISIG :: u32 where "T_ISIG \<equiv> 1"
abbreviation T_ICANON :: u32 where "T_ICANON \<equiv> 2"
abbreviation T_ECHO :: u32 where "T_ECHO \<equiv> 8"
abbreviation T_ECHOE :: u32 where "T_ECHOE \<equiv> 0x10"
abbreviation T_ECHOK :: u32 where "T_ECHOK \<equiv> 0x20"
abbreviation T_NOFLSH :: u32 where "T_NOFLSH \<equiv> 0x80"
abbreviation T_VINTR :: nat where "T_VINTR \<equiv> 0"
abbreviation T_VERASE :: nat where "T_VERASE \<equiv> 2"
abbreviation T_VKILL :: nat where "T_VKILL \<equiv> 3"
abbreviation T_VEOF :: nat where "T_VEOF \<equiv> 4"
abbreviation T_VTIME :: nat where "T_VTIME \<equiv> 5"
abbreviation T_VMIN :: nat where "T_VMIN \<equiv> 6"

record pty_termios =
  c_iflag :: u32
  c_oflag :: u32
  c_cflag :: u32
  c_lflag :: u32
  c_cc :: "u8 list"

text \<open>One direction: the buffer, the position of the oldest byte and the number of bytes
  (\<^verbatim>\<open>in\<close>, \<^verbatim>\<open>in_testa\<close>, \<^verbatim>\<open>in_quanti\<close> and the same for \<^verbatim>\<open>out\<close>).\<close>

record anello =
  a_buf :: "u8 list"
  a_testa :: nat
  a_quanti :: nat

record pty =
  y_usata :: bool
  y_in :: anello
  y_out :: anello
  riga :: "u8 list"
  riga_n :: nat
  y_t :: pty_termios
  pid_fg :: u32
  righe :: u32
  colonne :: u32
  master_aperti :: nat
  slave_aperti :: nat
  bloccato :: bool
  slave_atteso :: bool
  att_in :: attese
  att_out :: attese
  att_spazio :: attese
  fine_dati :: bool

record pty_sys =
  ysch :: sched
  pty_dir :: "pty list"
  pty_dir_posti :: nat

definition pty_da_handle :: "int \<Rightarrow> pty list \<Rightarrow> nat option" where
  "pty_da_handle h dir =
     (if h < 0 \<or> nat h \<ge> length dir then None
      else if \<not> y_usata (dir ! nat h) then None else Some (nat h))"

definition pty_agg :: "nat \<Rightarrow> (pty \<Rightarrow> pty) \<Rightarrow> pty_sys \<Rightarrow> pty_sys" where
  "pty_agg k f y = y\<lparr>pty_dir := (pty_dir y)[k := f (pty_dir y ! k)]\<rparr>"

text \<open>All the bytes of the structure set to zero.\<close>

definition anello_zero :: anello where
  "anello_zero = \<lparr>a_buf = replicate PTY_DIM 0, a_testa = 0, a_quanti = 0\<rparr>"

definition attese_zero :: attese where
  "attese_zero = \<lparr>uno = 0, altri = [], n_altri = 0\<rparr>"

definition pty_zero :: pty where
  "pty_zero = \<lparr>y_usata = False, y_in = anello_zero, y_out = anello_zero, riga = replicate PTY_RIGA_MAX 0, riga_n = 0,
     y_t = \<lparr>c_iflag = 0, c_oflag = 0, c_cflag = 0, c_lflag = 0, c_cc = replicate PTY_NCCS 0\<rparr>, pid_fg = 0, righe = 0,
     colonne = 0, master_aperti = 0, slave_aperti = 0, bloccato = False, slave_atteso = False,
     att_in = attese_zero, att_out = attese_zero, att_spazio = attese_zero, fine_dati = False\<rparr>"

definition pty_azzera :: "pty \<Rightarrow> pty" where
  "pty_azzera p = pty_zero\<lparr>att_in := attese_rimetti attese_zero (att_in p),
     att_out := attese_rimetti attese_zero (att_out p), att_spazio := attese_rimetti attese_zero (att_spazio p)\<rparr>"

definition pty_sveglia_tutti_locked :: "pty \<times> sched \<Rightarrow> pty \<times> sched" where
  "pty_sveglia_tutti_locked = (\<lambda>(p, s).
     (case attese_sveglia_locked (att_in p) s of (a, s1) \<Rightarrow>
      (case attese_sveglia_locked (att_out p) s1 of (b, s2) \<Rightarrow>
       (case attese_sveglia_locked (att_spazio p) s2 of (c, s3) \<Rightarrow>
          (p\<lparr>att_in := a, att_out := b, att_spazio := c\<rparr>, s3)))))"

text \<open>One more pair: \<open>mem\<close> and \<open>mem_dir\<close> are whether the allocator gave the structure and, when it was needed,
  the larger directory.\<close>

definition pty_in_piu :: "bool \<Rightarrow> bool \<Rightarrow> pty list \<times> nat \<Rightarrow> (pty list \<times> nat) option" where
  "pty_in_piu mem mem_dir = (\<lambda>(dir, room).
     (let room' = (if length dir \<ge> room then (if room \<noteq> 0 then room * 2 else 8) else room) in
      if \<not> mem then None
      else if length dir \<ge> room \<and> \<not> mem_dir then None
      else if length dir < room' then Some (dir @ [pty_zero], room')
      else Some (dir, room')))"

section \<open>The two rings\<close>

definition metti :: "u8 \<Rightarrow> anello \<Rightarrow> anello" where
  "metti c a =
     (if a_quanti a \<ge> PTY_DIM then a
      else a\<lparr>a_buf := (a_buf a)[(a_testa a + a_quanti a) mod PTY_DIM := c], a_quanti := a_quanti a + 1\<rparr>)"

definition prendi :: "nat \<Rightarrow> anello \<Rightarrow> u8 list \<times> anello" where
  "prendi n a =
     (let presi = (if n < a_quanti a then n else a_quanti a) in
      (ring_read (a_buf a) (a_testa a) presi,
       a\<lparr>a_testa := (a_testa a + presi) mod PTY_DIM, a_quanti := a_quanti a - presi\<rparr>))"

definition onlcr :: "pty_termios \<Rightarrow> bool" where
  "onlcr t \<longleftrightarrow> c_oflag t AND (T_OPOST OR T_ONLCR) = T_OPOST OR T_ONLCR"

definition eco :: "u8 \<Rightarrow> pty \<Rightarrow> pty" where
  "eco c p =
     (if c_lflag (y_t p) AND T_ECHO = 0 then p
      else (let p1 = (if c = 10 \<and> onlcr (y_t p) then p\<lparr>y_out := metti 13 (y_out p)\<rparr> else p)
            in p1\<lparr>y_out := metti c (y_out p1)\<rparr>))"

definition eco_str :: "u8 list \<Rightarrow> pty \<Rightarrow> pty" where
  "eco_str s p = fold eco s p"

definition consegna_riga :: "pty \<Rightarrow> pty" where
  "consegna_riga p = p\<lparr>y_in := fold metti (take (riga_n p) (riga p)) (y_in p), riga_n := 0\<rparr>"

section \<open>The line discipline\<close>

text \<open>The input processing: what a byte becomes, or that it is dropped.\<close>

definition ingresso :: "pty_termios \<Rightarrow> u8 \<Rightarrow> u8 option" where
  "ingresso t c0 =
     (let c = (if c_iflag t AND T_ISTRIP \<noteq> 0 then c0 AND 0x7F else c0) in
      if c = 13 then
        (if c_iflag t AND T_IGNCR \<noteq> 0 then None
         else if c_iflag t AND T_ICRNL \<noteq> 0 then Some 10 else Some c)
      else if c = 10 \<and> c_iflag t AND T_INLCR \<noteq> 0 then Some 13
      else Some c)"

text \<open>A control character is active when it is not zero.\<close>

definition e_il :: "nat \<Rightarrow> pty_termios \<Rightarrow> u8 \<Rightarrow> bool" where
  "e_il k t c \<longleftrightarrow> c_cc t ! k \<noteq> 0 \<and> c = c_cc t ! k"

definition interrompe :: "pty_termios \<Rightarrow> u8 \<Rightarrow> bool" where
  "interrompe t c \<longleftrightarrow> c_lflag t AND T_ISIG \<noteq> 0 \<and> e_il T_VINTR t c"

definition indietro :: "pty_termios \<Rightarrow> u8 \<Rightarrow> bool" where
  "indietro t c \<longleftrightarrow> c = 8 \<or> c = 127 \<or> e_il T_VERASE t c"

definition cancella :: "u32 \<Rightarrow> pty \<Rightarrow> pty" where
  "cancella modo p =
     (let p1 = p\<lparr>riga_n := riga_n p - 1\<rparr> in
      if c_lflag (y_t p1) AND modo \<noteq> 0 then eco_str [8, 32, 8] p1 else p1)"

definition disciplina :: "u8 \<Rightarrow> pty \<times> sched \<Rightarrow> pty \<times> sched" where
  "disciplina c0 = (\<lambda>(p, s).
     (let t = y_t p in
      case ingresso t c0 of None \<Rightarrow> (p, s)
      | Some c \<Rightarrow>
          if interrompe t c then
            (let p1 = eco_str [94, 67, 10] p;
                 p2 = (if c_lflag t AND T_NOFLSH = 0 then p1\<lparr>riga_n := 0, y_in := (y_in p1)\<lparr>a_quanti := 0\<rparr>\<rparr> else p1)
             in (p2, if pid_fg p2 \<noteq> 0 then snd (proc_interrompi_locked (pid_fg p2) s) else s))
          else if c_lflag t AND T_ICANON = 0 then (eco c (p\<lparr>y_in := metti c (y_in p)\<rparr>), s)
          else if e_il T_VEOF t c then
            (if riga_n p = 0
             then (case attese_sveglia_locked (att_in p) s of (a, s1) \<Rightarrow> (p\<lparr>fine_dati := True, att_in := a\<rparr>, s1))
             else (p, s))
          else if indietro t c then
            (if riga_n p > 0 then cancella T_ECHOE p else p, s)
          else if e_il T_VKILL t c then ((cancella T_ECHOK ^^ riga_n p) p, s)
          else if c = 10 then
            (consegna_riga (eco 10
               (if riga_n p < PTY_RIGA_MAX then p\<lparr>riga := (riga p)[riga_n p := 10], riga_n := riga_n p + 1\<rparr> else p)), s)
          else if c \<ge> 0x20 \<and> c \<noteq> 0x7F then
            (if riga_n p < PTY_RIGA_MAX - 1
             then eco c (p\<lparr>riga := (riga p)[riga_n p := c], riga_n := riga_n p + 1\<rparr>) else p, s)
          else (p, s)))"

section \<open>Opening and closing\<close>

text \<open>The modes of a fresh terminal and the pair as \<^verbatim>\<open>pty_apri\<close> hands it out.\<close>

definition pty_sano :: "u8 list \<Rightarrow> pty_termios" where
  "pty_sano cc = \<lparr>c_iflag = T_ICRNL, c_oflag = T_OPOST OR T_ONLCR, c_cflag = 0xBF,
     c_lflag = T_ISIG OR T_ICANON OR T_ECHO OR T_ECHOE OR T_ECHOK,
     c_cc = cc[T_VINTR := 3, 1 := 28, T_VERASE := 127, T_VKILL := 21, T_VEOF := 4, T_VMIN := 1, 10 := 26]\<rparr>"

definition pty_nuova :: "pty \<Rightarrow> pty" where
  "pty_nuova p =
     (let q = (pty_azzera p)\<lparr>y_usata := True\<rparr> in
      q\<lparr>y_t := pty_sano (c_cc (y_t q)), righe := 25, colonne := 80, master_aperti := 1, slave_aperti := 1\<rparr>)"

text \<open>The loop over the table and the jump back after one more pair was made; \<open>mems\<close> is what the allocator
  answers, time after time. Both handles are the index of the pair.\<close>

fun pty_apri :: "(bool \<times> bool) list \<Rightarrow> pty list \<times> nat \<Rightarrow> (errno + nat) option \<times> pty list \<times> nat" where
  "pty_apri mems (dir, room) =
     (case find (\<lambda>i. \<not> y_usata (dir ! i)) [0..<length dir] of
        Some i \<Rightarrow> (Some (Inr i), dir[i := pty_nuova (dir ! i)], room)
      | None \<Rightarrow>
          (case mems of
             [] \<Rightarrow> (None, dir, room)
           | (mem, mem_dir) # rest \<Rightarrow>
               (case pty_in_piu mem mem_dir (dir, room) of
                  None \<Rightarrow> (Some (Inl EMFILE), dir, room)
                | Some (dir', room') \<Rightarrow> pty_apri rest (dir', room'))))"

definition pty_apri_ptmx :: "(bool \<times> bool) list \<Rightarrow> pty list \<times> nat \<Rightarrow> (errno + nat) option \<times> pty list \<times> nat" where
  "pty_apri_ptmx mems x =
     (case pty_apri mems x of
        (Some (Inr h), dir, room) \<Rightarrow>
          (Some (Inr h), dir[h := (dir ! h)\<lparr>slave_aperti := 0, slave_atteso := True, bloccato := True\<rparr>], room)
      | r \<Rightarrow> r)"

text \<open>\<^verbatim>\<open>(int)n >= 0\<close> on the 32-bit number of the pair.\<close>

definition pty_numero :: "u32 \<Rightarrow> pty list \<Rightarrow> nat option" where
  "pty_numero n dir = (if sint n \<ge> 0 then pty_da_handle (sint n) dir else None)"

definition pty_apri_slave :: "u32 \<Rightarrow> pty_sys \<Rightarrow> (errno + unit) \<times> pty_sys" where
  "pty_apri_slave n y =
     (case pty_numero n (pty_dir y) of None \<Rightarrow> (Inl ENOENT, y)
      | Some k \<Rightarrow>
          (let p = pty_dir y ! k in
           if master_aperti p = 0 then (Inl ENOENT, y)
           else if bloccato p then (Inl EIO, y)
           else (Inr (), pty_agg k (\<lambda>p. p\<lparr>slave_aperti := slave_aperti p + 1, slave_atteso := False\<rparr>) y)))"

definition pty_esiste :: "u32 \<Rightarrow> pty_sys \<Rightarrow> bool" where
  "pty_esiste n y =
     (case pty_numero n (pty_dir y) of None \<Rightarrow> False | Some k \<Rightarrow> master_aperti (pty_dir y ! k) > 0)"

definition pty_apri_riferimento :: "int \<Rightarrow> bool \<Rightarrow> pty_sys \<Rightarrow> pty_sys" where
  "pty_apri_riferimento h master y =
     (case pty_da_handle h (pty_dir y) of None \<Rightarrow> y
      | Some k \<Rightarrow> pty_agg k (\<lambda>p. if master then p\<lparr>master_aperti := master_aperti p + 1\<rparr>
                                 else p\<lparr>slave_aperti := slave_aperti p + 1\<rparr>) y)"

text \<open>\<^verbatim>\<open>pty_chiudi_comune\<close>, the same for a close inside and outside a critical section, and \<^verbatim>\<open>pty_chiudi\<close>, which
  repeats it.\<close>

definition pty_scollega :: "bool \<Rightarrow> pty \<Rightarrow> pty" where
  "pty_scollega master p =
     (if master then (if master_aperti p \<noteq> 0 then p\<lparr>master_aperti := master_aperti p - 1\<rparr> else p)
      else (if slave_aperti p \<noteq> 0 then p\<lparr>slave_aperti := slave_aperti p - 1\<rparr> else p))"

definition pty_chiudi_comune :: "int \<Rightarrow> bool \<Rightarrow> pty_sys \<Rightarrow> pty_sys" where
  "pty_chiudi_comune h master y =
     (case pty_da_handle h (pty_dir y) of None \<Rightarrow> y
      | Some k \<Rightarrow>
          (case pty_sveglia_tutti_locked (pty_scollega master (pty_dir y ! k), ysch y) of
             (p, s) \<Rightarrow>
               pty_agg k (\<lambda>_. if master_aperti p = 0 \<and> slave_aperti p = 0 then pty_azzera p else p) (y\<lparr>ysch := s\<rparr>)))"

definition pty_chiudi :: "int \<Rightarrow> bool \<Rightarrow> pty_sys \<Rightarrow> pty_sys" where
  "pty_chiudi h master y =
     (case pty_da_handle h (pty_dir y) of None \<Rightarrow> y
      | Some k \<Rightarrow>
          (case pty_sveglia_tutti_locked (pty_scollega master (pty_dir y ! k), ysch y) of
             (p, s) \<Rightarrow>
               pty_agg k (\<lambda>_. if master_aperti p = 0 \<and> slave_aperti p = 0 then pty_azzera p else p) (y\<lparr>ysch := s\<rparr>)))"

section \<open>The four ways\<close>

definition sveglia_in :: "nat \<Rightarrow> pty_sys \<Rightarrow> pty_sys" where
  "sveglia_in k y =
     (case attese_sveglia_locked (att_in (pty_dir y ! k)) (ysch y) of
        (a, s) \<Rightarrow> pty_agg k (\<lambda>p. p\<lparr>att_in := a\<rparr>) (y\<lparr>ysch := s\<rparr>))"

definition sveglia_out :: "nat \<Rightarrow> pty_sys \<Rightarrow> pty_sys" where
  "sveglia_out k y =
     (case attese_sveglia_locked (att_out (pty_dir y ! k)) (ysch y) of
        (a, s) \<Rightarrow> pty_agg k (\<lambda>p. p\<lparr>att_out := a\<rparr>) (y\<lparr>ysch := s\<rparr>))"

definition sveglia_spazio :: "nat \<Rightarrow> pty_sys \<Rightarrow> pty_sys" where
  "sveglia_spazio k y =
     (case attese_sveglia_locked (att_spazio (pty_dir y ! k)) (ysch y) of
        (a, s) \<Rightarrow> pty_agg k (\<lambda>p. p\<lparr>att_spazio := a\<rparr>) (y\<lparr>ysch := s\<rparr>))"

definition pty_scrivi_master :: "int \<Rightarrow> u8 list \<Rightarrow> pty_sys \<Rightarrow> (errno + nat) \<times> pty_sys" where
  "pty_scrivi_master h src y =
     (case pty_da_handle h (pty_dir y) of None \<Rightarrow> (Inl EBADF, y)
      | Some k \<Rightarrow>
          (case fold disciplina src (pty_dir y ! k, ysch y) of
             (p, s) \<Rightarrow>
               (let y1 = pty_agg k (\<lambda>_. p) (y\<lparr>ysch := s\<rparr>);
                    y2 = (if a_quanti (y_in p) \<noteq> 0 then sveglia_in k y1 else y1);
                    y3 = (if a_quanti (y_out p) \<noteq> 0 then sveglia_out k y2 else y2)
                in (Inr (length src), y3))))"

text \<open>The copying loop of \<^verbatim>\<open>pty_scrivi_slave\<close>: how many bytes of the rest of the buffer went in.\<close>

fun riempi :: "pty_termios \<Rightarrow> u8 list \<Rightarrow> anello \<Rightarrow> nat \<times> anello" where
  "riempi t [] a = (0, a)"
| "riempi t (c # cs) a =
     (if a_quanti a \<ge> PTY_DIM then (0, a)
      else if c = 10 \<and> onlcr t then
        (if a_quanti a > PTY_DIM - 2 then (0, a)
         else (case riempi t cs (metti c (metti 13 a)) of (k, a') \<Rightarrow> (k + 1, a')))
      else (case riempi t cs (metti c a) of (k, a') \<Rightarrow> (k + 1, a')))"

text \<open>One turn; \<open>scritti\<close> is how much of \<open>src\<close> the previous turns have written, and the new count comes back.\<close>

definition pty_scrivi_slave_giro ::
  "int \<Rightarrow> u8 list \<Rightarrow> nat \<Rightarrow> pty_sys \<Rightarrow> (errno + nat) giro \<times> nat \<times> pty_sys" where
  "pty_scrivi_slave_giro h src scritti y =
     (case pty_da_handle h (pty_dir y) of None \<Rightarrow> (Ritorna (Inl EBADF), scritti, y)
      | Some k \<Rightarrow>
          if master_aperti (pty_dir y ! k) = 0
          then (Ritorna (if scritti \<noteq> 0 then Inr scritti else Inl EPIPE), scritti, y)
          else
            (case riempi (y_t (pty_dir y ! k)) (drop scritti src) (y_out (pty_dir y ! k)) of
               (m, a) \<Rightarrow>
                 (let n1 = scritti + m;
                      y1 = sveglia_out k (pty_agg k (\<lambda>p. p\<lparr>y_out := a\<rparr>) y)
                  in if n1 = length src then (Ritorna (Inr n1), n1, y1)
                     else (case proc_get_current (ysch y1) of None \<Rightarrow> (Ritorna (Inr n1), n1, y1)
                           | Some c \<Rightarrow>
                               (case attese_metti (att_spazio (pty_dir y1 ! k)) (pid (g_proc (ysch y1) ! c)) of
                                  (r, w) \<Rightarrow>
                                    if \<not> r then (Cresce, n1, y1)
                                    else (Dormi, n1, (pty_agg k (\<lambda>p. p\<lparr>att_spazio := w\<rparr>) y1)
                                            \<lparr>ysch := sched_block PROC_BLOCKED (ysch y1)\<rparr>))))))"

definition pty_scrivi_slave :: "int \<Rightarrow> u8 list \<Rightarrow> pty_sys \<Rightarrow> (errno + nat) giro \<times> nat \<times> pty_sys" where
  "pty_scrivi_slave h src y =
     (if src = [] then (Ritorna (Inr 0), 0, y) else pty_scrivi_slave_giro h src 0 y)"

text \<open>The locals of \<^verbatim>\<open>pty_leggi_slave\<close> that live across the turns.\<close>

record lettura =
  l_n :: nat
  canonico :: bool
  serve :: nat
  decimi :: nat
  inizio :: u32
  visti :: nat
  partito :: bool

definition pty_leggi_slave_inizio :: "int \<Rightarrow> nat \<Rightarrow> pty_sys \<Rightarrow> errno + lettura" where
  "pty_leggi_slave_inizio h n0 y =
     (let n = (if n0 > PTY_DIM then PTY_DIM else n0) in
      case pty_da_handle h (pty_dir y) of None \<Rightarrow> Inl EBADF
      | Some k \<Rightarrow>
          (let t = y_t (pty_dir y ! k); can = (c_lflag t AND T_ICANON \<noteq> 0);
               vmin = unat (c_cc t ! T_VMIN)
           in Inr \<lparr>l_n = n, canonico = can,
                serve = (if can then 1 else if vmin > n then n else vmin),
                decimi = (if can then 0 else unat (c_cc t ! T_VTIME)), inizio = 0, visti = 0, partito = False\<rparr>))"

text \<open>The test at the head of the loop: take what is there, wait for a change, or look again in a tick.\<close>

datatype prova = Basta | Attende | A_tempo

definition scaduta :: "u32 \<Rightarrow> lettura \<Rightarrow> bool" where
  "scaduta now l \<longleftrightarrow> now - inizio l \<ge> of_nat (decimi l) * 10"

definition pty_prova :: "u32 \<Rightarrow> nat \<Rightarrow> lettura \<Rightarrow> prova \<times> lettura" where
  "pty_prova now q l =
     (if canonico l \<or> (serve l > 0 \<and> decimi l = 0) then
        (if q \<ge> (if canonico l then 1 else serve l) then (Basta, l) else (Attende, l))
      else if serve l = 0 \<and> decimi l = 0 then (Basta, l)
      else if serve l = 0 then
        (if q > 0 then (Basta, l)
         else (let l1 = (if \<not> partito l then l\<lparr>inizio := now, partito := True\<rparr> else l) in
               if scaduta now l1 then (Basta, l1) else (A_tempo, l1)))
      else if q \<ge> serve l then (Basta, l)
      else if q > 0 then
        (let l1 = (if q \<noteq> visti l then l\<lparr>visti := q, inizio := now\<rparr> else l) in
         if scaduta now l1 then (Basta, l1) else (A_tempo, l1))
      else (Attende, l))"

definition pty_prendi_in :: "nat \<Rightarrow> nat \<Rightarrow> pty_sys \<Rightarrow> (errno + u8 list) giro \<times> pty_sys" where
  "pty_prendi_in k n y =
     (case prendi n (y_in (pty_dir y ! k)) of
        (bs, a) \<Rightarrow> (Ritorna (Inr bs), pty_agg k (\<lambda>p. p\<lparr>y_in := a\<rparr>) y))"

definition pty_leggi_slave_giro ::
  "int \<Rightarrow> lettura \<Rightarrow> pty_sys \<Rightarrow> (errno + u8 list) giro \<times> lettura \<times> pty_sys" where
  "pty_leggi_slave_giro h l y =
     (case pty_da_handle h (pty_dir y) of None \<Rightarrow> (Ritorna (Inl EBADF), l, y)
      | Some k \<Rightarrow>
          (let p = pty_dir y ! k; q = a_quanti (y_in p) in
           case pty_prova (g_ticks (ysch y)) q l of (pr, l1) \<Rightarrow>
             if pr = Basta then (case pty_prendi_in k (l_n l1) y of (g, y') \<Rightarrow> (g, l1, y'))
             else if q = 0 \<and> (fine_dati p \<or> master_aperti p = 0)
               then (Ritorna (Inr []), l1, pty_agg k (\<lambda>p. p\<lparr>fine_dati := False\<rparr>) y)
             else if q > 0 \<and> master_aperti p = 0
               then (case pty_prendi_in k (l_n l1) y of (g, y') \<Rightarrow> (g, l1, y'))
             else (case proc_get_current (ysch y) of None \<Rightarrow> (Ritorna (Inl EAGAIN), l1, y)
                   | Some c \<Rightarrow>
                       if pr = A_tempo then (Dormi, l1, y\<lparr>ysch := sched_sleep 10 (ysch y)\<rparr>)
                       else (case attese_metti (att_in p) (pid (g_proc (ysch y) ! c)) of
                               (r, w) \<Rightarrow>
                                 if \<not> r then (Cresce, l1, y)
                                 else (Dormi, l1, (pty_agg k (\<lambda>p. p\<lparr>att_in := w\<rparr>) y)
                                         \<lparr>ysch := sched_block PROC_BLOCKED (ysch y)\<rparr>)))))"

definition pty_leggi_slave :: "int \<Rightarrow> nat \<Rightarrow> pty_sys \<Rightarrow> (errno + u8 list) giro \<times> pty_sys" where
  "pty_leggi_slave h n y =
     (if n = 0 then (Ritorna (Inr []), y)
      else (case pty_leggi_slave_inizio h n y of Inl e \<Rightarrow> (Ritorna (Inl e), y)
            | Inr l \<Rightarrow> (case pty_leggi_slave_giro h l y of (g, l', y') \<Rightarrow> (g, y'))))"

definition pty_leggi_master_giro :: "int \<Rightarrow> nat \<Rightarrow> pty_sys \<Rightarrow> (errno + u8 list) giro \<times> pty_sys" where
  "pty_leggi_master_giro h n y =
     (case pty_da_handle h (pty_dir y) of None \<Rightarrow> (Ritorna (Inl EBADF), y)
      | Some k \<Rightarrow>
          (let p = pty_dir y ! k in
           if a_quanti (y_out p) > 0 then
             (case prendi n (y_out p) of
                (bs, a) \<Rightarrow> (Ritorna (Inr bs), sveglia_spazio k (pty_agg k (\<lambda>p. p\<lparr>y_out := a\<rparr>) y)))
           else if slave_aperti p = 0 \<and> \<not> slave_atteso p then (Ritorna (Inr []), y)
           else (case proc_get_current (ysch y) of None \<Rightarrow> (Ritorna (Inl EAGAIN), y)
                 | Some c \<Rightarrow>
                     (case attese_metti (att_out p) (pid (g_proc (ysch y) ! c)) of
                        (r, w) \<Rightarrow>
                          if \<not> r then (Cresce, y)
                          else (Dormi, (pty_agg k (\<lambda>p. p\<lparr>att_out := w\<rparr>) y)
                                  \<lparr>ysch := sched_block PROC_BLOCKED (ysch y)\<rparr>)))))"

definition pty_leggi_master :: "int \<Rightarrow> nat \<Rightarrow> pty_sys \<Rightarrow> (errno + u8 list) giro \<times> pty_sys" where
  "pty_leggi_master h n y =
     (if n = 0 then (Ritorna (Inr []), y)
      else pty_leggi_master_giro h (if n > PTY_DIM then PTY_DIM else n) y)"

section \<open>Control and state\<close>

abbreviation PTY_CANONICO :: u32 where "PTY_CANONICO \<equiv> 1"
abbreviation PTY_ECO :: u32 where "PTY_ECO \<equiv> 2"

definition pty_modo :: "u32 \<Rightarrow> u32 \<Rightarrow> u32" where
  "pty_modo arg f =
     (let f1 = f AND NOT (T_ICANON OR T_ECHO OR T_ISIG);
          f2 = (if arg AND PTY_CANONICO \<noteq> 0 then f1 OR (T_ICANON OR T_ISIG) else f1)
      in if arg AND PTY_ECO \<noteq> 0 then f2 OR T_ECHO else f2)"

definition pty_ctl :: "int \<Rightarrow> u32 \<Rightarrow> u32 \<Rightarrow> pty_sys \<Rightarrow> (errno + u32) \<times> pty_sys" where
  "pty_ctl h cmd arg y =
     (case pty_da_handle h (pty_dir y) of None \<Rightarrow> (Inl EBADF, y)
      | Some k \<Rightarrow>
          if cmd = 1 then (Inr 0, pty_agg k (\<lambda>p. p\<lparr>pid_fg := arg\<rparr>) y)
          else if cmd = 2 then
            (Inr 0, pty_agg k (\<lambda>p. p\<lparr>y_t := (y_t p)\<lparr>c_lflag := pty_modo arg (c_lflag (y_t p))\<rparr>, riga_n := 0\<rparr>) y)
          else if cmd = 3 then
            (Inr 0, pty_agg k (\<lambda>p. p\<lparr>righe := drop_bit 16 arg AND 0xFFFF, colonne := arg AND 0xFFFF\<rparr>) y)
          else if cmd = 4 then
            (Inr (push_bit 16 (righe (pty_dir y ! k)) OR (colonne (pty_dir y ! k) AND 0xFFFF)), y)
          else (Inl EINVAL, y))"

text \<open>The requests of \<^verbatim>\<open>pty_ioctl\<close> with what their argument points to, and what they write there.\<close>

datatype pty_req = TCGETS | TCSETS pty_termios | TCSETSW pty_termios | TCSETSF pty_termios | TCFLSH u32
  | TIOCGWINSZ | TIOCSWINSZ u16 u16 | TIOCGPTN | TIOCSPTLCK u32 | Altra_req

datatype pty_risp = Niente | Modi pty_termios | Misure u16 u16 u16 u16 | Numero u32

definition pty_imposta :: "nat \<Rightarrow> pty_termios \<Rightarrow> pty_sys \<Rightarrow> pty_sys" where
  "pty_imposta k t y =
     (let era = c_lflag (y_t (pty_dir y ! k)) AND T_ICANON;
          y1 = pty_agg k (\<lambda>p. p\<lparr>y_t := t\<rparr>) y;
          y2 = (if era \<noteq> 0 \<and> c_lflag t AND T_ICANON = 0 then pty_agg k consegna_riga y1 else y1)
      in if a_quanti (y_in (pty_dir y2 ! k)) \<noteq> 0 then sveglia_in k y2 else y2)"

definition pty_ioctl :: "int \<Rightarrow> pty_req \<Rightarrow> pty_sys \<Rightarrow> (errno + pty_risp) \<times> pty_sys" where
  "pty_ioctl h req y =
     (case pty_da_handle h (pty_dir y) of None \<Rightarrow> (Inl EBADF, y)
      | Some k \<Rightarrow>
          (let p = pty_dir y ! k in
           case req of
             TCGETS \<Rightarrow> (Inr (Modi (y_t p)), y)
           | TCSETSF t \<Rightarrow>
               (Inr Niente, pty_imposta k t
                  (pty_agg k (\<lambda>p. p\<lparr>y_in := (y_in p)\<lparr>a_quanti := 0\<rparr>, riga_n := 0, fine_dati := False\<rparr>) y))
           | TCSETS t \<Rightarrow> (Inr Niente, pty_imposta k t y)
           | TCSETSW t \<Rightarrow> (Inr Niente, pty_imposta k t y)
           | TCFLSH arg \<Rightarrow>
               (let y1 = (if arg = 0 \<or> arg = 2
                          then pty_agg k (\<lambda>p. p\<lparr>y_in := (y_in p)\<lparr>a_quanti := 0\<rparr>, riga_n := 0\<rparr>) y else y);
                    y2 = (if arg = 1 \<or> arg = 2
                          then pty_agg k (\<lambda>p. p\<lparr>y_out := (y_out p)\<lparr>a_quanti := 0\<rparr>\<rparr>) y1 else y1)
                in (Inr Niente, y2))
           | TIOCGWINSZ \<Rightarrow>
               (Inr (Misure (ucast (righe p)) (ucast (colonne p)) (ucast (colonne p * 8)) (ucast (righe p * 16))), y)
           | TIOCSWINSZ w0 w1 \<Rightarrow>
               (Inr Niente, pty_agg k (\<lambda>p. p\<lparr>righe := (if w0 \<noteq> 0 then ucast w0 else righe p),
                                           colonne := (if w1 \<noteq> 0 then ucast w1 else colonne p)\<rparr>) y)
           | TIOCGPTN \<Rightarrow> (Inr (Numero (of_int h)), y)
           | TIOCSPTLCK v \<Rightarrow> (Inr Niente, pty_agg k (\<lambda>p. p\<lparr>bloccato := (v \<noteq> 0)\<rparr>) y)
           | Altra_req \<Rightarrow> (Inl ENOTTY, y)))"

section \<open>For poll\<close>

definition pty_attesa_registra_locked :: "int \<Rightarrow> bool \<Rightarrow> u32 \<Rightarrow> pty_sys \<Rightarrow> bool \<times> pty_sys" where
  "pty_attesa_registra_locked h master k y =
     (case pty_da_handle h (pty_dir y) of None \<Rightarrow> (False, y)
      | Some i \<Rightarrow>
          (if master
           then (case attese_metti (att_out (pty_dir y ! i)) k of (r, a) \<Rightarrow> (r, pty_agg i (\<lambda>p. p\<lparr>att_out := a\<rparr>) y))
           else (case attese_metti (att_in (pty_dir y ! i)) k of (r, a) \<Rightarrow> (r, pty_agg i (\<lambda>p. p\<lparr>att_in := a\<rparr>) y))))"

definition pty_attesa_togli_locked :: "int \<Rightarrow> bool \<Rightarrow> u32 \<Rightarrow> pty_sys \<Rightarrow> pty_sys" where
  "pty_attesa_togli_locked h master k y =
     (case pty_da_handle h (pty_dir y) of None \<Rightarrow> y
      | Some i \<Rightarrow>
          (if master then pty_agg i (\<lambda>p. p\<lparr>att_out := attese_togli (att_out p) k\<rparr>) y
           else pty_agg i (\<lambda>p. p\<lparr>att_in := attese_togli (att_in p) k\<rparr>) y))"

definition pty_pronto_slave :: "int \<Rightarrow> pty_sys \<Rightarrow> bool" where
  "pty_pronto_slave h y =
     (case pty_da_handle h (pty_dir y) of None \<Rightarrow> True
      | Some k \<Rightarrow>
          (let p = pty_dir y ! k; t = y_t p; q = a_quanti (y_in p); vmin = unat (c_cc t ! T_VMIN) in
           if c_lflag t AND T_ICANON = 0 \<and> vmin > 1 \<and> c_cc t ! T_VTIME = 0 \<and> q > 0 \<and> q < vmin \<and>
              \<not> fine_dati p \<and> master_aperti p \<noteq> 0
           then False
           else q > 0 \<or> fine_dati p \<or> master_aperti p = 0))"

definition pty_pronto_master :: "int \<Rightarrow> pty_sys \<Rightarrow> bool" where
  "pty_pronto_master h y =
     (case pty_da_handle h (pty_dir y) of None \<Rightarrow> True
      | Some k \<Rightarrow>
          (let p = pty_dir y ! k in a_quanti (y_out p) > 0 \<or> (slave_aperti p = 0 \<and> \<not> slave_atteso p)))"

section \<open>The rings are bounded FIFOs\<close>

definition anello_ok :: "anello \<Rightarrow> bool" where
  "anello_ok a \<longleftrightarrow> length (a_buf a) = PTY_DIM \<and> a_testa a < PTY_DIM \<and> a_quanti a \<le> PTY_DIM"

definition acont :: "anello \<Rightarrow> u8 list" where
  "acont a = ring_read (a_buf a) (a_testa a) (a_quanti a)"

lemma length_acont [simp]: "length (acont a) = a_quanti a"
  by (simp add: acont_def)

lemma acont_vuoto [simp]: "acont (a\<lparr>a_quanti := 0\<rparr>) = []" "acont anello_zero = []"
  by (simp_all add: acont_def anello_zero_def)

lemma anello_ok_vuoto: "anello_ok a \<Longrightarrow> anello_ok (a\<lparr>a_quanti := 0\<rparr>)" "anello_ok anello_zero"
  by (simp_all add: anello_ok_def anello_zero_def)

lemma metti_ok: "anello_ok a \<Longrightarrow> anello_ok (metti c a)"
  by (simp add: anello_ok_def metti_def)

lemma metti_content: "anello_ok a \<Longrightarrow> acont (metti c a) = take PTY_DIM (acont a @ [c])"
  using ring_read_snoc [of "a_quanti a" "a_buf a" "a_testa a" c]
  by (auto simp: acont_def metti_def anello_ok_def)

lemma metti_quanti: "a_quanti (metti c a) = (if a_quanti a < PTY_DIM then a_quanti a + 1 else a_quanti a)"
  by (simp add: metti_def)

lemma fold_metti:
  "anello_ok a \<Longrightarrow> anello_ok (fold metti xs a) \<and> acont (fold metti xs a) = take PTY_DIM (acont a @ xs)"
proof (induction xs arbitrary: a)
  case Nil
  then show ?case by (simp add: anello_ok_def)
next
  case (Cons x xs)
  have "take PTY_DIM (take PTY_DIM (acont a @ [x]) @ xs) = take PTY_DIM ((acont a @ [x]) @ xs)" by (rule take_take_append)
  then show ?case using Cons.IH [OF metti_ok [OF Cons.prems, of x]] metti_content [OF Cons.prems, of x] by simp
qed

lemma prendi_ok: "anello_ok a \<Longrightarrow> anello_ok (snd (prendi n a))"
  by (auto simp: anello_ok_def prendi_def Let_def)

lemma prendi_content:
  assumes "anello_ok a"
  shows "fst (prendi n a) = take n (acont a)" "acont (snd (prendi n a)) = drop n (acont a)"
proof -
  define k where "k = min n (a_quanti a)"
  have pr: "prendi n a = (ring_read (a_buf a) (a_testa a) k, a\<lparr>a_testa := (a_testa a + k) mod PTY_DIM, a_quanti := a_quanti a - k\<rparr>)"
    by (auto simp: prendi_def Let_def k_def)
  have len: "length (a_buf a) = PTY_DIM" using assms by (simp add: anello_ok_def)
  show "fst (prendi n a) = take n (acont a)" by (simp add: pr acont_def take_ring_read k_def)
  have "acont (snd (prendi n a)) = ring_read (a_buf a) ((a_testa a + k) mod length (a_buf a)) (a_quanti a - k)"
    by (simp add: pr acont_def len)
  also have "\<dots> = drop k (acont a)" by (simp add: ring_read_mod acont_def drop_ring_read)
  finally show "acont (snd (prendi n a)) = drop n (acont a)" by (simp add: k_def min_def split: if_splits)
qed

text \<open>Storing a list byte by byte, as \<^verbatim>\<open>consegna_riga\<close> does.\<close>

definition metti_lista :: "u8 list \<Rightarrow> anello \<Rightarrow> nat \<times> anello" where
  "metti_lista xs a = (min (length xs) (PTY_DIM - a_quanti a), fold metti xs a)"

interpretation pty_fifo: bounded_fifo acont PTY_DIM anello_ok metti_lista prendi
proof
  fix q :: anello and xs n assume ok: "anello_ok q"
  show "length (acont q) \<le> PTY_DIM" using ok by (simp add: anello_ok_def)
  show "fst (metti_lista xs q) = min (length xs) (PTY_DIM - length (acont q))" by (simp add: metti_lista_def)
  have "a_quanti q \<le> PTY_DIM" using ok by (simp add: anello_ok_def)
  then show "acont (snd (metti_lista xs q)) = acont q @ take (fst (metti_lista xs q)) xs"
    using fold_metti [OF ok, of xs] by (auto simp: metti_lista_def take_append min_def)
  show "anello_ok (snd (metti_lista xs q))" using fold_metti [OF ok, of xs] by (simp add: metti_lista_def)
  show "fst (prendi n q) = take n (acont q)" "acont (snd (prendi n q)) = drop n (acont q)" "anello_ok (snd (prendi n q))"
    using prendi_content [OF ok] prendi_ok [OF ok] by auto
qed

section \<open>The discipline implements a line editor\<close>

definition pty_ok :: "pty \<Rightarrow> bool" where
  "pty_ok p \<longleftrightarrow> anello_ok (y_in p) \<and> anello_ok (y_out p) \<and> length (riga p) = PTY_RIGA_MAX \<and> riga_n p < PTY_RIGA_MAX \<and>
     length (c_cc (y_t p)) = PTY_NCCS \<and> att_ok (att_in p) \<and> att_ok (att_out p) \<and> att_ok (att_spazio p)"

text \<open>The line being built, what the program can read, and whether it will be told that the data is over.\<close>

type_synonym tastiera = "u8 list \<times> u8 list \<times> bool"

definition pty_abs :: "pty \<Rightarrow> tastiera" where
  "pty_abs p = (take (riga_n p) (riga p), acont (y_in p), fine_dati p)"

text \<open>The editor, a key at a time, on lists.\<close>

definition editor :: "pty_termios \<Rightarrow> u8 \<Rightarrow> tastiera \<Rightarrow> tastiera" where
  "editor t c0 = (\<lambda>(l, q, e).
     (case ingresso t c0 of None \<Rightarrow> (l, q, e)
      | Some c \<Rightarrow>
          if interrompe t c then
            (if c_lflag t AND T_NOFLSH = 0 then ([], [], e) else (l, q, e))
          else if c_lflag t AND T_ICANON = 0 then (l, take PTY_DIM (q @ [c]), e)
          else if e_il T_VEOF t c then (l, q, e \<or> l = [])
          else if indietro t c then (butlast l, q, e)
          else if e_il T_VKILL t c then ([], q, e)
          else if c = 10 then ([], take PTY_DIM (q @ l @ [10]), e)
          else if c \<ge> 0x20 \<and> length l < PTY_RIGA_MAX - 1 then (l @ [c], q, e)
          else (l, q, e)))"

lemma eco_sel [simp]:
  "y_usata (eco c p) = y_usata p" "y_in (eco c p) = y_in p" "riga (eco c p) = riga p" "riga_n (eco c p) = riga_n p"
  "y_t (eco c p) = y_t p" "pid_fg (eco c p) = pid_fg p" "master_aperti (eco c p) = master_aperti p"
  "slave_aperti (eco c p) = slave_aperti p" "att_in (eco c p) = att_in p" "att_out (eco c p) = att_out p"
  "att_spazio (eco c p) = att_spazio p" "fine_dati (eco c p) = fine_dati p"
  "anello_ok (y_out p) \<Longrightarrow> anello_ok (y_out (eco c p))"
  by (simp_all add: eco_def Let_def metti_ok)

lemma eco_str_sel [simp]:
  "y_usata (eco_str s p) = y_usata p" "y_in (eco_str s p) = y_in p" "riga (eco_str s p) = riga p" "riga_n (eco_str s p) = riga_n p"
  "y_t (eco_str s p) = y_t p" "pid_fg (eco_str s p) = pid_fg p" "master_aperti (eco_str s p) = master_aperti p"
  "slave_aperti (eco_str s p) = slave_aperti p" "att_in (eco_str s p) = att_in p" "att_out (eco_str s p) = att_out p"
  "att_spazio (eco_str s p) = att_spazio p" "fine_dati (eco_str s p) = fine_dati p"
  "anello_ok (y_out p) \<Longrightarrow> anello_ok (y_out (eco_str s p))"
  unfolding eco_str_def by (induction s arbitrary: p) simp_all

lemma cancella_sel [simp]:
  "y_usata (cancella m p) = y_usata p" "y_in (cancella m p) = y_in p" "riga (cancella m p) = riga p"
  "riga_n (cancella m p) = riga_n p - 1"
  "y_t (cancella m p) = y_t p" "pid_fg (cancella m p) = pid_fg p" "master_aperti (cancella m p) = master_aperti p"
  "slave_aperti (cancella m p) = slave_aperti p" "att_in (cancella m p) = att_in p" "att_out (cancella m p) = att_out p"
  "att_spazio (cancella m p) = att_spazio p" "fine_dati (cancella m p) = fine_dati p"
  "anello_ok (y_out p) \<Longrightarrow> anello_ok (y_out (cancella m p))"
  by (simp_all add: cancella_def Let_def)

lemma cancella_pow [simp]:
  "y_usata ((cancella m ^^ n) p) = y_usata p" "y_in ((cancella m ^^ n) p) = y_in p" "riga ((cancella m ^^ n) p) = riga p"
  "riga_n ((cancella m ^^ n) p) = riga_n p - n"
  "y_t ((cancella m ^^ n) p) = y_t p" "pid_fg ((cancella m ^^ n) p) = pid_fg p"
  "master_aperti ((cancella m ^^ n) p) = master_aperti p" "slave_aperti ((cancella m ^^ n) p) = slave_aperti p"
  "att_in ((cancella m ^^ n) p) = att_in p" "att_out ((cancella m ^^ n) p) = att_out p"
  "att_spazio ((cancella m ^^ n) p) = att_spazio p" "fine_dati ((cancella m ^^ n) p) = fine_dati p"
  "anello_ok (y_out p) \<Longrightarrow> anello_ok (y_out ((cancella m ^^ n) p))"
  by (induction n) simp_all

lemma attese_sveglia_ok: "att_ok a \<Longrightarrow> att_ok (fst (attese_sveglia_locked a s))"
  by (simp add: attese_sveglia_locked_def att_ok_def)

lemma consegna_riga_abs:
  assumes "pty_ok p"
  shows "pty_abs (consegna_riga p) = ([], take PTY_DIM (acont (y_in p) @ take (riga_n p) (riga p)), fine_dati p)"
    "pty_ok (consegna_riga p)"
  using assms fold_metti [of "y_in p" "take (riga_n p) (riga p)"]
  by (simp_all add: pty_abs_def consegna_riga_def pty_ok_def)

lemma riga_snoc:
  assumes "n < length r"
  shows "take (Suc n) (r[n := c]) = take n r @ [c]"
  using assms by (simp add: take_Suc_conv_app_nth)

lemma disciplina_a_capo:
  assumes "pty_ok p"
  shows "pty_ok (consegna_riga (eco 10 (p\<lparr>riga := (riga p)[riga_n p := 10], riga_n := riga_n p + 1\<rparr>)))"
    "pty_abs (consegna_riga (eco 10 (p\<lparr>riga := (riga p)[riga_n p := 10], riga_n := riga_n p + 1\<rparr>))) =
     ([], take PTY_DIM (acont (y_in p) @ take (riga_n p) (riga p) @ [10]), fine_dati p)"
  using assms fold_metti [of "y_in p" "take (riga_n p) (riga p) @ [10]"] riga_snoc [of "riga_n p" "riga p" 10]
  by (auto simp: pty_abs_def consegna_riga_def pty_ok_def)

lemma disciplina_step:
  assumes ok: "pty_ok p" and d: "disciplina c0 (p, s) = (p', s')"
  shows "pty_ok p' \<and> pty_abs p' = editor (y_t p) c0 (pty_abs p) \<and> y_t p' = y_t p"
proof (cases "ingresso (y_t p) c0")
  case None
  then show ?thesis using ok d by (simp add: disciplina_def Let_def editor_def pty_abs_def)
next
  case (Some c)
  let ?t = "y_t p"
  have b: "riga_n p < PTY_RIGA_MAX" "length (riga p) = PTY_RIGA_MAX" using ok by (auto simp: pty_ok_def)
  consider (intr) "interrompe ?t c"
    | (raw) "\<not> interrompe ?t c" "c_lflag ?t AND T_ICANON = 0"
    | (can) "\<not> interrompe ?t c" "c_lflag ?t AND T_ICANON \<noteq> 0" by blast
  then show ?thesis
  proof cases
    case intr
    then show ?thesis using ok d Some
      by (auto simp: disciplina_def editor_def pty_abs_def pty_ok_def Let_def anello_ok_vuoto split: if_splits)
  next
    case raw
    then have "p' = eco c (p\<lparr>y_in := metti c (y_in p)\<rparr>)" using d Some by (simp add: disciplina_def Let_def)
    moreover have "editor ?t c0 (pty_abs p) = (take (riga_n p) (riga p), take PTY_DIM (acont (y_in p) @ [c]), fine_dati p)"
      using raw Some by (simp add: editor_def pty_abs_def)
    ultimately show ?thesis using ok by (simp add: pty_abs_def pty_ok_def metti_ok metti_content)
  next
    case can
    consider (eof) "e_il T_VEOF ?t c" | (era) "\<not> e_il T_VEOF ?t c" "indietro ?t c"
      | (kill) "\<not> e_il T_VEOF ?t c" "\<not> indietro ?t c" "e_il T_VKILL ?t c"
      | (riga) "\<not> e_il T_VEOF ?t c" "\<not> indietro ?t c" "\<not> e_il T_VKILL ?t c"
      by blast
    then show ?thesis
    proof cases
      case eof
      then have "riga_n p = 0 \<longleftrightarrow> take (riga_n p) (riga p) = []" using b by auto
      then show ?thesis using ok d Some can eof attese_sveglia_ok [of "att_in p" s]
        by (auto simp: disciplina_def Let_def editor_def pty_abs_def pty_ok_def split: if_splits prod.splits)
    next
      case era
      then have p': "p' = (if riga_n p > 0 then cancella T_ECHOE p else p)" using d Some can by (auto simp: disciplina_def Let_def)
      have "butlast (take (riga_n p) (riga p)) = take (riga_n p - 1) (riga p)" using b by (simp add: butlast_take)
      moreover have "editor ?t c0 (pty_abs p) = (butlast (take (riga_n p) (riga p)), acont (y_in p), fine_dati p)"
        using can era Some unfolding editor_def pty_abs_def by auto
      ultimately show ?thesis using ok by (auto simp: p' pty_abs_def pty_ok_def)
    next
      case kill
      then have p': "p' = (cancella T_ECHOK ^^ riga_n p) p" using d Some can by (auto simp: disciplina_def Let_def)
      have "editor ?t c0 (pty_abs p) = ([], acont (y_in p), fine_dati p)"
        using can kill Some unfolding editor_def pty_abs_def by auto
      then show ?thesis using ok by (simp add: p' pty_abs_def pty_ok_def)
    next
      case riga
      show ?thesis
      proof (cases "c = 10")
        case True
        have p': "p' = consegna_riga (eco 10 (p\<lparr>riga := (riga p)[riga_n p := 10], riga_n := riga_n p + 1\<rparr>))"
          using d Some can riga True b by (auto simp: disciplina_def Let_def)
        have "editor ?t c0 (pty_abs p) = ([], take PTY_DIM (acont (y_in p) @ take (riga_n p) (riga p) @ [10]), fine_dati p)"
          using can riga Some True unfolding editor_def pty_abs_def by auto
        moreover have "y_t p' = y_t p" by (simp add: p' consegna_riga_def)
        ultimately show ?thesis using disciplina_a_capo [OF ok] by (simp add: p')
      next
        case False
        have n127: "c \<noteq> 127" using riga by (auto simp: indietro_def)
        have p': "p' = (if c \<ge> 0x20 \<and> riga_n p < PTY_RIGA_MAX - 1
            then eco c (p\<lparr>riga := (riga p)[riga_n p := c], riga_n := riga_n p + 1\<rparr>) else p)"
          using d Some can riga False n127 by (auto simp: disciplina_def Let_def split: if_splits)
        have "editor ?t c0 (pty_abs p) = (if c \<ge> 0x20 \<and> riga_n p < PTY_RIGA_MAX - 1
            then (take (riga_n p) (riga p) @ [c], acont (y_in p), fine_dati p) else pty_abs p)"
          using can riga Some False b unfolding editor_def pty_abs_def by auto
        then show ?thesis using ok riga_snoc [of "riga_n p" "riga p" c] by (simp add: p' pty_abs_def pty_ok_def)
      qed
    qed
  qed
qed

lemma fold_disciplina:
  "pty_ok p \<Longrightarrow> fold disciplina src (p, s) = (p', s') \<Longrightarrow>
   pty_ok p' \<and> pty_abs p' = fold (editor (y_t p)) src (pty_abs p) \<and> y_t p' = y_t p"
proof (induction src arbitrary: p s)
  case (Cons c src)
  obtain p1 s1 where d: "disciplina c (p, s) = (p1, s1)" by fastforce
  have 1: "pty_ok p1" "pty_abs p1 = editor (y_t p) c (pty_abs p)" "y_t p1 = y_t p"
    using disciplina_step [OF Cons.prems(1) d] by auto
  have "fold disciplina src (p1, s1) = (p', s')" using Cons.prems(2) d by simp
  then show ?case using Cons.IH [OF 1(1)] 1 by simp
qed simp

lemma disciplina_usata: "disciplina c (p, s) = (p', s') \<Longrightarrow> y_usata p' = y_usata p \<and> master_aperti p' = master_aperti p"
  by (auto simp: disciplina_def Let_def consegna_riga_def split: option.splits if_splits prod.splits)

lemma fold_disciplina_usata: "fold disciplina src (p, s) = (p', s') \<Longrightarrow> y_usata p' = y_usata p"
proof (induction src arbitrary: p s)
  case (Cons c src)
  then show ?case using disciplina_usata by (cases "disciplina c (p, s)") force
qed simp

section \<open>Frames of the table\<close>

lemma pty_agg_simps [simp]:
  "ysch (pty_agg k f y) = ysch y" "pty_dir_posti (pty_agg k f y) = pty_dir_posti y"
  "length (pty_dir (pty_agg k f y)) = length (pty_dir y)"
  by (simp_all add: pty_agg_def)

lemma pty_agg_nth: "j < length (pty_dir y) \<Longrightarrow> pty_dir (pty_agg k f y) ! j = (if j = k then f (pty_dir y ! k) else pty_dir y ! j)"
  by (simp add: pty_agg_def nth_list_update)

lemma pty_da_handle_Some:
  "pty_da_handle h dir = Some k \<longleftrightarrow> 0 \<le> h \<and> k = nat h \<and> k < length dir \<and> y_usata (dir ! k)"
  by (auto simp: pty_da_handle_def)

lemma sveglia_in_sel:
  "ysch (sveglia_in k y) = snd (attese_sveglia_locked (att_in (pty_dir y ! k)) (ysch y))"
  "length (pty_dir (sveglia_in k y)) = length (pty_dir y)"
  "j < length (pty_dir y) \<Longrightarrow> pty_dir (sveglia_in k y) ! j =
     (if j = k then (pty_dir y ! k)\<lparr>att_in := fst (attese_sveglia_locked (att_in (pty_dir y ! k)) (ysch y))\<rparr> else pty_dir y ! j)"
  by (simp_all add: sveglia_in_def split_beta pty_agg_def nth_list_update)

lemma sveglia_out_sel:
  "ysch (sveglia_out k y) = snd (attese_sveglia_locked (att_out (pty_dir y ! k)) (ysch y))"
  "length (pty_dir (sveglia_out k y)) = length (pty_dir y)"
  "j < length (pty_dir y) \<Longrightarrow> pty_dir (sveglia_out k y) ! j =
     (if j = k then (pty_dir y ! k)\<lparr>att_out := fst (attese_sveglia_locked (att_out (pty_dir y ! k)) (ysch y))\<rparr> else pty_dir y ! j)"
  by (simp_all add: sveglia_out_def split_beta pty_agg_def nth_list_update)

lemma sveglia_spazio_sel:
  "ysch (sveglia_spazio k y) = snd (attese_sveglia_locked (att_spazio (pty_dir y ! k)) (ysch y))"
  "length (pty_dir (sveglia_spazio k y)) = length (pty_dir y)"
  "j < length (pty_dir y) \<Longrightarrow> pty_dir (sveglia_spazio k y) ! j =
     (if j = k then (pty_dir y ! k)\<lparr>att_spazio := fst (attese_sveglia_locked (att_spazio (pty_dir y ! k)) (ysch y))\<rparr> else pty_dir y ! j)"
  by (simp_all add: sveglia_spazio_def split_beta pty_agg_def nth_list_update)

text \<open>What \<^verbatim>\<open>pty_scrivi_master\<close> leaves in the pair, up to the lists of those it woke.\<close>

lemma scrivi_master_pty:
  assumes "pty_da_handle h (pty_dir y) = Some k" "fold disciplina src (pty_dir y ! k, ysch y) = (p, s)" "pty_ok p"
  shows "\<exists>p1. pty_dir (snd (pty_scrivi_master h src y)) ! k = p1 \<and> pty_ok p1 \<and> pty_abs p1 = pty_abs p \<and>
    y_t p1 = y_t p \<and> y_usata p1 = y_usata p \<and> master_aperti p1 = master_aperti p \<and> y_in p1 = y_in p"
    "fst (pty_scrivi_master h src y) = Inr (length src)"
    "length (pty_dir (snd (pty_scrivi_master h src y))) = length (pty_dir y)"
proof -
  have k: "k < length (pty_dir y)" using assms(1) by (simp add: pty_da_handle_Some)
  define y1 where "y1 = pty_agg k (\<lambda>_. p) (y\<lparr>ysch := s\<rparr>)"
  define y2 where "y2 = (if a_quanti (y_in p) \<noteq> 0 then sveglia_in k y1 else y1)"
  define y3 where "y3 = (if a_quanti (y_out p) \<noteq> 0 then sveglia_out k y2 else y2)"
  have w: "pty_scrivi_master h src y = (Inr (length src), y3)"
    using assms(1,2) by (simp add: pty_scrivi_master_def Let_def y1_def y2_def y3_def)
  have l: "length (pty_dir y1) = length (pty_dir y)" "length (pty_dir y2) = length (pty_dir y)"
    "length (pty_dir y3) = length (pty_dir y)" by (simp_all add: y1_def y2_def y3_def sveglia_in_sel sveglia_out_sel)
  have p1: "pty_dir y1 ! k = p" using k by (simp add: y1_def pty_agg_nth)
  obtain a where p2: "pty_dir y2 ! k = p\<lparr>att_in := a\<rparr>" and a: "att_ok a"
  proof (cases "a_quanti (y_in p) \<noteq> 0")
    case True
    show thesis by (rule that [of "fst (attese_sveglia_locked (att_in p) (ysch y1))"])
        (use True k l p1 assms(3) in \<open>simp_all add: y2_def sveglia_in_sel attese_sveglia_ok pty_ok_def\<close>)
  next
    case False
    show thesis by (rule that [of "att_in p"]) (use False p1 assms(3) in \<open>simp_all add: y2_def pty_ok_def\<close>)
  qed
  obtain b where p3: "pty_dir y3 ! k = p\<lparr>att_in := a, att_out := b\<rparr>" and b: "att_ok b"
  proof (cases "a_quanti (y_out p) \<noteq> 0")
    case True
    show thesis by (rule that [of "fst (attese_sveglia_locked (att_out p) (ysch y2))"])
        (use True k l p2 assms(3) in \<open>simp_all add: y3_def sveglia_out_sel attese_sveglia_ok pty_ok_def\<close>)
  next
    case False
    show thesis by (rule that [of "att_out p"]) (use False p2 assms(3) in \<open>simp_all add: y3_def pty_ok_def\<close>)
  qed
  show "\<exists>p1. pty_dir (snd (pty_scrivi_master h src y)) ! k = p1 \<and> pty_ok p1 \<and> pty_abs p1 = pty_abs p \<and>
    y_t p1 = y_t p \<and> y_usata p1 = y_usata p \<and> master_aperti p1 = master_aperti p \<and> y_in p1 = y_in p"
    using w p3 a b assms(3) by (simp add: pty_ok_def pty_abs_def)
  show "fst (pty_scrivi_master h src y) = Inr (length src)" "length (pty_dir (snd (pty_scrivi_master h src y))) = length (pty_dir y)"
    using w l by simp_all
qed

text \<open>C20. The line discipline is a line editor: writing keys to the master changes the line being typed, what the
  program can read and the mark of the end of the data exactly as the editor on lists does key by key, whatever
  the modes; a line never exceeds its buffer, and every key is taken.\<close>

theorem pty_scrivi_master_edits:
  assumes "pty_da_handle h (pty_dir y) = Some k" "pty_ok (pty_dir y ! k)" "pty_scrivi_master h src y = (r, y')"
  shows "pty_abs (pty_dir y' ! k) = fold (editor (y_t (pty_dir y ! k))) src (pty_abs (pty_dir y ! k)) \<and>
    pty_ok (pty_dir y' ! k) \<and> r = Inr (length src)"
proof -
  obtain p s where f: "fold disciplina src (pty_dir y ! k, ysch y) = (p, s)" by fastforce
  have "pty_ok p" "pty_abs p = fold (editor (y_t (pty_dir y ! k))) src (pty_abs (pty_dir y ! k))"
    using fold_disciplina [OF assms(2) f] by auto
  then show ?thesis using scrivi_master_pty [OF assms(1) f] assms(3) by auto
qed

definition pty_esempio :: pty_sys where
  "pty_esempio = \<lparr>ysch = sched_corsa, pty_dir = [pty_nuova pty_zero], pty_dir_posti = 8\<rparr>"

lemma pty_nuova_ok: "att_ok (att_in p) \<Longrightarrow> att_ok (att_out p) \<Longrightarrow> att_ok (att_spazio p) \<Longrightarrow> pty_ok (pty_nuova p)"
  by (simp add: pty_ok_def pty_nuova_def Let_def pty_azzera_def pty_zero_def pty_sano_def attese_rimetti_def att_ok_def
      anello_ok_vuoto)

lemma pty_esempio_hyps:
  "pty_da_handle 0 (pty_dir pty_esempio) = Some 0" "pty_ok (pty_dir pty_esempio ! 0)"
  "pty_abs (pty_dir pty_esempio ! 0) = ([], [], False)"
  "y_t (pty_dir pty_esempio ! 0) = pty_sano (replicate PTY_NCCS 0)"
  using pty_nuova_ok [of pty_zero]
  by (simp_all add: pty_esempio_def pty_da_handle_def pty_nuova_def pty_azzera_def pty_zero_def Let_def attese_zero_def
      att_ok_def pty_abs_def)

theorem pty_scrivi_master_edits_witness:
  "pty_abs (pty_dir (snd (pty_scrivi_master 0 [108, 120, 127, 115, 13, 4] pty_esempio)) ! 0) = ([], [108, 115, 10], True)"
proof -
  let ?w = "pty_scrivi_master 0 [108, 120, 127, 115, 13, 4] pty_esempio"
  obtain r y' where w: "?w = (r, y')" by fastforce
  have "fold (editor (pty_sano (replicate PTY_NCCS 0))) [108, 120, 127, 115, 13, 4] ([], [], False) = ([], [108, 115, 10], True)"
    by code_simp
  then show ?thesis using pty_scrivi_master_edits [OF pty_esempio_hyps(1,2) w] pty_esempio_hyps(3,4) w by simp
qed

section \<open>A line typed is the line read\<close>

text \<open>A byte of text under the modes \<open>t\<close>, and a newline that ends a line.\<close>

definition testo :: "pty_termios \<Rightarrow> u8 \<Rightarrow> bool" where
  "testo t c \<longleftrightarrow> ingresso t c = Some c \<and> \<not> interrompe t c \<and> \<not> e_il T_VEOF t c \<and> \<not> indietro t c \<and> \<not> e_il T_VKILL t c \<and>
     c \<noteq> 10 \<and> c \<ge> 0x20"

definition a_capo :: "pty_termios \<Rightarrow> u8 \<Rightarrow> bool" where
  "a_capo t c \<longleftrightarrow> ingresso t c = Some 10 \<and> \<not> interrompe t 10 \<and> \<not> e_il T_VEOF t 10 \<and> \<not> indietro t 10 \<and> \<not> e_il T_VKILL t 10"

lemma editor_testo:
  "c_lflag t AND T_ICANON \<noteq> 0 \<Longrightarrow> \<forall>c \<in> set xs. testo t c \<Longrightarrow> length l + length xs < PTY_RIGA_MAX \<Longrightarrow>
   fold (editor t) xs (l, q, e) = (l @ xs, q, e)"
proof (induction xs arbitrary: l)
  case (Cons c xs)
  have "editor t c (l, q, e) = (l @ [c], q, e)" using Cons.prems by (simp add: editor_def testo_def)
  then show ?case using Cons.IH [of "l @ [c]"] Cons.prems by simp
qed simp

lemma editor_riga:
  assumes "c_lflag t AND T_ICANON \<noteq> 0" "\<forall>c \<in> set xs. testo t c" "length xs < PTY_RIGA_MAX" "a_capo t nl"
  shows "fold (editor t) (xs @ [nl]) ([], [], e) = ([], xs @ [10], e)"
proof -
  have "fold (editor t) xs ([], [], e) = (xs, [], e)" using editor_testo [OF assms(1,2), of "[]"] assms(3) by simp
  moreover have "editor t nl (xs, [], e) = ([], xs @ [10], e)"
    using assms by (simp add: editor_def a_capo_def)
  ultimately show ?thesis by simp
qed

lemma leggi_slave_canonico:
  assumes "pty_da_handle h (pty_dir y) = Some k" "pty_ok (pty_dir y ! k)"
    "c_lflag (y_t (pty_dir y ! k)) AND T_ICANON \<noteq> 0" "acont (y_in (pty_dir y ! k)) \<noteq> []" "0 < n"
  shows "fst (pty_leggi_slave h n y) = Ritorna (Inr (take n (acont (y_in (pty_dir y ! k)))))"
proof -
  let ?p = "pty_dir y ! k"
  have a: "anello_ok (y_in ?p)" using assms(2) by (simp add: pty_ok_def)
  have q: "a_quanti (y_in ?p) > 0" "a_quanti (y_in ?p) \<le> PTY_DIM"
    using assms(4) length_acont [of "y_in ?p"] a by (metis length_greater_0_conv, simp add: anello_ok_def)
  have "take (if n > PTY_DIM then PTY_DIM else n) (acont (y_in ?p)) = take n (acont (y_in ?p))" using q by auto
  then show ?thesis using assms(1,3,5) q prendi_content(1) [OF a]
    by (auto simp: pty_leggi_slave_def pty_leggi_slave_inizio_def Let_def pty_leggi_slave_giro_def pty_prova_def
        pty_prendi_in_def case_prod_beta)
qed

text \<open>C21. What is typed is what is read: on a canonical terminal with nothing waiting, the keys of a text of up to
  255 bytes followed by Enter, written to the master, make the next read of the slave return that text and a
  newline (as much of it as was asked for).\<close>

theorem pty_riga_roundtrip:
  assumes "pty_da_handle h (pty_dir y) = Some k" "pty_ok (pty_dir y ! k)" "pty_abs (pty_dir y ! k) = ([], [], e)"
    "c_lflag (y_t (pty_dir y ! k)) AND T_ICANON \<noteq> 0" "\<forall>c \<in> set xs. testo (y_t (pty_dir y ! k)) c"
    "length xs < PTY_RIGA_MAX" "a_capo (y_t (pty_dir y ! k)) nl" "0 < n"
  shows "fst (pty_leggi_slave h n (snd (pty_scrivi_master h (xs @ [nl]) y))) = Ritorna (Inr (take n (xs @ [10])))"
proof -
  let ?p = "pty_dir y ! k" and ?y = "snd (pty_scrivi_master h (xs @ [nl]) y)"
  obtain p s where f: "fold disciplina (xs @ [nl]) (?p, ysch y) = (p, s)" by fastforce
  have d: "pty_ok p" "pty_abs p = ([], xs @ [10], e)" "y_t p = y_t ?p"
    using fold_disciplina [OF assms(2) f] editor_riga [OF assms(4-7), of e] assms(3) by auto
  obtain p1 where p1: "pty_dir ?y ! k = p1" "pty_ok p1" "pty_abs p1 = pty_abs p" "y_t p1 = y_t p" "y_usata p1 = y_usata p"
    and l: "length (pty_dir ?y) = length (pty_dir y)" using scrivi_master_pty [OF assms(1) f d(1)] by blast
  have "y_usata p = y_usata ?p" using fold_disciplina_usata [OF f] .
  then have hd: "pty_da_handle h (pty_dir ?y) = Some k" using assms(1) p1 l by (auto simp: pty_da_handle_Some)
  have "acont (y_in p1) = xs @ [10]" using p1(3) d(2) by (simp add: pty_abs_def)
  then show ?thesis using leggi_slave_canonico [OF hd _ _ _ assms(8)] p1 d(3) assms(4) by simp
qed

theorem pty_riga_roundtrip_witness:
  "fst (pty_leggi_slave 0 80 (snd (pty_scrivi_master 0 ([108, 115] @ [13]) pty_esempio))) = Ritorna (Inr (take 80 [108, 115, 10]))"
proof -
  let ?t = "pty_sano (replicate PTY_NCCS 0)"
  have t: "testo ?t 108" "testo ?t 115" "a_capo ?t 13" "c_lflag ?t AND T_ICANON \<noteq> 0" by code_simp+
  show ?thesis
    using pty_riga_roundtrip [OF pty_esempio_hyps(1-3), of "[108, 115]" 13 80] t pty_esempio_hyps(4) by simp
qed

section \<open>The output of a program is not lost\<close>

text \<open>What a byte becomes on its way to the master.\<close>

definition espandi :: "pty_termios \<Rightarrow> u8 \<Rightarrow> u8 list" where
  "espandi t c = (if c = 10 \<and> onlcr t then [13, 10] else [c])"

lemma metti_posto: "anello_ok a \<Longrightarrow> a_quanti a < PTY_DIM \<Longrightarrow> acont (metti c a) = acont a @ [c] \<and> a_quanti (metti c a) = a_quanti a + 1"
  by (simp add: metti_content metti_quanti)

lemma riempi_spec:
  "anello_ok a \<Longrightarrow> riempi t cs a = (m, a') \<Longrightarrow>
   anello_ok a' \<and> m \<le> length cs \<and> acont a' = acont a @ concat (map (espandi t) (take m cs)) \<and>
   (m < length cs \<longrightarrow> PTY_DIM < a_quanti a' + length (espandi t (cs ! m)))"
proof (induction t cs a arbitrary: m a' rule: riempi.induct)
  case (2 t c cs a)
  consider (pieno) "a_quanti a \<ge> PTY_DIM" | (stretto) "a_quanti a < PTY_DIM" "c = 10 \<and> onlcr t" "a_quanti a > PTY_DIM - 2"
    | (due) "a_quanti a < PTY_DIM" "c = 10 \<and> onlcr t" "\<not> a_quanti a > PTY_DIM - 2"
    | (una) "a_quanti a < PTY_DIM" "\<not> (c = 10 \<and> onlcr t)" using not_le by blast
  then show ?case
  proof cases
    case pieno
    then show ?thesis using 2(3,4) by (auto simp: espandi_def)
  next
    case stretto
    then show ?thesis using 2(3,4) by (auto simp: espandi_def)
  next
    case due
    let ?b = "metti c (metti 13 a)"
    obtain k where r: "riempi t cs ?b = (k, a')" "m = k + 1" using 2(4) due by (auto split: prod.splits)
    have b: "anello_ok ?b" "acont ?b = acont a @ espandi t c" using due 2(3) metti_posto [OF 2(3), of 13]
        metti_posto [OF metti_ok [OF 2(3), of 13], of c] by (auto simp: metti_ok espandi_def)
    show ?thesis using 2(1) [OF _ due(2,3) b(1) r(1)] due(1) b r(2) by simp
  next
    case una
    let ?b = "metti c a"
    obtain k where r: "riempi t cs ?b = (k, a')" "m = k + 1" using 2(4) una by (auto split: prod.splits)
    have b: "anello_ok ?b" "acont ?b = acont a @ espandi t c" using una 2(3) metti_posto [OF 2(3), of c]
      by (auto simp: metti_ok espandi_def)
    show ?thesis using 2(2) [OF _ una(2) b(1) r(1)] una(1) b r(2) by simp
  qed
qed simp

lemma attese_sveglia_current: "g_current (snd (attese_sveglia_locked a s)) = g_current s"
proof -
  have "g_current (fold sched_unblock_locked ks s) = g_current s" for ks s by (induction ks arbitrary: s) simp_all
  then show ?thesis by (simp add: attese_sveglia_locked_def)
qed

text \<open>C22. The output of a program is not lost: a turn of a write to the slave puts behind what the master has still
  to read exactly the bytes it counts as written, each newline as CR LF when the modes say so; it returns only
  when everything is written, and sleeps only when the next byte does not fit.\<close>

theorem pty_scrivi_slave_complete:
  assumes "pty_da_handle h (pty_dir y) = Some k" "pty_ok (pty_dir y ! k)" "master_aperti (pty_dir y ! k) > 0"
    "scritti \<le> length src" "proc_get_current (ysch y) \<noteq> None"
    "pty_scrivi_slave_giro h src scritti y = (g, n1, y')"
  shows "scritti \<le> n1 \<and> n1 \<le> length src \<and>
    acont (y_out (pty_dir y' ! k)) =
      acont (y_out (pty_dir y ! k)) @ concat (map (espandi (y_t (pty_dir y ! k))) (take (n1 - scritti) (drop scritti src))) \<and>
    (g = Ritorna (Inr (length src)) \<and> n1 = length src \<or>
     (g = Dormi \<or> g = Cresce) \<and> n1 < length src \<and>
     PTY_DIM < a_quanti (y_out (pty_dir y' ! k)) + length (espandi (y_t (pty_dir y ! k)) (src ! n1)))"
proof -
  let ?p = "pty_dir y ! k"
  have k: "k < length (pty_dir y)" using assms(1) by (simp add: pty_da_handle_Some)
  obtain m a where r: "riempi (y_t ?p) (drop scritti src) (y_out ?p) = (m, a)" by fastforce
  have ao: "anello_ok (y_out ?p)" using assms(2) by (simp add: pty_ok_def)
  note rs = riempi_spec [OF ao r]
  define y1 where "y1 = sveglia_out k (pty_agg k (\<lambda>p. p\<lparr>y_out := a\<rparr>) y)"
  have o1: "y_out (pty_dir y1 ! k) = a" "length (pty_dir y1) = length (pty_dir y)"
    using k by (simp_all add: y1_def sveglia_out_sel pty_agg_nth)
  have c1: "proc_get_current (ysch y1) \<noteq> None"
    using assms(5) by (simp add: y1_def sveglia_out_sel proc_get_current_def attese_sveglia_current)
  then obtain c where c: "proc_get_current (ysch y1) = Some c" by auto
  have n1: "n1 = scritti + m \<and> y_out (pty_dir y' ! k) = a \<and>
    (g = Ritorna (Inr n1) \<and> n1 = length src \<or> (g = Dormi \<or> g = Cresce) \<and> n1 \<noteq> length src)"
    using assms(1,3,6) r c o1 k unfolding pty_scrivi_slave_giro_def y1_def [symmetric]
    by (auto simp: Let_def y1_def [symmetric] pty_agg_nth split: prod.splits if_splits)
  then show ?thesis using rs assms(4) by auto
qed

lemma pty_esempio_sel:
  "y_out (pty_dir pty_esempio ! 0) = anello_zero" "master_aperti (pty_dir pty_esempio ! 0) = 1"
  "proc_get_current (ysch pty_esempio) = Some 1" "slave_aperti (pty_dir pty_esempio ! 0) = 1"
  "att_spazio (pty_dir pty_esempio ! 0) = attese_zero"
  using sched_corsa_sel
  by (simp_all add: pty_esempio_def pty_nuova_def pty_azzera_def pty_zero_def Let_def proc_get_current_def attese_rimetti_def
      attese_zero_def)

theorem pty_scrivi_slave_complete_witness:
  "acont (y_out (pty_dir (snd (snd (pty_scrivi_slave_giro 0 [104, 10] 0 pty_esempio))) ! 0)) = [104, 13, 10]"
proof -
  obtain g n1 y' where w: "pty_scrivi_slave_giro 0 [104, 10] 0 pty_esempio = (g, n1, y')" by (metis prod_cases3)
  have e: "onlcr (pty_sano (replicate PTY_NCCS 0))" by code_simp
  have "master_aperti (pty_dir pty_esempio ! 0) > 0" "proc_get_current (ysch pty_esempio) \<noteq> None"
    by (simp_all add: pty_esempio_sel)
  note t = pty_scrivi_slave_complete [OF pty_esempio_hyps(1,2) this(1) _ this(2) w]
  have "n1 = 2"
  proof (rule ccontr)
    assume "n1 \<noteq> 2"
    then have "n1 < 2" "PTY_DIM < a_quanti (y_out (pty_dir y' ! 0)) + 2"
      using t by (auto simp: espandi_def split: if_splits)
    moreover have "a_quanti (y_out (pty_dir y' ! 0)) \<le> 4"
      using t length_acont [of "y_out (pty_dir y' ! 0)"] \<open>n1 < 2\<close>
      by (auto simp: pty_esempio_sel espandi_def take_Cons' split: if_splits simp del: length_acont)
    ultimately show False by simp
  qed
  then show ?thesis using t w e by (simp add: pty_esempio_sel pty_esempio_hyps espandi_def)
qed

section \<open>What poll promises\<close>

definition resta :: "'a giro \<Rightarrow> bool" where
  "resta g \<longleftrightarrow> (case g of Ritorna _ \<Rightarrow> False | _ \<Rightarrow> True)"

text \<open>C23. Poll says the truth: the master is ready exactly when a read of it returns at once, and in canonical
  mode the slave is ready exactly when a read of it returns at once; in raw mode without a timer a ready slave
  returns at once unless a Ctrl+D was left over from before the change of mode.\<close>

theorem pty_poll_exact:
  assumes "pty_da_handle h (pty_dir y) = Some k" "proc_get_current (ysch y) \<noteq> None" "0 < n"
  shows "(pty_pronto_master h y \<longleftrightarrow> \<not> resta (fst (pty_leggi_master h n y))) \<and>
    (c_lflag (y_t (pty_dir y ! k)) AND T_ICANON \<noteq> 0 \<longrightarrow> (pty_pronto_slave h y \<longleftrightarrow> \<not> resta (fst (pty_leggi_slave h n y)))) \<and>
    (c_cc (y_t (pty_dir y ! k)) ! T_VTIME = 0 \<and> \<not> fine_dati (pty_dir y ! k) \<and> pty_pronto_slave h y \<longrightarrow>
       \<not> resta (fst (pty_leggi_slave h n y)))"
proof (intro conjI impI)
  let ?p = "pty_dir y ! k"
  obtain c where c: "proc_get_current (ysch y) = Some c" using assms(2) by auto
  show "pty_pronto_master h y \<longleftrightarrow> \<not> resta (fst (pty_leggi_master h n y))"
    using assms(1,3) c
    by (auto simp: pty_pronto_master_def pty_leggi_master_def pty_leggi_master_giro_def Let_def resta_def split: prod.split)
  show "pty_pronto_slave h y \<longleftrightarrow> \<not> resta (fst (pty_leggi_slave h n y))" if "c_lflag (y_t ?p) AND T_ICANON \<noteq> 0"
    using assms(1,3) c that
    by (auto simp: pty_pronto_slave_def pty_leggi_slave_def pty_leggi_slave_inizio_def pty_leggi_slave_giro_def pty_prova_def
        pty_prendi_in_def Let_def resta_def split: prod.split)
  show "\<not> resta (fst (pty_leggi_slave h n y))"
    if "c_cc (y_t ?p) ! T_VTIME = 0 \<and> \<not> fine_dati ?p \<and> pty_pronto_slave h y"
  proof (cases "c_lflag (y_t ?p) AND T_ICANON \<noteq> 0")
    case True
    then show ?thesis using assms(1,3) c that
      by (auto simp: pty_pronto_slave_def pty_leggi_slave_def pty_leggi_slave_inizio_def pty_leggi_slave_giro_def pty_prova_def
          pty_prendi_in_def Let_def resta_def split: prod.split)
  next
    case False
    then show ?thesis using assms(1,3) c that
      by (auto simp: pty_pronto_slave_def pty_leggi_slave_def pty_leggi_slave_inizio_def pty_leggi_slave_giro_def pty_prova_def
          pty_prendi_in_def Let_def resta_def split: prod.split if_splits)
  qed
qed

theorem pty_poll_exact_witness:
  "pty_pronto_master 0 pty_esempio = False \<and> resta (fst (pty_leggi_master 0 10 pty_esempio))"
proof -
  have "\<not> pty_pronto_master 0 pty_esempio"
    using pty_esempio_hyps(1) by (simp add: pty_pronto_master_def pty_esempio_sel anello_zero_def)
  then show ?thesis
    using pty_poll_exact [OF pty_esempio_hyps(1), of 10] pty_esempio_sel(3) by simp
qed

text \<open>The exception is real: a Ctrl+D at an empty line, then a change to raw mode asking for more bytes than
  have come, and poll calls the slave ready while a read of it goes to sleep.\<close>

theorem pty_poll_stale_eof:
  assumes "pty_da_handle h (pty_dir y) = Some k" "proc_get_current (ysch y) \<noteq> None"
    "fine_dati (pty_dir y ! k)" "master_aperti (pty_dir y ! k) > 0"
    "c_lflag (y_t (pty_dir y ! k)) AND T_ICANON = 0" "c_cc (y_t (pty_dir y ! k)) ! T_VTIME = 0"
    "0 < a_quanti (y_in (pty_dir y ! k))" "a_quanti (y_in (pty_dir y ! k)) < unat (c_cc (y_t (pty_dir y ! k)) ! T_VMIN)"
    "unat (c_cc (y_t (pty_dir y ! k)) ! T_VMIN) \<le> n"
  shows "pty_pronto_slave h y \<and> resta (fst (pty_leggi_slave h n y))"
proof -
  have "unat (c_cc (y_t (pty_dir y ! k)) ! T_VMIN) < 2 ^ LENGTH(8)" by (rule unsigned_less)
  then show ?thesis using assms
    by (auto simp: pty_pronto_slave_def pty_leggi_slave_def pty_leggi_slave_inizio_def pty_leggi_slave_giro_def pty_prova_def
        Let_def resta_def case_prod_beta)
qed

text \<open>The terminal of the example after Ctrl+D, \<^verbatim>\<open>tcsetattr\<close> to raw mode with \<^verbatim>\<open>VMIN\<close> 2, and one key.\<close>

definition pty_grezzo :: pty_termios where
  "pty_grezzo = (pty_sano (replicate PTY_NCCS 0))\<lparr>c_lflag := 0, c_cc := (c_cc (pty_sano (replicate PTY_NCCS 0)))[T_VMIN := 2]\<rparr>"

definition pty_residuo :: pty where
  "pty_residuo = (pty_nuova pty_zero)\<lparr>fine_dati := True, y_t := pty_grezzo, y_in := metti 97 anello_zero\<rparr>"

theorem pty_poll_stale_eof_witness:
  "pty_pronto_slave 0 (pty_esempio\<lparr>pty_dir := [pty_residuo]\<rparr>) \<and>
   resta (fst (pty_leggi_slave 0 5 (pty_esempio\<lparr>pty_dir := [pty_residuo]\<rparr>)))"
  by (rule pty_poll_stale_eof [where k = 0])
    (use pty_esempio_sel(3) in \<open>simp_all add: pty_residuo_def pty_grezzo_def pty_sano_def pty_da_handle_def pty_nuova_def
       pty_azzera_def pty_zero_def Let_def metti_quanti anello_zero_def\<close>)

section \<open>Room that nobody is told about\<close>

text \<open>Flushing the output makes room without telling: whoever slept for room in the return ring is still
  asleep and still registered afterwards although the ring is empty, and the master has nothing to read whose
  reading would wake them.\<close>

theorem pty_flush_strands_writer:
  assumes "pty_da_handle h (pty_dir y) = Some k" "arg = 1 \<or> arg = 2" "pty_ioctl h (TCFLSH arg) y = (r, y')"
    "slave_aperti (pty_dir y ! k) > 0" "state (g_proc (ysch y) ! i) = PROC_BLOCKED"
    "pid (g_proc (ysch y) ! i) \<in> waiters (att_spazio (pty_dir y ! k))"
  shows "state (g_proc (ysch y') ! i) = PROC_BLOCKED \<and> pid (g_proc (ysch y') ! i) \<in> waiters (att_spazio (pty_dir y' ! k)) \<and>
    acont (y_out (pty_dir y' ! k)) = [] \<and> \<not> pty_pronto_master h y'"
proof -
  have k: "0 \<le> h" "k = nat h" "k < length (pty_dir y)" "y_usata (pty_dir y ! k)" using assms(1) by (auto simp: pty_da_handle_Some)
  define p where "p = pty_dir y' ! k"
  have "ysch y' = ysch y \<and> length (pty_dir y') = length (pty_dir y) \<and> y_usata p \<and> att_spazio p = att_spazio (pty_dir y ! k) \<and>
    a_quanti (y_out p) = 0 \<and> slave_aperti p = slave_aperti (pty_dir y ! k)"
    using assms(1,2,3) k by (auto simp: p_def pty_ioctl_def Let_def pty_agg_nth split: if_splits)
  then show ?thesis using assms k unfolding p_def
    by (simp add: pty_pronto_master_def pty_da_handle_def Let_def acont_def)
qed

definition pty_pieno :: pty_sys where
  "pty_pieno = \<lparr>ysch = sched_block PROC_BLOCKED sched_corsa,
     pty_dir = [(pty_nuova pty_zero)\<lparr>y_out := anello_zero\<lparr>a_quanti := PTY_DIM\<rparr>, att_spazio := attese_zero\<lparr>uno := 2\<rparr>\<rparr>],
     pty_dir_posti = 8\<rparr>"

theorem pty_flush_strands_writer_witness:
  "state (g_proc (ysch (snd (pty_ioctl 0 (TCFLSH 1) pty_pieno))) ! 1) = PROC_BLOCKED \<and>
   acont (y_out (pty_dir (snd (pty_ioctl 0 (TCFLSH 1) pty_pieno)) ! 0)) = []"
proof -
  obtain r y' where w: "pty_ioctl 0 (TCFLSH 1) pty_pieno = (r, y')" by fastforce
  have b: "state (g_proc (ysch pty_pieno) ! 1) = PROC_BLOCKED" "pid (g_proc (ysch pty_pieno) ! 1) = 2" unfolding pty_pieno_def by code_simp+
  have "pty_da_handle 0 (pty_dir pty_pieno) = Some 0" "slave_aperti (pty_dir pty_pieno ! 0) > 0"
    "2 \<in> waiters (att_spazio (pty_dir pty_pieno ! 0))"
    by (simp_all add: pty_pieno_def pty_da_handle_def pty_nuova_def pty_azzera_def pty_zero_def Let_def waiters_def attese_zero_def)
  then show ?thesis using pty_flush_strands_writer [OF _ _ w, of 0 1] b w by simp
qed

section \<open>Opening by name\<close>

lemma pty_apri_nuova:
  "pty_apri mems (dir, room) = (Some (Inr h), dir', room') \<Longrightarrow> h < length dir' \<and> (\<exists>q. dir' ! h = pty_nuova q)"
proof (induction mems "(dir, room)" arbitrary: dir room rule: pty_apri.induct)
  case (1 mems dir room)
  show ?case
  proof (cases "find (\<lambda>i. \<not> y_usata (dir ! i)) [0..<length dir]")
    case None
    then obtain mem mem_dir rest d r where m: "mems = (mem, mem_dir) # rest" "pty_in_piu mem mem_dir (dir, room) = Some (d, r)"
      "pty_apri rest (d, r) = (Some (Inr h), dir', room')"
      using 1(2) by (auto simp del: pty_apri.simps simp: pty_apri.simps [of mems] split: list.splits option.splits)
    show ?thesis by (rule 1(1) [OF None m(1) refl m(2) refl m(3)])
  next
    case (Some i)
    then have "i < length dir" by (auto dest: find_SomeD)
    then show ?thesis using 1(2) Some by auto
  qed
qed

lemma sint_numero: "h < 2 ^ 31 \<Longrightarrow> sint (of_nat h :: u32) = int h"
  by (simp add: signed_of_nat signed_take_bit_int_eq_self)

text \<open>A pair opened through \<^verbatim>\<open>/dev/ptmx\<close> is locked: its slave cannot be opened by name until the lock is taken
  off, then it can, and until somebody has opened it the master waits instead of seeing the end of the data.\<close>

theorem pty_ptmx_locked:
  assumes "pty_apri_ptmx mems (pty_dir y, pty_dir_posti y) = (Some (Inr h), dir', room')" "h < 2 ^ 31"
    "y1 = y\<lparr>pty_dir := dir', pty_dir_posti := room'\<rparr>"
  shows "fst (pty_apri_slave (of_nat h) y1) = Inl EIO \<and> \<not> pty_pronto_master (int h) y1 \<and>
    fst (pty_apri_slave (of_nat h) (snd (pty_ioctl (int h) (TIOCSPTLCK 0) y1))) = Inr ()"
proof -
  obtain d where d: "pty_apri mems (pty_dir y, pty_dir_posti y) = (Some (Inr h), d, room')"
    "dir' = d[h := (d ! h)\<lparr>slave_aperti := 0, slave_atteso := True, bloccato := True\<rparr>]"
    using assms(1) by (auto simp: pty_apri_ptmx_def split: prod.splits option.splits sum.splits)
  obtain q where q: "h < length d" "d ! h = pty_nuova q" using pty_apri_nuova [OF d(1)] by auto
  have "y_usata (pty_nuova q)" "master_aperti (pty_nuova q) = 1" "a_quanti (y_out (pty_nuova q)) = 0"
    by (simp_all add: pty_nuova_def pty_azzera_def pty_zero_def Let_def anello_zero_def)
  then show ?thesis using q sint_numero [OF assms(2)]
    by (simp add: assms(3) d(2) pty_apri_slave_def pty_numero_def pty_da_handle_def Let_def pty_pronto_master_def pty_ioctl_def
        pty_agg_def)
qed

theorem pty_ptmx_locked_witness:
  "\<exists>dir'. pty_apri_ptmx [(True, True)] (pty_dir pty_esempio, pty_dir_posti pty_esempio) = (Some (Inr 1), dir', 8) \<and>
     fst (pty_apri_slave 1 (pty_esempio\<lparr>pty_dir := dir', pty_dir_posti := 8\<rparr>)) = Inl EIO"
proof -
  have u: "y_usata (pty_nuova pty_zero)" "\<not> y_usata pty_zero" by (simp_all add: pty_nuova_def pty_azzera_def pty_zero_def Let_def)
  obtain dir' where a: "pty_apri_ptmx [(True, True)] (pty_dir pty_esempio, pty_dir_posti pty_esempio) = (Some (Inr 1), dir', 8)"
    using u by (simp add: pty_apri_ptmx_def pty_esempio_def pty_in_piu_def)
  then show ?thesis using pty_ptmx_locked [OF a _ refl] by simp
qed

section \<open>Ctrl+C\<close>

text \<open>C24. Ctrl+C is not a character: with signals on, the interrupt key puts nothing in front of the program, and it
  marks the foreground process as interrupted and wakes it if it was blocked; without a foreground process it
  touches nobody.\<close>

theorem pty_ctrl_c:
  assumes "pty_ok p" "ingresso (y_t p) c0 = Some c" "interrompe (y_t p) c" "disciplina c0 (p, s) = (p', s')"
  shows "length (acont (y_in p')) \<le> length (acont (y_in p)) \<and> take (length (acont (y_in p'))) (acont (y_in p)) = acont (y_in p') \<and>
    (pid_fg p = 0 \<longrightarrow> s' = s) \<and>
    (\<forall>i. pid_fg p \<noteq> 0 \<and> proc_get_by_pid (pid_fg p) s = Some i \<and> pids_ok s \<and> sched_ok s \<longrightarrow>
       interrotto (g_proc s' ! i) \<and> state (g_proc s' ! i) \<noteq> PROC_BLOCKED)"
proof -
  have s': "s' = (if pid_fg p \<noteq> 0 then snd (proc_interrompi_locked (pid_fg p) s) else s)"
    and p': "acont (y_in p') = (if c_lflag (y_t p) AND T_NOFLSH = 0 then [] else acont (y_in p))"
    using assms(2-4) by (auto simp: disciplina_def Let_def)
  have "interrotto (g_proc s' ! i) \<and> state (g_proc s' ! i) \<noteq> PROC_BLOCKED"
    if f: "pid_fg p \<noteq> 0" "proc_get_by_pid (pid_fg p) s = Some i" "pids_ok s" "sched_ok s" for i
  proof -
    have i: "i < length (g_proc s)" "state (g_proc s ! i) \<noteq> PROC_UNUSED" "pid (g_proc s ! i) = pid_fg p"
      using find_SomeD [OF f(2) [unfolded proc_get_by_pid_def]] by auto
    show ?thesis using proc_interrompi_effect [OF f(4,3) i(1,2)] i(3) f(1) by (simp add: s' Let_def)
  qed
  then show ?thesis using p' s' by auto
qed

theorem pty_ctrl_c_witness:
  "interrotto (g_proc (snd (disciplina 3 ((pty_nuova pty_zero)\<lparr>pid_fg := 2\<rparr>, sched_corsa))) ! 1)"
proof -
  let ?p = "(pty_nuova pty_zero)\<lparr>pid_fg := 2\<rparr>"
  obtain p' s' where d: "disciplina 3 (?p, sched_corsa) = (p', s')" by fastforce
  have ok: "pty_ok ?p" using pty_nuova_ok [of pty_zero] by (simp add: pty_ok_def pty_zero_def attese_zero_def att_ok_def)
  have t: "y_t ?p = pty_sano (replicate PTY_NCCS 0)" by (simp add: pty_nuova_def pty_azzera_def pty_zero_def Let_def)
  have c: "ingresso (y_t ?p) 3 = Some 3" "interrompe (y_t ?p) 3" unfolding t by code_simp+
  have "proc_get_by_pid 2 sched_corsa = Some 1"
    using proc_get_by_pid_unique [OF corsa_pids(1,2)] sched_corsa_sel(3) corsa_pids(3) by simp
  then show ?thesis using pty_ctrl_c [OF ok c d] corsa_pids(1) sched_corsa_ok d by simp
qed

end
