(* ===== verification/Bytes.thy ===== *)
theory Bytes
  imports Exos_Prelude
begin

text \<open>
  Little-endian fields inside a sector, as \<^verbatim>\<open>kernel/block/mbr.c\<close>, \<^verbatim>\<open>kernel/block/vol.c\<close> read and write them
  byte by byte, and masks of flags kept in a word.
\<close>

unbundle bit_operations_syntax

definition le16 :: "u8 list \<Rightarrow> u16" where
  "le16 p = ucast (p ! 0) OR push_bit 8 (ucast (p ! 1))"

definition le32 :: "u8 list \<Rightarrow> u32" where
  "le32 p = ucast (p ! 0) OR push_bit 8 (ucast (p ! 1)) OR push_bit 16 (ucast (p ! 2)) OR push_bit 24 (ucast (p ! 3))"

definition metti32 :: "u32 \<Rightarrow> u8 list" where
  "metti32 v = [ucast v, ucast (drop_bit 8 v), ucast (drop_bit 16 v), ucast (drop_bit 24 v)]"

lemma length_metti32 [simp]: "length (metti32 v) = 4"
  by (simp add: metti32_def)

lemma le32_metti32 [simp]: "le32 (metti32 v @ xs) = v"
proof (rule bit_word_eqI)
  fix n assume "n < LENGTH(32)"
  then consider "n < 8" | "8 \<le> n" "n < 16" | "16 \<le> n" "n < 24" | "24 \<le> n" "n < 32" by fastforce
  then show "bit (le32 (metti32 v @ xs)) n = bit v n"
    by cases (auto simp: le32_def metti32_def bit_simps nth_append)
qed

lemma le32_nth:
  assumes "\<And>i. i < 4 \<Longrightarrow> p ! i = q ! i"
  shows "le32 p = le32 q"
  using assms [of 0] assms [of 1] assms [of 2] assms [of 3] by (simp add: le32_def)

text \<open>Masks: a union of flags is empty when every flag is.\<close>

lemma or_eq_0: "(a :: 'a::len word) OR b = 0 \<longleftrightarrow> a = 0 \<and> b = 0"
  by (auto simp: bit_eq_iff bit_simps)

lemma flag_eq_0: "(if P then (f :: 'a::len word) else 0) = 0 \<longleftrightarrow> \<not> P \<or> f = 0"
  by simp

text \<open>Sums and comparisons of words as natural numbers.\<close>

lemma word_sum_no_wrap:
  fixes a b :: "'a::len word"
  assumes "\<not> a + b < a"
  shows "unat (a + b) = unat a + unat b"
  using assms unat_plus_simple [of a b] by (simp add: not_less)

lemma ucast_u32:
  assumes "unat (x :: u64) < 2 ^ 32"
  shows "ucast (ucast x :: u32) = x"
proof (rule bit_word_eqI)
  fix n assume n: "n < LENGTH(64)"
  have "take_bit 32 (unat x) = unat x" using assms by (rule take_bit_nat_eq_self)
  then have "bit (unat x) n \<longrightarrow> n < 32" by (metis bit_take_bit_iff)
  then have "bit x n \<longrightarrow> n < 32" by (simp add: bit_unsigned_iff)
  then show "bit (ucast (ucast x :: u32) :: u64) n = bit x n" using n by (auto simp: bit_simps)
qed

end
