(* ===== verification/Mbr.thy ===== *)
theory Mbr
  imports Bytes
begin

text \<open>
  The partition table (\<^verbatim>\<open>kernel/block/mbr.c\<close>): reading and criticising the table of a disk, following the chain
  of the logical partitions, and writing the four primary entries. Starts and lengths are 64-bit words, so the
  sums of the checks can wrap; the criticism is shown to be exact in terms of natural numbers.
\<close>

section \<open>Structures\<close>

abbreviation MBR_MAX_PART :: nat where "MBR_MAX_PART \<equiv> 16"
abbreviation MBR_OFF_TABELLA :: nat where "MBR_OFF_TABELLA \<equiv> 446"
abbreviation MBR_OFF_FIRMA :: nat where "MBR_OFF_FIRMA \<equiv> 510"

datatype pt_schema = PT_SCHEMA_NESSUNO | PT_SCHEMA_MBR | PT_SCHEMA_GPT

abbreviation PT_PROB_FIRMA :: u32 where "PT_PROB_FIRMA \<equiv> 0x1"
abbreviation PT_PROB_OLTRE_FINE :: u32 where "PT_PROB_OLTRE_FINE \<equiv> 0x2"
abbreviation PT_PROB_SOVRAPP :: u32 where "PT_PROB_SOVRAPP \<equiv> 0x4"
abbreviation PT_PROB_CATENA :: u32 where "PT_PROB_CATENA \<equiv> 0x8"
abbreviation PT_PROB_BOOTFLAG :: u32 where "PT_PROB_BOOTFLAG \<equiv> 0x10"
abbreviation PT_PROB_GPT :: u32 where "PT_PROB_GPT \<equiv> 0x20"
abbreviation PT_PROB_VUOTA :: u32 where "PT_PROB_VUOTA \<equiv> 0x40"
abbreviation PT_PROB_TROPPE_EXT :: u32 where "PT_PROB_TROPPE_EXT \<equiv> 0x80"
abbreviation PT_PROB_TRONCATA :: u32 where "PT_PROB_TRONCATA \<equiv> 0x100"
abbreviation PT_PROB_SETTORE0 :: u32 where "PT_PROB_SETTORE0 \<equiv> 0x200"

record partizione =
  attiva :: u8
  ptipo :: u8
  logica :: bool
  numero :: nat
  inizio :: u64
  settori :: u64

text \<open>The count \<^verbatim>\<open>n\<close> of the table is the length of the list.\<close>

record tabella =
  schema :: pt_schema
  problemi :: u32
  parti :: "partizione list"

text \<open>A disk as the driver shows it: its size, and what reading a sector gives (\<open>None\<close> is an I/O error).\<close>

record disco =
  d_settori :: u64
  d_dati :: "u64 \<Rightarrow> u8 list option"

section \<open>Reading\<close>

definition tipo_esteso :: "u8 \<Rightarrow> bool" where
  "tipo_esteso t \<longleftrightarrow> t = 0x05 \<or> t = 0x0F \<or> t = 0x85"

definition segnala :: "u32 \<Rightarrow> tabella \<Rightarrow> tabella" where
  "segnala f t = t\<lparr>problemi := problemi t OR f\<rparr>"

definition aggiungi :: "u8 \<Rightarrow> u8 \<Rightarrow> u64 \<Rightarrow> u64 \<Rightarrow> bool \<Rightarrow> nat \<Rightarrow> tabella \<Rightarrow> tabella" where
  "aggiungi att tip ini sett lg num t =
     (if length (parti t) \<ge> MBR_MAX_PART then segnala PT_PROB_TRONCATA t
      else t\<lparr>parti := parti t @ [\<lparr>attiva = att, ptipo = tip, logica = lg, numero = num, inizio = ini, settori = sett\<rparr>]\<rparr>)"

definition firma :: "u8 list \<Rightarrow> bool" where
  "firma sett \<longleftrightarrow> sett ! MBR_OFF_FIRMA = 0x55 \<and> sett ! (MBR_OFF_FIRMA + 1) = 0xAA"

text \<open>The chain of the extended boot records. \<open>resto\<close> is how many turns are left, \<open>giri\<close> how many were made.\<close>

fun percorri_da :: "(u64 \<Rightarrow> u8 list option) \<Rightarrow> u64 \<Rightarrow> u64 \<Rightarrow> u64 \<Rightarrow> nat \<Rightarrow> nat \<Rightarrow> u64 list \<Rightarrow> u64 \<Rightarrow> tabella \<Rightarrow> tabella" where
  "percorri_da leggi ext_inizio ext_settori disco 0 giri visti ebr t = segnala PT_PROB_CATENA t"
| "percorri_da leggi ext_inizio ext_settori disco (Suc resto) giri visti ebr t =
     (if ebr \<ge> disco \<or> ebr < ext_inizio \<or> ebr \<ge> ext_inizio + ext_settori then segnala PT_PROB_CATENA t
      else if ebr \<in> set visti then segnala PT_PROB_CATENA t
      else (case leggi ebr of None \<Rightarrow> segnala PT_PROB_CATENA t
            | Some sett \<Rightarrow>
                if \<not> firma sett then segnala PT_PROB_CATENA t
                else
                  (let v0 = drop MBR_OFF_TABELLA sett; v1 = drop (MBR_OFF_TABELLA + 16) sett;
                       a0 = v0 ! 0; t0 = v0 ! 4; r0_lba = le32 (drop 8 v0); r0_n = le32 (drop 12 v0);
                       t1 = v1 ! 4; r1_lba = le32 (drop 8 v1);
                       tt = (if t0 \<noteq> 0 \<and> r0_n > 0
                             then aggiungi a0 t0 (ebr + ucast r0_lba) (ucast r0_n) True (5 + giri) t
                             else if t0 \<noteq> 0 then segnala PT_PROB_VUOTA t else t)
                   in if t1 = 0 \<or> r1_lba = 0 then tt
                      else if \<not> tipo_esteso t1 then segnala PT_PROB_CATENA tt
                      else percorri_da leggi ext_inizio ext_settori disco resto (giri + 1) (visti @ [ebr])
                             (ext_inizio + ucast r1_lba) tt)))"

definition percorri_estesa :: "(u64 \<Rightarrow> u8 list option) \<Rightarrow> u64 \<Rightarrow> u64 \<Rightarrow> u64 \<Rightarrow> tabella \<Rightarrow> tabella" where
  "percorri_estesa leggi ext_inizio ext_settori disco t =
     percorri_da leggi ext_inizio ext_settori disco (MBR_MAX_PART + 1) 0 [] ext_inizio t"

text \<open>The criticism of a set of partitions: the outer loop over the entries with the number of extended ones so
  far, the inner loop over those that follow.\<close>

definition si_toccano :: "partizione \<Rightarrow> partizione \<Rightarrow> bool" where
  "si_toccano a b \<longleftrightarrow>
     \<not> (ptipo b = 0 \<or> settori b = 0) \<and> \<not> (tipo_esteso (ptipo a) \<and> logica b) \<and> \<not> (tipo_esteso (ptipo b) \<and> logica a) \<and>
     inizio a < inizio b + settori b \<and> inizio b < inizio a + settori a"

fun valida_da :: "u64 \<Rightarrow> nat \<Rightarrow> partizione list \<Rightarrow> u32" where
  "valida_da disco n_estese [] = 0"
| "valida_da disco n_estese (a # resto) =
     (if ptipo a = 0 then valida_da disco n_estese resto
      else
        (if attiva a \<noteq> 0 \<and> attiva a \<noteq> 0x80 then PT_PROB_BOOTFLAG else 0) OR
        (if settori a = 0 then PT_PROB_VUOTA OR valida_da disco n_estese resto
         else
           (if inizio a = 0 then PT_PROB_SETTORE0 else 0) OR
           (if inizio a \<ge> disco \<or> inizio a + settori a > disco \<or> inizio a + settori a < inizio a
            then PT_PROB_OLTRE_FINE else 0) OR
           (if inizio a + settori a > 0x100000000 then PT_PROB_OLTRE_FINE else 0) OR
           (let est = (\<not> logica a \<and> tipo_esteso (ptipo a)); n1 = (if est then n_estese + 1 else n_estese) in
            (if est \<and> n1 > 1 then PT_PROB_TROPPE_EXT else 0) OR
            (if list_ex (si_toccano a) resto then PT_PROB_SOVRAPP else 0) OR
            valida_da disco n1 resto)))"

definition mbr_valida :: "partizione list \<Rightarrow> u64 \<Rightarrow> u32" where
  "mbr_valida p disco = valida_da disco 0 p"

text \<open>The boot sector of a file system, which has the same signature as a table.\<close>

definition settore_fat :: "u8 list \<Rightarrow> bool" where
  "settore_fat sett \<longleftrightarrow>
     ((sett ! 0 = 0xEB \<and> sett ! 2 = 0x90) \<or> sett ! 0 = 0xE9) \<and>
     (let bps = le16 (drop 11 sett); spc = sett ! 13; nfat = sett ! 16 in
      (bps = 512 \<or> bps = 1024 \<or> bps = 2048 \<or> bps = 4096) \<and>
      spc \<noteq> 0 \<and> spc AND (spc - 1) = 0 \<and> spc \<le> 128 \<and> nfat \<ge> 1 \<and> nfat \<le> 4)"

definition protettivo :: "u8 list \<Rightarrow> bool" where
  "protettivo sett \<longleftrightarrow> list_ex (\<lambda>i. sett ! (MBR_OFF_TABELLA + i * 16 + 4) = 0xEE) [0, 1, 2, 3]"

text \<open>One turn of the loop over the four entries: the number of extended ones, the first of them, the table.\<close>

definition leggi_voce :: "u8 list \<Rightarrow> nat \<Rightarrow> nat \<times> u64 \<times> u64 \<times> tabella \<Rightarrow> nat \<times> u64 \<times> u64 \<times> tabella" where
  "leggi_voce sett i = (\<lambda>(n_estese, ei, es, t).
     (let v = drop (MBR_OFF_TABELLA + i * 16) sett;
          att = v ! 0; tip = v ! 4; lba = le32 (drop 8 v); n = le32 (drop 12 v)
      in if tip = 0 then (n_estese, ei, es, t)
         else (let t1 = (if att \<noteq> 0 \<and> att \<noteq> 0x80 then segnala PT_PROB_BOOTFLAG t else t) in
           if n = 0 then (n_estese, ei, es, segnala PT_PROB_VUOTA t1)
           else if tipo_esteso tip then
             (if n_estese + 1 > 1
              then (n_estese + 1, ei, es, aggiungi att tip (ucast lba) (ucast n) False (i + 1) (segnala PT_PROB_TROPPE_EXT t1))
              else (n_estese + 1, ucast lba, ucast n, aggiungi att tip (ucast lba) (ucast n) False (i + 1) t1))
           else (n_estese, ei, es, aggiungi att tip (ucast lba) (ucast n) False (i + 1) t1))))"

definition tabella_vuota :: tabella where
  "tabella_vuota = \<lparr>schema = PT_SCHEMA_NESSUNO, problemi = 0, parti = []\<rparr>"

definition mbr_leggi_da :: "(u64 \<Rightarrow> u8 list option) \<Rightarrow> u64 \<Rightarrow> bool \<times> tabella" where
  "mbr_leggi_da leggi disco =
     (if disco = 0 then (False, tabella_vuota)
      else (case leggi 0 of None \<Rightarrow> (False, tabella_vuota)
            | Some sett \<Rightarrow>
                if \<not> firma sett then (True, segnala PT_PROB_FIRMA tabella_vuota)
                else if settore_fat sett then (True, tabella_vuota)
                else if protettivo sett then (True, segnala PT_PROB_GPT (tabella_vuota\<lparr>schema := PT_SCHEMA_GPT\<rparr>))
                else
                  (case fold (leggi_voce sett) [0, 1, 2, 3] (0, 0, 0, tabella_vuota\<lparr>schema := PT_SCHEMA_MBR\<rparr>) of
                     (n_estese, ei, es, t) \<Rightarrow>
                       (let t1 = (if n_estese = 1 \<and> es > 0 then percorri_estesa leggi ei es disco t else t)
                        in (True, segnala (mbr_valida (parti t1) disco) t1)))))"

definition mbr_leggi :: "disco option \<Rightarrow> bool \<times> tabella" where
  "mbr_leggi dev =
     (case dev of None \<Rightarrow> (False, tabella_vuota) | Some d \<Rightarrow> mbr_leggi_da (d_dati d) (d_settori d))"

section \<open>Writing\<close>

definition CHS_MAX_LBA :: u64 where
  "CHS_MAX_LBA = 1023 * 255 * 63"

definition chs_metti :: "u64 \<Rightarrow> u8 list" where
  "chs_metti lba =
     (if lba \<ge> CHS_MAX_LBA then [0xFE, 0xFF, 0xFF]
      else (let l = (ucast lba :: u32); s = l mod 63 + 1; h = (l div 63) mod 255; c = l div (63 * 255)
            in [ucast h, ucast ((drop_bit 2 c AND 0xC0) OR (s AND 0x3F)), ucast (c AND 0xFF)]))"

definition voce_scrivi :: "partizione \<Rightarrow> u8 list" where
  "voce_scrivi p =
     (if ptipo p = 0 \<or> settori p = 0 then replicate 16 0
      else [attiva p] @ chs_metti (inizio p) @ [ptipo p] @ chs_metti (inizio p + settori p - 1) @
           metti32 (ucast (inizio p)) @ metti32 (ucast (settori p)))"

text \<open>The sector as it will be written: the boot code as it was if the signature was there, zeros otherwise.\<close>

definition settore_nuovo :: "u8 list \<Rightarrow> partizione list \<Rightarrow> u8 list" where
  "settore_nuovo sett voci =
     (if firma sett then take MBR_OFF_TABELLA sett else replicate MBR_OFF_TABELLA 0) @
     concat (map (\<lambda>i. if i \<ge> length voci then replicate 16 0 else voce_scrivi (voci ! i)) [0, 1, 2, 3]) @ [0x55, 0xAA]"

text \<open>The extended entry that holds logical partitions must be in the proposal, unless it is empty.\<close>

definition estesa_attuale :: "partizione list \<Rightarrow> partizione option" where
  "estesa_attuale ps = fold (\<lambda>p e. if \<not> logica p \<and> tipo_esteso (ptipo p) then Some p else e) ps None"

definition perde_logiche :: "partizione list \<Rightarrow> partizione list \<Rightarrow> bool" where
  "perde_logiche attuali voci \<longleftrightarrow>
     list_ex logica attuali \<and>
     \<not> (case estesa_attuale attuali of None \<Rightarrow> False
        | Some e \<Rightarrow> list_ex (\<lambda>v. ptipo v = ptipo e \<and> inizio v = inizio e \<and> settori v = settori e) voci) \<and>
     list_ex (\<lambda>v. ptipo v \<noteq> 0 \<and> settori v \<noteq> 0) voci"

text \<open>\<open>scrivi\<close> is the driver writing sector 0; it says whether it could. The second component of the result is
  the mask handed back to the caller.\<close>

definition mbr_scrivi ::
  "(u8 list \<Rightarrow> disco \<Rightarrow> bool \<times> disco) \<Rightarrow> partizione list \<Rightarrow> disco option \<Rightarrow> (errno + unit) \<times> u32 \<times> disco option" where
  "mbr_scrivi scrivi voci dev =
     (if length voci > 4 then (Inl EINVAL, 0, dev)
      else (case dev of None \<Rightarrow> (Inl ENODEV, 0, dev)
            | Some d \<Rightarrow>
        (let pb = mbr_valida voci (d_settori d) in
         if pb \<noteq> 0 then (Inl EINVAL, pb, dev)
         else (case mbr_leggi dev of (ok, attuale) \<Rightarrow>
           if \<not> ok then (Inl EIO, 0, dev)
           else if schema attuale = PT_SCHEMA_GPT then (Inl EPERM, PT_PROB_GPT, dev)
           else if perde_logiche (parti attuale) voci then (Inl EBUSY, 0, dev)
           else (case d_dati d 0 of None \<Rightarrow> (Inl EIO, 0, dev)
                 | Some sett \<Rightarrow>
                     (case scrivi (settore_nuovo sett voci) d of
                        (w, d') \<Rightarrow> (if w then Inr () else Inl EIO, 0, Some d')))))))"

section \<open>What the criticism means\<close>

definition fine_di :: "partizione \<Rightarrow> nat" where
  "fine_di p = unat (inizio p) + unat (settori p)"

text \<open>An entry in use lies on the disk, behind the sector of the table, within what an entry can express.\<close>

definition voce_sana :: "u64 \<Rightarrow> partizione \<Rightarrow> bool" where
  "voce_sana disco p \<longleftrightarrow> ptipo p \<noteq> 0 \<longrightarrow>
     (attiva p = 0 \<or> attiva p = 0x80) \<and> 0 < unat (settori p) \<and> 0 < unat (inizio p) \<and> fine_di p \<le> unat disco \<and> fine_di p \<le> 2 ^ 32"

definition contiene :: "partizione \<Rightarrow> partizione \<Rightarrow> bool" where
  "contiene a b \<longleftrightarrow> tipo_esteso (ptipo a) \<and> logica b \<or> tipo_esteso (ptipo b) \<and> logica a"

definition separate :: "partizione \<Rightarrow> partizione \<Rightarrow> bool" where
  "separate a b \<longleftrightarrow> (ptipo a \<noteq> 0 \<and> ptipo b \<noteq> 0 \<and> \<not> contiene a b \<longrightarrow>
     fine_di a \<le> unat (inizio b) \<or> fine_di b \<le> unat (inizio a))"

definition primaria_estesa :: "partizione \<Rightarrow> bool" where
  "primaria_estesa p \<longleftrightarrow> \<not> logica p \<and> tipo_esteso (ptipo p)"

definition tabella_sana :: "u64 \<Rightarrow> partizione list \<Rightarrow> bool" where
  "tabella_sana disco ps \<longleftrightarrow> (\<forall>p \<in> set ps. voce_sana disco p) \<and> sorted_wrt separate ps \<and>
     length (filter primaria_estesa ps) \<le> 1"

lemma tipo_esteso_nz: "tipo_esteso t \<Longrightarrow> t \<noteq> 0"
  by (auto simp: tipo_esteso_def)

lemma u64_pos: "(x :: u64) \<noteq> 0 \<longleftrightarrow> 0 < unat x"
  by (simp add: unat_gt_0)

lemma fine_unat: "fine_di p \<le> 2 ^ 32 \<Longrightarrow> unat (inizio p + settori p) = fine_di p"
  using unat_add_lem [of "inizio p" "settori p"] by (simp add: fine_di_def)

lemma limiti_esatti:
  assumes "settori a \<noteq> 0"
  shows "\<not> (inizio a \<ge> disco \<or> inizio a + settori a > disco \<or> inizio a + settori a < inizio a) \<and> \<not> inizio a + settori a > 0x100000000
    \<longleftrightarrow> fine_di a \<le> unat disco \<and> fine_di a \<le> 2 ^ 32" (is "?l \<longleftrightarrow> ?r")
proof
  assume l: ?l
  then have "unat (inizio a + settori a) = fine_di a" by (simp add: word_sum_no_wrap fine_di_def)
  then show ?r using l by (simp add: word_less_nat_alt word_le_nat_alt)
next
  assume r: ?r
  then have "unat (inizio a + settori a) = fine_di a" by (simp add: fine_unat)
  moreover have "0 < unat (settori a)" using assms by (simp add: u64_pos)
  ultimately show ?l using r by (simp add: word_less_nat_alt word_le_nat_alt fine_di_def)
qed

lemma toccano_separate:
  assumes "voce_sana disco a" "voce_sana disco b" "ptipo a \<noteq> 0"
  shows "si_toccano a b \<longleftrightarrow> \<not> separate a b"
proof (cases "ptipo b = 0")
  case True
  then show ?thesis by (simp add: si_toccano_def separate_def)
next
  case False
  have "unat (inizio a + settori a) = fine_di a" "unat (inizio b + settori b) = fine_di b" "settori b \<noteq> 0"
    using assms False by (auto simp: voce_sana_def fine_unat u64_pos)
  then show ?thesis using assms(3) False
    by (auto simp: si_toccano_def separate_def contiene_def word_less_nat_alt)
qed

lemma valida_da_exact:
  "valida_da disco ne ps = 0 \<longleftrightarrow> (\<forall>p \<in> set ps. voce_sana disco p) \<and> sorted_wrt separate ps \<and>
     (length (filter primaria_estesa ps) = 0 \<or> ne + length (filter primaria_estesa ps) \<le> 1)"
proof (induction disco ne ps rule: valida_da.induct)
  case (2 disco ne a rest)
  show ?case
  proof (cases "ptipo a = 0 \<or> settori a = 0")
    case True
    then show ?thesis
    proof (cases "ptipo a = 0")
      case True
      then show ?thesis using 2(1) [OF True] tipo_esteso_nz [of "ptipo a"]
        by (auto simp: voce_sana_def separate_def primaria_estesa_def)
    next
      case False
      then show ?thesis using True by (simp add: or_eq_0 voce_sana_def)
    qed
  next
    case False
    then have t: "ptipo a \<noteq> 0" and n: "settori a \<noteq> 0" by auto
    let ?est = "primaria_estesa a"
    let ?n1 = "if ?est then ne + 1 else ne"
    have e: "(\<not> logica a \<and> tipo_esteso (ptipo a)) = ?est" by (simp add: primaria_estesa_def)
    have IH: "valida_da disco ?n1 rest = 0 \<longleftrightarrow> (\<forall>p \<in> set rest. voce_sana disco p) \<and> sorted_wrt separate rest \<and>
        (length (filter primaria_estesa rest) = 0 \<or> ?n1 + length (filter primaria_estesa rest) \<le> 1)"
      by (rule 2(3) [OF t n refl]) (simp add: e)
    have "valida_da disco ne (a # rest) = 0 \<longleftrightarrow> (attiva a = 0 \<or> attiva a = 0x80) \<and> inizio a \<noteq> 0 \<and>
        (fine_di a \<le> unat disco \<and> fine_di a \<le> 2 ^ 32) \<and> \<not> (?est \<and> ?n1 > 1) \<and> \<not> list_ex (si_toccano a) rest \<and>
        valida_da disco ?n1 rest = 0"
      unfolding limiti_esatti [OF n, of disco, symmetric] using t n
      by (simp add: or_eq_0 Let_def e del: not_le not_less)
    also have "\<dots> \<longleftrightarrow> voce_sana disco a \<and> \<not> (?est \<and> ?n1 > 1) \<and> \<not> list_ex (si_toccano a) rest \<and> valida_da disco ?n1 rest = 0"
      using t n by (auto simp: voce_sana_def u64_pos)
    also have "\<dots> \<longleftrightarrow> voce_sana disco a \<and> \<not> (?est \<and> ?n1 > 1) \<and> (\<forall>b \<in> set rest. separate a b) \<and> valida_da disco ?n1 rest = 0"
      using toccano_separate [OF _ _ t, of disco] IH by (auto simp: list_ex_iff)
    finally show ?thesis unfolding IH by auto
  qed
qed simp

text \<open>C25. The criticism is exact: a set of partitions is found without fault exactly when every entry in use lies on
  the disk after the first sector, no two share a sector (an extended one and its logical ones apart) and at most
  one is extended, read as natural numbers, so without any wrap-around of the 64-bit sums.\<close>

theorem mbr_valida_exact: "mbr_valida ps disco = 0 \<longleftrightarrow> tabella_sana disco ps"
  using valida_da_exact [of disco 0 ps] by (auto simp: mbr_valida_def tabella_sana_def)

section \<open>The sector that is written\<close>

lemma length_chs [simp]: "length (chs_metti l) = 3"
  by (simp add: chs_metti_def Let_def)

lemma length_voce [simp]: "length (voce_scrivi p) = 16"
  by (simp add: voce_scrivi_def)

definition slot :: "partizione list \<Rightarrow> nat \<Rightarrow> u8 list" where
  "slot voci i = (if i \<ge> length voci then replicate 16 0 else voce_scrivi (voci ! i))"

lemma length_slot [simp]: "length (slot voci i) = 16"
  by (simp add: slot_def)

lemma settore_forma:
  assumes "length sett = 512"
  obtains pre where "settore_nuovo sett voci = pre @ slot voci 0 @ slot voci 1 @ slot voci 2 @ slot voci 3 @ [0x55, 0xAA]"
    "length pre = MBR_OFF_TABELLA" "pre = (if firma sett then take MBR_OFF_TABELLA sett else replicate MBR_OFF_TABELLA 0)"
  using assms by (simp add: settore_nuovo_def slot_def)

lemma settore_nuovo_voce:
  assumes "length sett = 512" "i < 4"
  shows "\<exists>r. drop (MBR_OFF_TABELLA + i * 16) (settore_nuovo sett voci) = slot voci i @ r"
proof -
  obtain pre where f: "settore_nuovo sett voci = pre @ slot voci 0 @ slot voci 1 @ slot voci 2 @ slot voci 3 @ [0x55, 0xAA]"
    "length pre = MBR_OFF_TABELLA" using settore_forma [OF assms(1)] by metis
  consider "i = 0" | "i = 1" | "i = 2" | "i = 3" using assms(2) by linarith
  then show ?thesis by cases (auto simp: f)
qed

lemma settore_nuovo_firma:
  assumes "length sett = 512"
  shows "firma (settore_nuovo sett voci)" "length (settore_nuovo sett voci) = 512"
    "take MBR_OFF_TABELLA (settore_nuovo sett voci) = (if firma sett then take MBR_OFF_TABELLA sett else replicate MBR_OFF_TABELLA 0)"
proof -
  obtain pre where f: "settore_nuovo sett voci = pre @ slot voci 0 @ slot voci 1 @ slot voci 2 @ slot voci 3 @ [0x55, 0xAA]"
    "length pre = MBR_OFF_TABELLA" "pre = (if firma sett then take MBR_OFF_TABELLA sett else replicate MBR_OFF_TABELLA 0)"
    using settore_forma [OF assms] by metis
  show "firma (settore_nuovo sett voci)" "length (settore_nuovo sett voci) = 512"
    by (simp_all add: f(1,2) firma_def nth_append)
  show "take MBR_OFF_TABELLA (settore_nuovo sett voci) = (if firma sett then take MBR_OFF_TABELLA sett else replicate MBR_OFF_TABELLA 0)"
    unfolding f(3) [symmetric] by (simp add: f(1,2))
qed

lemma settore_fat_take:
  assumes "take MBR_OFF_TABELLA a = take MBR_OFF_TABELLA b" "length a = 512" "length b = 512"
  shows "settore_fat a = settore_fat b"
proof -
  have n: "a ! i = b ! i" if "i < MBR_OFF_TABELLA" for i using arg_cong [OF assms(1), of "\<lambda>x. x ! i"] that by simp
  have "le16 (drop 11 a) = le16 (drop 11 b)"
    using n [of 11] n [of 12] assms(2,3) by (simp add: le16_def)
  then show ?thesis using n [of 0] n [of 2] n [of 13] n [of 16] by (simp add: settore_fat_def)
qed

lemma settore_nuovo_fat:
  assumes "length sett = 512"
  shows "settore_fat (settore_nuovo sett voci) \<longleftrightarrow> firma sett \<and> settore_fat sett"
proof (cases "firma sett")
  case True
  then show ?thesis using settore_fat_take [of "settore_nuovo sett voci" sett] settore_nuovo_firma [OF assms] assms by simp
next
  case False
  have "take MBR_OFF_TABELLA (settore_nuovo sett voci) ! 0 = 0" using settore_nuovo_firma(3) [OF assms, of voci] False by simp
  then show ?thesis using False by (simp add: settore_fat_def)
qed

text \<open>What the reader finds in a slot.\<close>

definition in_uso :: "partizione list \<Rightarrow> nat \<Rightarrow> bool" where
  "in_uso voci i \<longleftrightarrow> i < length voci \<and> ptipo (voci ! i) \<noteq> 0 \<and> settori (voci ! i) \<noteq> 0"

lemma slot_libero: "\<not> in_uso voci i \<Longrightarrow> slot voci i = replicate 16 0"
  by (auto simp: slot_def in_uso_def voce_scrivi_def)

lemma slot_campi:
  assumes "in_uso voci i"
  shows "(slot voci i @ r) ! 0 = attiva (voci ! i)" "(slot voci i @ r) ! 4 = ptipo (voci ! i)"
    "le32 (drop 8 (slot voci i @ r)) = ucast (inizio (voci ! i))" "le32 (drop 12 (slot voci i @ r)) = ucast (settori (voci ! i))"
proof -
  let ?p = "voci ! i"
  have s: "slot voci i = [attiva ?p] @ chs_metti (inizio ?p) @ [ptipo ?p] @ chs_metti (inizio ?p + settori ?p - 1) @
           metti32 (ucast (inizio ?p)) @ metti32 (ucast (settori ?p))"
    using assms by (simp add: slot_def in_uso_def voce_scrivi_def)
  show "(slot voci i @ r) ! 0 = attiva (voci ! i)" "(slot voci i @ r) ! 4 = ptipo (voci ! i)"
    by (simp_all add: s nth_append)
  have "drop 8 (slot voci i @ r) = metti32 (ucast (inizio ?p)) @ metti32 (ucast (settori ?p)) @ r"
    "drop 12 (slot voci i @ r) = metti32 (ucast (settori ?p)) @ r" by (simp_all add: s)
  then show "le32 (drop 8 (slot voci i @ r)) = ucast (inizio (voci ! i))" "le32 (drop 12 (slot voci i @ r)) = ucast (settori (voci ! i))"
    by (simp_all only: le32_metti32)
qed

lemma settore_nuovo_tipo:
  assumes "length sett = 512" "i < 4"
  shows "settore_nuovo sett voci ! (MBR_OFF_TABELLA + i * 16 + 4) = (if in_uso voci i then ptipo (voci ! i) else 0)"
proof -
  obtain r where d: "drop (MBR_OFF_TABELLA + i * 16) (settore_nuovo sett voci) = slot voci i @ r"
    using settore_nuovo_voce [OF assms] by blast
  have "settore_nuovo sett voci ! (MBR_OFF_TABELLA + i * 16 + 4) = (slot voci i @ r) ! 4"
    unfolding d [symmetric] using assms settore_nuovo_firma(2) [OF assms(1), of voci] by (simp add: add.assoc)
  then show ?thesis using slot_campi(2) [of voci i r] slot_libero [of voci i] by (auto simp: nth_append)
qed

section \<open>Writing and reading back\<close>

text \<open>The driver keeps what it says it wrote.\<close>

definition scrive_bene :: "(u8 list \<Rightarrow> disco \<Rightarrow> bool \<times> disco) \<Rightarrow> bool" where
  "scrive_bene scrivi \<longleftrightarrow> (\<forall>b d d'. scrivi b d = (True, d') \<longrightarrow> d_settori d' = d_settori d \<and> d_dati d' = (d_dati d)(0 := Some b))"

text \<open>The entries as a reader of the table lists them.\<close>

definition letta :: "partizione list \<Rightarrow> nat \<Rightarrow> partizione" where
  "letta voci i = (voci ! i)\<lparr>logica := False, numero := i + 1\<rparr>"

definition lette :: "partizione list \<Rightarrow> partizione list" where
  "lette voci = map (letta voci) (filter (in_uso voci) [0, 1, 2, 3])"

lemma sana_32:
  assumes "voce_sana disco p" "ptipo p \<noteq> 0"
  shows "ucast (ucast (inizio p) :: u32) = inizio p" "ucast (ucast (settori p) :: u32) = settori p" "(ucast (settori p) :: u32) \<noteq> 0"
proof -
  have "unat (inizio p) < 2 ^ 32" "unat (settori p) < 2 ^ 32" using assms by (auto simp: voce_sana_def fine_di_def)
  then show i: "ucast (ucast (inizio p) :: u32) = inizio p" "ucast (ucast (settori p) :: u32) = settori p"
    by (simp_all add: ucast_u32)
  have "settori p \<noteq> 0" using assms by (auto simp: voce_sana_def)
  then show "(ucast (settori p) :: u32) \<noteq> 0" using i(2) by force
qed

lemma letta_eq:
  "letta voci i = \<lparr>attiva = attiva (voci ! i), ptipo = ptipo (voci ! i), logica = False, numero = i + 1,
     inizio = inizio (voci ! i), settori = settori (voci ! i)\<rparr>"
  unfolding letta_def by (cases "voci ! i") (simp only: partizione.update_convs partizione.select_convs)

lemma leggi_voce_nuova:
  assumes "length sett = 512" "i < 4" "\<forall>v \<in> set voci. voce_sana disco v \<and> \<not> tipo_esteso (ptipo v)" "length (parti t) < MBR_MAX_PART"
  shows "leggi_voce (settore_nuovo sett voci) i (ne, ei, es, t) =
    (ne, ei, es, if in_uso voci i then t\<lparr>parti := parti t @ [letta voci i]\<rparr> else t)"
proof -
  obtain r where d: "drop (MBR_OFF_TABELLA + i * 16) (settore_nuovo sett voci) = slot voci i @ r"
    using settore_nuovo_voce [OF assms(1,2)] by blast
  show ?thesis
  proof (cases "in_uso voci i")
    case True
    then have v: "voce_sana disco (voci ! i)" "\<not> tipo_esteso (ptipo (voci ! i))" "ptipo (voci ! i) \<noteq> 0"
      using assms(3) by (auto simp: in_uso_def)
    have a: "\<not> (attiva (voci ! i) \<noteq> 0 \<and> attiva (voci ! i) \<noteq> 0x80)" using v by (auto simp: voce_sana_def)
    show ?thesis using True v a assms(4) sana_32 [OF v(1,3)] slot_campi [OF True, of r]
      by (auto simp: leggi_voce_def d Let_def aggiungi_def letta_eq)
  next
    case False
    have "(slot voci i @ r) ! 4 = 0" using slot_libero [OF False] by (simp add: nth_append)
    then show ?thesis using False by (simp add: leggi_voce_def d Let_def)
  qed
qed

lemma fold_leggi_voce:
  assumes "length sett = 512" "\<forall>v \<in> set voci. voce_sana disco v \<and> \<not> tipo_esteso (ptipo v)"
  shows "set is \<subseteq> {0, 1, 2, 3} \<Longrightarrow> length (parti t) + length is \<le> MBR_MAX_PART \<Longrightarrow>
    fold (leggi_voce (settore_nuovo sett voci)) is (0, 0, 0, t) =
    (0, 0, 0, t\<lparr>parti := parti t @ map (letta voci) (filter (in_uso voci) is)\<rparr>)"
proof (induction "is" arbitrary: t)
  case (Cons i "is")
  have "i < 4" using Cons.prems(1) by auto
  then have "leggi_voce (settore_nuovo sett voci) i (0, 0, 0, t) =
      (0, 0, 0, if in_uso voci i then t\<lparr>parti := parti t @ [letta voci i]\<rparr> else t)"
    using Cons.prems(2) by (intro leggi_voce_nuova [OF assms(1) _ assms(2)]) auto
  then show ?case using Cons.IH [of t] Cons.IH [of "t\<lparr>parti := parti t @ [letta voci i]\<rparr>"] Cons.prems by simp
qed simp

lemma lette_sana:
  assumes "tabella_sana disco voci" "\<forall>v \<in> set voci. \<not> tipo_esteso (ptipo v)"
  shows "tabella_sana disco (lette voci)"
proof -
  have s: "separate (letta voci i) (letta voci j)" if "in_uso voci i" "in_uso voci j" "i < j" for i j
  proof -
    have "separate (voci ! i) (voci ! j)" "\<not> tipo_esteso (ptipo (voci ! i))" "\<not> tipo_esteso (ptipo (voci ! j))"
      using assms that by (auto simp: tabella_sana_def sorted_wrt_iff_nth_less in_uso_def)
    then show ?thesis by (simp add: separate_def letta_def contiene_def fine_di_def)
  qed
  have "sorted_wrt separate (lette voci)"
    using s by (simp add: lette_def sorted_wrt_map)
  moreover have "\<forall>p \<in> set (lette voci). voce_sana disco p \<and> \<not> primaria_estesa p"
    using assms by (auto simp: lette_def letta_def tabella_sana_def in_uso_def primaria_estesa_def voce_sana_def fine_di_def)
  ultimately show ?thesis by (auto simp: tabella_sana_def filter_False)
qed

lemma mbr_scrivi_ok:
  assumes "mbr_scrivi scrivi voci (Some d) = (Inr (), pb, dev)" "scrive_bene scrivi" "d_dati d 0 = Some sett"
  shows "\<exists>d'. dev = Some d' \<and> d_settori d' = d_settori d \<and> d_settori d \<noteq> 0 \<and> tabella_sana (d_settori d) voci \<and> length voci \<le> 4 \<and>
    d_dati d' = (d_dati d)(0 := Some (settore_nuovo sett voci)) \<and> schema (snd (mbr_leggi (Some d))) \<noteq> PT_SCHEMA_GPT"
proof -
  obtain d' where w: "scrivi (settore_nuovo sett voci) d = (True, d')" "dev = Some d'" "mbr_valida voci (d_settori d) = 0"
    "fst (mbr_leggi (Some d))" "length voci \<le> 4" "schema (snd (mbr_leggi (Some d))) \<noteq> PT_SCHEMA_GPT"
    using assms(1,3) by (auto simp: mbr_scrivi_def Let_def split: if_splits prod.splits option.splits)
  have "d_settori d \<noteq> 0" using w(4) by (auto simp: mbr_leggi_def mbr_leggi_da_def)
  then show ?thesis using w assms(2) valida_da_exact [of "d_settori d" 0 voci]
    by (auto simp: scrive_bene_def mbr_valida_def tabella_sana_def)
qed

lemma settore_nuovo_protettivo:
  assumes "length sett = 512" "\<forall>v \<in> set voci. ptipo v \<noteq> 0xEE"
  shows "\<not> protettivo (settore_nuovo sett voci)"
  using settore_nuovo_tipo [OF assms(1), of 0 voci] settore_nuovo_tipo [OF assms(1), of 1 voci]
    settore_nuovo_tipo [OF assms(1), of 2 voci] settore_nuovo_tipo [OF assms(1), of 3 voci] assms(2)
  by (auto simp: protettivo_def in_uso_def)

lemma mbr_roundtrip_primarie:
  assumes "mbr_scrivi scrivi voci (Some d) = (Inr (), pb, dev)" "scrive_bene scrivi" "d_dati d 0 = Some sett"
    "length sett = 512" "\<not> (firma sett \<and> settore_fat sett)" "\<forall>v \<in> set voci. ptipo v \<noteq> 0xEE \<and> \<not> tipo_esteso (ptipo v)"
  shows "mbr_leggi dev = (True, \<lparr>schema = PT_SCHEMA_MBR, problemi = 0, parti = lette voci\<rparr>)"
proof -
  obtain d' where d': "dev = Some d'" "d_settori d' = d_settori d" "d_settori d \<noteq> 0" "tabella_sana (d_settori d) voci"
    "d_dati d' = (d_dati d)(0 := Some (settore_nuovo sett voci))"
    using mbr_scrivi_ok [OF assms(1-3)] by blast
  let ?s = "settore_nuovo sett voci"
  have p: "\<not> protettivo ?s" by (rule settore_nuovo_protettivo [OF assms(4)]) (use assms(6) in blast)
  have vs: "\<forall>v \<in> set voci. voce_sana (d_settori d) v \<and> \<not> tipo_esteso (ptipo v)"
    using d'(4) assms(6) by (auto simp: tabella_sana_def)
  have f: "fold (leggi_voce ?s) [0, 1, 2, 3] (0, 0, 0, tabella_vuota\<lparr>schema := PT_SCHEMA_MBR\<rparr>) =
      (0, 0, 0, \<lparr>schema = PT_SCHEMA_MBR, problemi = 0, parti = lette voci\<rparr>)"
    using fold_leggi_voce [OF assms(4) vs, of "[0, 1, 2, 3]" "tabella_vuota\<lparr>schema := PT_SCHEMA_MBR\<rparr>"]
    by (simp add: tabella_vuota_def lette_def)
  have "tabella_sana (d_settori d) (lette voci)" by (rule lette_sana [OF d'(4)]) (use assms(6) in auto)
  then have v: "mbr_valida (lette voci) (d_settori d) = 0"
    using valida_da_exact [of "d_settori d" 0 "lette voci"] by (auto simp: mbr_valida_def tabella_sana_def)
  show ?thesis using d' p f v settore_nuovo_firma(1) [OF assms(4), of voci] settore_nuovo_fat [OF assms(4), of voci] assms(5)
    by (simp add: mbr_leggi_def mbr_leggi_da_def segnala_def)
qed

text \<open>With an extended entry: the reader lists the entries all the same, and the chain adds only logical partitions.\<close>

lemma leggi_voce_parti:
  assumes "length sett = 512" "i < 4" "\<forall>v \<in> set voci. voce_sana disco v" "length (parti t) < MBR_MAX_PART"
    "leggi_voce (settore_nuovo sett voci) i (ne, ei, es, t) = (ne', ei', es', t')"
  shows "parti t' = parti t @ (if in_uso voci i then [letta voci i] else []) \<and> schema t' = schema t"
proof -
  obtain r where d: "drop (MBR_OFF_TABELLA + i * 16) (settore_nuovo sett voci) = slot voci i @ r"
    using settore_nuovo_voce [OF assms(1,2)] by blast
  show ?thesis
  proof (cases "in_uso voci i")
    case True
    then have v: "voce_sana disco (voci ! i)" "ptipo (voci ! i) \<noteq> 0" using assms(3) by (auto simp: in_uso_def)
    have a: "\<not> (attiva (voci ! i) \<noteq> 0 \<and> attiva (voci ! i) \<noteq> 0x80)" using v by (auto simp: voce_sana_def)
    let ?g = "\<lambda>u. aggiungi (attiva (voci ! i)) (ptipo (voci ! i)) (inizio (voci ! i)) (settori (voci ! i)) False (i + 1) u"
    have "t' = ?g t \<or> t' = ?g (segnala PT_PROB_TROPPE_EXT t)"
      using assms(5) v(2) a sana_32 [OF v] slot_campi [OF True, of r] by (auto simp: leggi_voce_def d Let_def split: if_splits)
    moreover have "parti (?g u) = parti u @ [letta voci i] \<and> schema (?g u) = schema u" if "length (parti u) < MBR_MAX_PART" for u
      using that by (simp add: aggiungi_def letta_eq)
    ultimately show ?thesis using assms(4) True by (auto simp: segnala_def)
  next
    case False
    have "(slot voci i @ r) ! 4 = 0" using slot_libero [OF False] by (simp add: nth_append)
    then show ?thesis using False assms(5) by (simp add: leggi_voce_def d Let_def)
  qed
qed

lemma fold_leggi_voce_parti:
  assumes "length sett = 512" "\<forall>v \<in> set voci. voce_sana disco v"
  shows "set is \<subseteq> {0, 1, 2, 3} \<Longrightarrow> length (parti t) + length is \<le> MBR_MAX_PART \<Longrightarrow>
    fold (leggi_voce (settore_nuovo sett voci)) is (ne, ei, es, t) = (ne', ei', es', t') \<Longrightarrow>
    parti t' = parti t @ map (letta voci) (filter (in_uso voci) is) \<and> schema t' = schema t"
proof (induction "is" arbitrary: ne ei es t)
  case (Cons i "is")
  obtain n1 e1 s1 t1 where l: "leggi_voce (settore_nuovo sett voci) i (ne, ei, es, t) = (n1, e1, s1, t1)" by (metis prod_cases4)
  have "i < 4" using Cons.prems(1) by auto
  then have "parti t1 = parti t @ (if in_uso voci i then [letta voci i] else []) \<and> schema t1 = schema t"
    using Cons.prems(2) by (intro leggi_voce_parti [OF assms(1) _ assms(2) _ l]) auto
  moreover from this have "length (parti t1) + length is \<le> MBR_MAX_PART" using Cons.prems(2) by (simp split: if_splits)
  moreover have "fold (leggi_voce (settore_nuovo sett voci)) is (n1, e1, s1, t1) = (ne', ei', es', t')" using Cons.prems(3) l by simp
  ultimately show ?case using Cons.IH [of t1 n1 e1 s1] Cons.prems(1) by simp
qed simp

abbreviation primarie :: "tabella \<Rightarrow> partizione list" where
  "primarie t \<equiv> filter (\<lambda>p. \<not> logica p) (parti t)"

lemma percorri_da_primarie:
  "primarie (percorri_da leggi ei es disco n giri visti ebr t) = primarie t \<and> schema (percorri_da leggi ei es disco n giri visti ebr t) = schema t"
proof (induction n arbitrary: giri visti ebr t)
  case (Suc n)
  have s: "primarie (segnala f u) = primarie u \<and> schema (segnala f u) = schema u" for f u by (simp add: segnala_def)
  have a: "primarie (aggiungi x y z w True k u) = primarie u \<and> schema (aggiungi x y z w True k u) = schema u" for x y z w k u
    by (simp add: aggiungi_def segnala_def)
  show ?case by (simp add: Let_def s a Suc split: option.split)
qed (simp add: segnala_def)

text \<open>C26. A table that was written reads back as it was proposed, when sector 0 did not hold the boot sector of a file system and no entry is
  of type 0xEE: after a successful write the reader finds an MBR whose primary entries are exactly the proposed entries in use, the extended
  one included, each with the number of its slot; when no entry is extended it finds nothing else, and no fault.\<close>

theorem mbr_roundtrip:
  assumes "mbr_scrivi scrivi voci (Some d) = (Inr (), pb, dev)" "scrive_bene scrivi" "d_dati d 0 = Some sett"
    "length sett = 512" "\<not> (firma sett \<and> settore_fat sett)" "\<forall>v \<in> set voci. ptipo v \<noteq> 0xEE"
  shows "\<exists>t. mbr_leggi dev = (True, t) \<and> schema t = PT_SCHEMA_MBR \<and> filter (\<lambda>p. \<not> logica p) (parti t) = lette voci \<and>
    ((\<forall>v \<in> set voci. \<not> tipo_esteso (ptipo v)) \<longrightarrow> problemi t = 0 \<and> parti t = lette voci)"
proof (cases "\<forall>v \<in> set voci. \<not> tipo_esteso (ptipo v)")
  case True
  moreover have "filter (\<lambda>p. \<not> logica p) (lette voci) = lette voci" by (auto simp: lette_def letta_def intro!: filter_True)
  ultimately show ?thesis using mbr_roundtrip_primarie [OF assms(1-5)] assms(6) by simp
next
  case False
  obtain d' where d': "dev = Some d'" "d_settori d' = d_settori d" "d_settori d \<noteq> 0" "tabella_sana (d_settori d) voci"
    "d_dati d' = (d_dati d)(0 := Some (settore_nuovo sett voci))"
    using mbr_scrivi_ok [OF assms(1-3)] by blast
  let ?s = "settore_nuovo sett voci"
  have p: "\<not> protettivo ?s" using settore_nuovo_protettivo [OF assms(4,6)] .
  obtain ne ei es t0 where f: "fold (leggi_voce ?s) [0, 1, 2, 3] (0, 0, 0, tabella_vuota\<lparr>schema := PT_SCHEMA_MBR\<rparr>) = (ne, ei, es, t0)"
    by (metis prod_cases4)
  have "\<forall>v \<in> set voci. voce_sana (d_settori d) v" using d'(4) by (simp add: tabella_sana_def)
  from fold_leggi_voce_parti [OF assms(4) this _ _ f] have t0: "parti t0 = lette voci" "schema t0 = PT_SCHEMA_MBR"
    by (simp_all add: tabella_vuota_def lette_def)
  define t1 where "t1 = (if ne = 1 \<and> es > 0 then percorri_estesa (d_dati d') ei es (d_settori d') t0 else t0)"
  have "primarie t0 = lette voci" unfolding t0(1) by (auto simp: lette_def letta_def intro!: filter_True)
  then have t1: "primarie t1 = lette voci" "schema t1 = PT_SCHEMA_MBR"
    using percorri_da_primarie t0(2) by (simp_all add: t1_def percorri_estesa_def)
  have "mbr_leggi dev = (True, segnala (mbr_valida (parti t1) (d_settori d')) t1)"
    using d' p f settore_nuovo_firma(1) [OF assms(4), of voci] settore_nuovo_fat [OF assms(4), of voci] assms(5)
    by (simp add: mbr_leggi_def mbr_leggi_da_def t1_def Let_def)
  then show ?thesis using t1 False by (auto simp: segnala_def)
qed

definition disco_esempio :: disco where
  "disco_esempio = \<lparr>d_settori = 1000000, d_dati = (\<lambda>l. Some (replicate 512 0))\<rparr>"

definition scrivi_esempio :: "u8 list \<Rightarrow> disco \<Rightarrow> bool \<times> disco" where
  "scrivi_esempio b d = (True, d\<lparr>d_dati := (d_dati d)(0 := Some b)\<rparr>)"

definition proposta :: "u8 \<Rightarrow> partizione list" where
  "proposta t = [\<lparr>attiva = 0x80, ptipo = t, logica = False, numero = 1, inizio = 63, settori = 1000\<rparr>]"

lemma proposta_scritta:
  "scrive_bene scrivi_esempio" "t \<noteq> 0 \<Longrightarrow> \<exists>pb dev. mbr_scrivi scrivi_esempio (proposta t) (Some disco_esempio) = (Inr (), pb, dev)"
proof -
  show "scrive_bene scrivi_esempio" by (auto simp: scrive_bene_def scrivi_esempio_def)
  assume t: "t \<noteq> 0"
  have "tabella_sana 1000000 (proposta t)" using t by (simp add: tabella_sana_def proposta_def voce_sana_def fine_di_def)
  then have "mbr_valida (proposta t) 1000000 = 0" using valida_da_exact [of 1000000 0 "proposta t"]
    by (auto simp: mbr_valida_def tabella_sana_def)
  moreover have "mbr_leggi (Some disco_esempio) = (True, segnala PT_PROB_FIRMA tabella_vuota)"
    by (simp add: mbr_leggi_def mbr_leggi_da_def disco_esempio_def firma_def)
  ultimately show "\<exists>pb dev. mbr_scrivi scrivi_esempio (proposta t) (Some disco_esempio) = (Inr (), pb, dev)"
    by (simp add: mbr_scrivi_def disco_esempio_def proposta_def segnala_def tabella_vuota_def perde_logiche_def scrivi_esempio_def)
qed

theorem mbr_roundtrip_witness:
  "\<exists>dev. mbr_leggi dev = (True, \<lparr>schema = PT_SCHEMA_MBR, problemi = 0, parti = proposta 0x0C\<rparr>)"
proof -
  obtain pb dev where w: "mbr_scrivi scrivi_esempio (proposta 0x0C) (Some disco_esempio) = (Inr (), pb, dev)"
    using proposta_scritta(2) [of "0x0C"] by auto
  have "lette (proposta 0x0C) = proposta 0x0C" by (simp add: lette_def letta_def proposta_def in_uso_def)
  moreover have "\<exists>t. mbr_leggi dev = (True, t) \<and> schema t = PT_SCHEMA_MBR \<and> filter (\<lambda>p. \<not> logica p) (parti t) = lette (proposta 0x0C) \<and>
      ((\<forall>v \<in> set (proposta 0x0C). \<not> tipo_esteso (ptipo v)) \<longrightarrow> problemi t = 0 \<and> parti t = lette (proposta 0x0C))"
    by (rule mbr_roundtrip [OF w proposta_scritta(1), where sett = "replicate 512 0"])
      (simp_all add: disco_esempio_def firma_def proposta_def)
  moreover have "\<forall>v \<in> set (proposta 0x0C). \<not> tipo_esteso (ptipo v)" by (simp add: proposta_def tipo_esteso_def)
  ultimately obtain t where "mbr_leggi dev = (True, t)" "schema t = PT_SCHEMA_MBR" "problemi t = 0" "parti t = proposta 0x0C" by auto
  then have "mbr_leggi dev = (True, \<lparr>schema = PT_SCHEMA_MBR, problemi = 0, parti = proposta 0x0C\<rparr>)" by simp
  then show ?thesis by blast
qed



text \<open>Two proposals that are accepted cannot be read back. On a disk whose first sector is the boot sector of a
  file system the written table is not seen at all: the reader still takes the sector for a volume.\<close>

theorem mbr_scrivi_on_volume:
  assumes "mbr_scrivi scrivi voci (Some d) = (Inr (), pb, dev)" "scrive_bene scrivi" "d_dati d 0 = Some sett"
    "length sett = 512" "firma sett" "settore_fat sett"
  shows "mbr_leggi dev = (True, tabella_vuota)"
proof -
  obtain d' where d': "dev = Some d'" "d_settori d' = d_settori d" "d_settori d \<noteq> 0"
    "d_dati d' = (d_dati d)(0 := Some (settore_nuovo sett voci))"
    using mbr_scrivi_ok [OF assms(1-3)] by blast
  then show ?thesis using settore_nuovo_firma(1) [OF assms(4), of voci] settore_nuovo_fat [OF assms(4), of voci] assms(5,6)
    by (simp add: mbr_leggi_def mbr_leggi_da_def)
qed

definition settore_volume :: "u8 list" where
  "settore_volume = (replicate 512 0)[0 := 0xE9, 12 := 2, 13 := 1, 16 := 2, 510 := 0x55, 511 := 0xAA]"

lemma settore_volume_sel: "length settore_volume = 512" "firma settore_volume" "settore_fat settore_volume"
  by (simp_all add: settore_volume_def firma_def settore_fat_def Let_def le16_def nth_list_update)

theorem mbr_scrivi_on_volume_witness:
  "\<exists>dev. mbr_scrivi scrivi_esempio (proposta 0x0C) (Some (disco_esempio\<lparr>d_dati := \<lambda>l. Some settore_volume\<rparr>)) = (Inr (), 0, dev) \<and>
     mbr_leggi dev = (True, tabella_vuota)"
proof -
  let ?d = "disco_esempio\<lparr>d_dati := \<lambda>l. Some settore_volume\<rparr>"
  have "tabella_sana 1000000 (proposta 0x0C)" by (simp add: tabella_sana_def proposta_def voce_sana_def fine_di_def)
  then have "mbr_valida (proposta 0x0C) 1000000 = 0" using valida_da_exact [of 1000000 0 "proposta 0x0C"]
    by (auto simp: mbr_valida_def tabella_sana_def)
  moreover have "mbr_leggi (Some ?d) = (True, tabella_vuota)"
    using settore_volume_sel by (simp add: mbr_leggi_def mbr_leggi_da_def disco_esempio_def)
  ultimately obtain dev where w: "mbr_scrivi scrivi_esempio (proposta 0x0C) (Some ?d) = (Inr (), 0, dev)"
    by (simp add: mbr_scrivi_def disco_esempio_def proposta_def tabella_vuota_def perde_logiche_def scrivi_esempio_def)
  then show ?thesis
    using mbr_scrivi_on_volume [OF w proposta_scritta(1), where sett = settore_volume] settore_volume_sel by simp
qed

text \<open>And an entry of type 0xEE, which the criticism lets through, makes the disk read as GPT: from then on every
  faultless proposal is refused with EPERM and the table can no longer be changed.\<close>

theorem mbr_scrivi_gpt_trap:
  assumes "mbr_scrivi scrivi voci (Some d) = (Inr (), pb, dev)" "scrive_bene scrivi" "d_dati d 0 = Some sett"
    "length sett = 512" "\<not> (firma sett \<and> settore_fat sett)" "v \<in> set voci" "ptipo v = 0xEE"
    "length voci2 \<le> 4" "mbr_valida voci2 (d_settori d) = 0"
  shows "schema (snd (mbr_leggi dev)) = PT_SCHEMA_GPT \<and> mbr_scrivi scrivi voci2 dev = (Inl EPERM, PT_PROB_GPT, dev)"
proof -
  obtain d' where d': "dev = Some d'" "d_settori d' = d_settori d" "d_settori d \<noteq> 0" "tabella_sana (d_settori d) voci" "length voci \<le> 4"
    "d_dati d' = (d_dati d)(0 := Some (settore_nuovo sett voci))"
    using mbr_scrivi_ok [OF assms(1-3)] by blast
  obtain i where i: "i < length voci" "voci ! i = v" using assms(6) by (auto simp: in_set_conv_nth)
  have "in_uso voci i" using i d'(4) assms(6,7) by (auto simp: in_uso_def tabella_sana_def voce_sana_def)
  then have "settore_nuovo sett voci ! (MBR_OFF_TABELLA + i * 16 + 4) = 0xEE"
    using settore_nuovo_tipo [OF assms(4), of i voci] i d'(5) assms(7) by simp
  moreover have "i \<in> set [0, 1, 2, 3]" using i(1) d'(5) by auto
  ultimately have "protettivo (settore_nuovo sett voci)" unfolding protettivo_def list_ex_iff by blast
  then have "mbr_leggi dev = (True, segnala PT_PROB_GPT (tabella_vuota\<lparr>schema := PT_SCHEMA_GPT\<rparr>))"
    using d' settore_nuovo_firma(1) [OF assms(4), of voci] settore_nuovo_fat [OF assms(4), of voci] assms(5)
    by (simp add: mbr_leggi_def mbr_leggi_da_def)
  then show ?thesis using d' assms(8,9) by (simp add: mbr_scrivi_def segnala_def)
qed

theorem mbr_scrivi_gpt_trap_witness:
  "\<exists>dev. schema (snd (mbr_leggi dev)) = PT_SCHEMA_GPT \<and> mbr_scrivi scrivi_esempio (proposta 0x0C) dev = (Inl EPERM, PT_PROB_GPT, dev)"
proof -
  obtain pb dev where w: "mbr_scrivi scrivi_esempio (proposta 0xEE) (Some disco_esempio) = (Inr (), pb, dev)"
    using proposta_scritta(2) [of "0xEE"] by auto
  have "tabella_sana 1000000 (proposta 0x0C)" by (simp add: tabella_sana_def proposta_def voce_sana_def fine_di_def)
  then have v: "mbr_valida (proposta 0x0C) (d_settori disco_esempio) = 0" using valida_da_exact [of 1000000 0 "proposta 0x0C"]
    by (auto simp: mbr_valida_def tabella_sana_def disco_esempio_def)
  have "schema (snd (mbr_leggi dev)) = PT_SCHEMA_GPT \<and> mbr_scrivi scrivi_esempio (proposta 0x0C) dev = (Inl EPERM, PT_PROB_GPT, dev)"
    by (rule mbr_scrivi_gpt_trap [OF w proposta_scritta(1), where sett = "replicate 512 0" and v = "hd (proposta 0xEE)"])
      (use v in \<open>simp_all add: firma_def\<close>, simp_all add: disco_esempio_def proposta_def)
  then show ?thesis by blast
qed

section \<open>The chain of the logical partitions\<close>

text \<open>A record of the chain that can be used, and the chain it starts: it ends at the first record without a
  successor.\<close>

definition ebr_letto :: "(u64 \<Rightarrow> u8 list option) \<Rightarrow> u64 \<Rightarrow> u64 \<Rightarrow> u64 \<Rightarrow> u64 \<Rightarrow> u8 list option" where
  "ebr_letto leggi ei es disco ebr =
     (if ebr \<ge> disco \<or> ebr < ei \<or> ebr \<ge> ei + es then None
      else case leggi ebr of None \<Rightarrow> None | Some sett \<Rightarrow> if firma sett then Some sett else None)"

definition ultimo :: "u8 list \<Rightarrow> bool" where
  "ultimo sett \<longleftrightarrow> drop (MBR_OFF_TABELLA + 16) sett ! 4 = 0 \<or> le32 (drop 8 (drop (MBR_OFF_TABELLA + 16) sett)) = 0"

definition prossimo :: "u64 \<Rightarrow> u8 list \<Rightarrow> u64" where
  "prossimo ei sett = ei + ucast (le32 (drop 8 (drop (MBR_OFF_TABELLA + 16) sett)))"

inductive catena :: "(u64 \<Rightarrow> u8 list option) \<Rightarrow> u64 \<Rightarrow> u64 \<Rightarrow> u64 \<Rightarrow> u64 \<Rightarrow> u64 list \<Rightarrow> bool"
  for leggi ei es disco where
  fine: "ebr_letto leggi ei es disco ebr = Some sett \<Longrightarrow> ultimo sett \<Longrightarrow> catena leggi ei es disco ebr [ebr]"
| passo: "ebr_letto leggi ei es disco ebr = Some sett \<Longrightarrow> \<not> ultimo sett \<Longrightarrow>
    tipo_esteso (drop (MBR_OFF_TABELLA + 16) sett ! 4) \<Longrightarrow> catena leggi ei es disco (prossimo ei sett) xs \<Longrightarrow>
    catena leggi ei es disco ebr (ebr # xs)"

inductive_cases catenaE: "catena leggi ei es disco ebr xs"

text \<open>The logical partition a record describes, and those of a chain, numbered from 5.\<close>

definition logica_di :: "u8 list \<Rightarrow> u64 \<Rightarrow> nat \<Rightarrow> partizione list" where
  "logica_di sett ebr giri =
     (let v0 = drop MBR_OFF_TABELLA sett in
      if v0 ! 4 \<noteq> 0 \<and> le32 (drop 12 v0) > 0
      then [\<lparr>attiva = v0 ! 0, ptipo = v0 ! 4, logica = True, numero = 5 + giri, inizio = ebr + ucast (le32 (drop 8 v0)),
             settori = ucast (le32 (drop 12 v0))\<rparr>]
      else [])"

fun logiche_da :: "(u64 \<Rightarrow> u8 list option) \<Rightarrow> nat \<Rightarrow> u64 list \<Rightarrow> partizione list" where
  "logiche_da leggi giri [] = []"
| "logiche_da leggi giri (e # es) = logica_di (the (leggi e)) e giri @ logiche_da leggi (giri + 1) es"

definition rotta :: "tabella \<Rightarrow> bool" where
  "rotta t \<longleftrightarrow> problemi t AND PT_PROB_CATENA \<noteq> 0"

lemma segnala_sel [simp]: "parti (segnala f t) = parti t" "schema (segnala f t) = schema t"
  by (simp_all add: segnala_def)

lemma rotta_segnala: "rotta (segnala f t) \<longleftrightarrow> rotta t \<or> f AND PT_PROB_CATENA \<noteq> 0"
  by (simp add: rotta_def segnala_def bit.conj_disj_distrib2 or_eq_0)

lemma rotta_parti: "rotta (t\<lparr>parti := x\<rparr>) \<longleftrightarrow> rotta t"
  by (simp add: rotta_def)

definition ebr_aggiunto :: "u8 list \<Rightarrow> u64 \<Rightarrow> nat \<Rightarrow> tabella \<Rightarrow> tabella" where
  "ebr_aggiunto sett ebr giri t =
     (let v0 = drop MBR_OFF_TABELLA sett in
      if v0 ! 4 \<noteq> 0 \<and> le32 (drop 12 v0) > 0
      then aggiungi (v0 ! 0) (v0 ! 4) (ebr + ucast (le32 (drop 8 v0))) (ucast (le32 (drop 12 v0))) True (5 + giri) t
      else if v0 ! 4 \<noteq> 0 then segnala PT_PROB_VUOTA t else t)"

lemma ebr_aggiunto_spec:
  assumes "length (parti t) \<le> MBR_MAX_PART"
  shows "parti (ebr_aggiunto sett ebr giri t) = take MBR_MAX_PART (parti t @ logica_di sett ebr giri)"
    "rotta (ebr_aggiunto sett ebr giri t) = rotta t"
  using assms by (simp_all add: ebr_aggiunto_def logica_di_def aggiungi_def Let_def rotta_segnala rotta_parti)

lemma percorri_da_unfold:
  "percorri_da leggi ei es disco (Suc resto) giri visti ebr t =
     (case ebr_letto leggi ei es disco ebr of None \<Rightarrow> segnala PT_PROB_CATENA t
      | Some sett \<Rightarrow>
          if ebr \<in> set visti then segnala PT_PROB_CATENA t
          else if ultimo sett then ebr_aggiunto sett ebr giri t
          else if \<not> tipo_esteso (drop (MBR_OFF_TABELLA + 16) sett ! 4) then segnala PT_PROB_CATENA (ebr_aggiunto sett ebr giri t)
          else percorri_da leggi ei es disco resto (giri + 1) (visti @ [ebr]) (prossimo ei sett) (ebr_aggiunto sett ebr giri t))"
proof (cases "ebr_letto leggi ei es disco ebr")
  case None
  then have "(ebr \<ge> disco \<or> ebr < ei \<or> ebr \<ge> ei + es) \<or> leggi ebr = None \<or> (\<exists>sett. leggi ebr = Some sett \<and> \<not> firma sett)"
    by (auto simp: ebr_letto_def split: if_splits option.splits)
  then show ?thesis using None by (elim disjE exE conjE) (simp_all only: percorri_da.simps option.case simp_thms if_True if_False if_cancel)
next
  case (Some sett)
  then have r: "(ebr \<ge> disco \<or> ebr < ei \<or> ebr \<ge> ei + es) = False" "leggi ebr = Some sett" "(\<not> firma sett) = False"
    by (auto simp: ebr_letto_def split: if_splits option.splits)
  show ?thesis unfolding percorri_da.simps r Some option.case if_False Let_def ultimo_def prossimo_def ebr_aggiunto_def by (rule refl)
qed

lemma ebr_letto_leggi: "ebr_letto leggi ei es disco ebr = Some sett \<Longrightarrow> leggi ebr = Some sett"
  by (auto simp: ebr_letto_def split: if_splits option.splits)

lemma percorri_da_catena:
  "\<not> rotta t \<Longrightarrow> length (parti t) \<le> MBR_MAX_PART \<Longrightarrow> \<not> rotta (percorri_da leggi ei es disco resto giri visti ebr t) \<Longrightarrow>
   \<exists>xs. catena leggi ei es disco ebr xs \<and> distinct xs \<and> set xs \<inter> set visti = {} \<and> length xs \<le> resto"
proof (induction resto arbitrary: giri visti ebr t)
  case (Suc resto)
  obtain sett where e: "ebr_letto leggi ei es disco ebr = Some sett" and v: "ebr \<notin> set visti"
    using Suc.prems(1,3) by (auto simp: percorri_da_unfold rotta_segnala simp del: percorri_da.simps split: option.splits if_splits)
  show ?case
  proof (cases "ultimo sett")
    case True
    then show ?thesis using catena.fine [OF e] v by (intro exI [of _ "[ebr]"]) auto
  next
    case False
    have t: "tipo_esteso (drop (MBR_OFF_TABELLA + 16) sett ! 4)"
      using Suc.prems(3) e v False by (auto simp: percorri_da_unfold rotta_segnala simp del: percorri_da.simps split: if_splits)
    note a = ebr_aggiunto_spec [OF Suc.prems(2), of sett ebr giri]
    let ?t = "ebr_aggiunto sett ebr giri t"
    have "length (parti ?t) \<le> MBR_MAX_PART" unfolding a(1) by simp
    moreover have "\<not> rotta ?t" "\<not> rotta (percorri_da leggi ei es disco resto (giri + 1) (visti @ [ebr]) (prossimo ei sett) ?t)"
      using Suc.prems(1,3) a(2) e v False t by (simp_all add: percorri_da_unfold del: percorri_da.simps)
    ultimately obtain xs where "catena leggi ei es disco (prossimo ei sett) xs" "distinct xs" "set xs \<inter> set (visti @ [ebr]) = {}"
        "length xs \<le> resto" using Suc.IH [of ?t "giri + 1" "visti @ [ebr]" "prossimo ei sett"] by blast
    then show ?thesis using catena.passo [OF e False t] v by (intro exI [of _ "ebr # xs"]) auto
  qed
qed (simp add: rotta_segnala)

lemma percorri_da_esito:
  "catena leggi ei es disco ebr xs \<Longrightarrow> \<not> rotta t \<Longrightarrow> length (parti t) \<le> MBR_MAX_PART \<Longrightarrow> distinct xs \<Longrightarrow>
   set xs \<inter> set visti = {} \<Longrightarrow> length xs \<le> resto \<Longrightarrow>
   \<not> rotta (percorri_da leggi ei es disco resto giri visti ebr t) \<and>
   parti (percorri_da leggi ei es disco resto giri visti ebr t) = take MBR_MAX_PART (parti t @ logiche_da leggi giri xs)"
proof (induction arbitrary: giri visti t resto rule: catena.induct)
  case (fine ebr sett)
  then obtain r where r: "resto = Suc r" by (cases resto) auto
  show ?case using fine ebr_aggiunto_spec [OF fine(4), of sett ebr giri] ebr_letto_leggi [OF fine(1)]
    by (simp add: percorri_da_unfold r del: percorri_da.simps)
next
  case (passo ebr sett xs)
  then obtain r where r: "resto = Suc r" by (cases resto) auto
  note a = ebr_aggiunto_spec [OF passo(7), of sett ebr giri]
  let ?t = "ebr_aggiunto sett ebr giri t"
  have "\<not> rotta (percorri_da leggi ei es disco r (giri + 1) (visti @ [ebr]) (prossimo ei sett) ?t) \<and>
      parti (percorri_da leggi ei es disco r (giri + 1) (visti @ [ebr]) (prossimo ei sett) ?t) =
      take MBR_MAX_PART (parti ?t @ logiche_da leggi (giri + 1) xs)"
    by (rule passo.IH) (use passo.prems a r in auto)
  moreover have "take MBR_MAX_PART (take MBR_MAX_PART (parti t @ logica_di sett ebr giri) @ logiche_da leggi (giri + 1) xs) =
      take MBR_MAX_PART ((parti t @ logica_di sett ebr giri) @ logiche_da leggi (giri + 1) xs)" by (rule take_take_append)
  ultimately show ?case using passo ebr_letto_leggi [OF passo(1)] a
    by (simp add: percorri_da_unfold r del: percorri_da.simps)
qed

text \<open>C28. Following the chain of the logical partitions ends and is right: the chain is called broken exactly when
  the records, starting at the extended partition, do not form a chain of at most 17 distinct records inside the
  extended partition and the disk that ends properly; and when they do, its partitions are listed in order,
  numbered from 5, up to the size of the table.\<close>

theorem percorri_estesa_exact:
  assumes "\<not> rotta t" "length (parti t) \<le> MBR_MAX_PART"
  shows "(\<not> rotta (percorri_estesa leggi ei es disco t) \<longleftrightarrow>
      (\<exists>xs. catena leggi ei es disco ei xs \<and> distinct xs \<and> length xs \<le> MBR_MAX_PART + 1)) \<and>
    (\<forall>xs. catena leggi ei es disco ei xs \<and> distinct xs \<and> length xs \<le> MBR_MAX_PART + 1 \<longrightarrow>
      parti (percorri_estesa leggi ei es disco t) = take MBR_MAX_PART (parti t @ logiche_da leggi 0 xs))"
proof -
  have "\<exists>xs. catena leggi ei es disco ei xs \<and> distinct xs \<and> length xs \<le> MBR_MAX_PART + 1"
    if "\<not> rotta (percorri_estesa leggi ei es disco t)"
    using percorri_da_catena [OF assms that [unfolded percorri_estesa_def]] by blast
  moreover have "\<not> rotta (percorri_estesa leggi ei es disco t) \<and>
      parti (percorri_estesa leggi ei es disco t) = take MBR_MAX_PART (parti t @ logiche_da leggi 0 xs)"
    if "catena leggi ei es disco ei xs" "distinct xs" "length xs \<le> MBR_MAX_PART + 1" for xs
    using percorri_da_esito [OF that(1) assms that(2), of "[]"] that(3) by (simp add: percorri_estesa_def del: percorri_da.simps)
  ultimately show ?thesis by blast
qed

theorem percorri_estesa_exact_witness:
  "rotta (percorri_estesa (\<lambda>l. Some (replicate 512 0)) 10 20 100 tabella_vuota)"
proof -
  have "\<not> catena (\<lambda>l. Some (replicate 512 0)) 10 20 100 10 xs" for xs
    by (rule notI, erule catenaE) (auto simp: ebr_letto_def firma_def split: if_splits)
  then show ?thesis
    using percorri_estesa_exact [of tabella_vuota "\<lambda>l. Some (replicate 512 0)" 10 20 100] by (auto simp: tabella_vuota_def rotta_def)
qed

end
