(* ===== verification/Vol.thy ===== *)
theory Vol
  imports Bytes
begin

text \<open>
  Recognising the file system of a volume (\<^verbatim>\<open>kernel/block/vol.c\<close>): ISO 9660, ext, and the FAT family from the
  fields of the boot sector. The 32-bit sums of the fields are kept at their width.
\<close>

section \<open>Structures\<close>

datatype vol_fs = VOL_FS_SCONOSCIUTO | VOL_FS_EXT2 | VOL_FS_ISO9660 | VOL_FS_FAT12 | VOL_FS_FAT16 | VOL_FS_FAT32
  | VOL_FS_ILLEGGIBILE

record volume_info =
  vtipo :: vol_fs
  ext_gen :: u32
  incoerente :: bool
  byts_per_sec :: u32
  sett_per_clu :: u32
  n_fat :: u32
  riservati :: u32
  sett_per_fat :: u32
  root_entries :: u32
  tot_settori :: u32
  n_cluster :: u32
  root_cluster :: u32
  fsinfo :: u32
  etic :: "u8 list"

definition volume_zero :: volume_info where
  "volume_zero = \<lparr>vtipo = VOL_FS_SCONOSCIUTO, ext_gen = 0, incoerente = False, byts_per_sec = 0, sett_per_clu = 0, n_fat = 0,
     riservati = 0, sett_per_fat = 0, root_entries = 0, tot_settori = 0, n_cluster = 0, root_cluster = 0, fsinfo = 0,
     etic = replicate 12 0\<rparr>"

text \<open>A block device: its length in sectors of 512 bytes and what reading one gives.\<close>

record blkdev =
  b_settori :: u64
  b_leggi :: "u64 \<Rightarrow> u8 list option"

section \<open>The parts\<close>

definition settore_valido :: "u16 \<Rightarrow> bool" where
  "settore_valido b \<longleftrightarrow> b = 512 \<or> b = 1024 \<or> b = 2048 \<or> b = 4096"

definition spc_valido :: "u8 \<Rightarrow> bool" where
  "spc_valido s \<longleftrightarrow> s \<noteq> 0 \<and> s AND (s - 1) = 0 \<and> s \<le> 128"

fun togli_coda :: "nat \<Rightarrow> u8 list \<Rightarrow> u8 list" where
  "togli_coda 0 out = out"
| "togli_coda (Suc n) out = (if out ! n = 32 \<or> out ! n = 0 then togli_coda n (out[n := 0]) else out)"

fun pulisci :: "u8 list \<Rightarrow> u8 list" where
  "pulisci [] = []"
| "pulisci (c # cs) = (if c = 0 then c # cs else (if c < 32 \<or> c > 126 then 63 else c) # pulisci cs)"

definition etichetta :: "u8 list \<Rightarrow> u8 list" where
  "etichetta src = pulisci (togli_coda 11 (take 11 src @ [0]))"

definition ext_generazione :: "u32 \<Rightarrow> u32 \<Rightarrow> u32 \<Rightarrow> u32" where
  "ext_generazione compat_f incompat_f ro_compat_f =
     (if incompat_f AND 0x02C0 \<noteq> 0 \<or> ro_compat_f AND 0x0478 \<noteq> 0 then 4
      else if compat_f AND 0x0004 \<noteq> 0 then 3 else 2)"

definition vol_iso :: "u64 \<Rightarrow> u8 list \<Rightarrow> volume_info option" where
  "vol_iso n_settori pvd =
     (if pvd ! 1 = 67 \<and> pvd ! 2 = 68 \<and> pvd ! 3 = 48 \<and> pvd ! 4 = 48 \<and> pvd ! 5 = 49 then
        (let out = volume_zero\<lparr>vtipo := VOL_FS_ISO9660, byts_per_sec := 2048, sett_per_clu := 4, tot_settori := ucast n_settori\<rparr>
         in Some (if pvd ! 0 = 1
                  then out\<lparr>n_cluster := le32 (drop 80 pvd), etic := togli_coda 11 (take 11 (drop 40 pvd) @ [0])\<rparr>
                  else out))
      else None)"

definition vol_ext :: "u64 \<Rightarrow> u8 list \<Rightarrow> volume_info option" where
  "vol_ext n_settori sb =
     (if le16 (drop 56 sb) = 0xEF53 then
        (let log_bs = le32 (drop 24 sb) in
         Some (volume_zero\<lparr>vtipo := VOL_FS_EXT2,
                 ext_gen := ext_generazione (le32 (drop 92 sb)) (le32 (drop 96 sb)) (le32 (drop 100 sb)),
                 byts_per_sec := 512,
                 sett_per_clu := (if log_bs \<le> 6 then push_bit (unat log_bs) 1024 div 512 else 0),
                 tot_settori := ucast n_settori, n_cluster := le32 (drop 4 sb),
                 etic := take 11 (drop 120 sb) @ [0], incoerente := (log_bs > 2)\<rparr>))
      else None)"

text \<open>The boot sector of the FAT family; \<^verbatim>\<open>volume_zero\<close> is the answer unknown.\<close>

definition fat_meta :: "u16 \<Rightarrow> u8 \<Rightarrow> u32 \<Rightarrow> u16 \<Rightarrow> u16 \<Rightarrow> u32" where
  "fat_meta resvd nfat fatsz root_ent bps =
     (let root_dir_sec = (ucast root_ent * 32 + (ucast bps - 1)) div ucast bps in ucast resvd + ucast nfat * fatsz + root_dir_sec)"

definition fat_tipo :: "u32 \<Rightarrow> vol_fs" where
  "fat_tipo cluster =
     (if cluster < 4085 then VOL_FS_FAT12 else if cluster < 65525 then VOL_FS_FAT16 else VOL_FS_FAT32)"

definition vol_bpb :: "u64 \<Rightarrow> u8 list \<Rightarrow> u16 \<Rightarrow> u8 \<Rightarrow> u16 \<Rightarrow> u8 \<Rightarrow> u16 \<Rightarrow> u16 \<Rightarrow> u32 \<Rightarrow> u32 \<Rightarrow> volume_info" where
  "vol_bpb n_settori s bps spc resvd nfat root_ent fatsz16 tot fatsz =
     (let meta = fat_meta resvd nfat fatsz root_ent bps; dati = tot - meta; cluster = dati div ucast spc
      in if \<not> settore_valido bps \<or> \<not> spc_valido spc \<or> resvd = 0 \<or> nfat = 0 \<or> nfat > 4 then volume_zero
         else if tot = 0 \<or> fatsz = 0 then volume_zero
         else if ucast tot > n_settori then volume_zero
         else if meta \<ge> tot then volume_zero
         else if cluster = 0 then volume_zero
         else
           (let tipo = fat_tipo cluster;
                v = volume_zero\<lparr>vtipo := tipo,
                      incoerente := (if tipo = VOL_FS_FAT32 then root_ent \<noteq> 0 \<or> fatsz16 \<noteq> 0 else root_ent = 0),
                      byts_per_sec := ucast bps, sett_per_clu := ucast spc, n_fat := ucast nfat, riservati := ucast resvd,
                      sett_per_fat := fatsz, root_entries := ucast root_ent, tot_settori := tot, n_cluster := cluster\<rparr>
            in if tipo = VOL_FS_FAT32
               then v\<lparr>root_cluster := le32 (drop 44 s), fsinfo := ucast (le16 (drop 48 s)), etic := etichetta (drop 71 s)\<rparr>
               else v\<lparr>etic := etichetta (drop 43 s)\<rparr>))"

definition vol_fat :: "u64 \<Rightarrow> u8 list \<Rightarrow> volume_info" where
  "vol_fat n_settori s =
     (if \<not> (s ! 510 = 0x55 \<and> s ! 511 = 0xAA) then volume_zero
      else (let tot16 = le16 (drop 19 s); fatsz16 = le16 (drop 22 s); tot32 = le32 (drop 32 s); fatsz32 = le32 (drop 36 s)
            in vol_bpb n_settori s (le16 (drop 11 s)) (s ! 13) (le16 (drop 14 s)) (s ! 16) (le16 (drop 17 s)) fatsz16
                 (if tot16 \<noteq> 0 then ucast tot16 else tot32) (if fatsz16 \<noteq> 0 then ucast fatsz16 else fatsz32)))"

definition vol_identifica :: "blkdev option \<Rightarrow> bool \<times> volume_info" where
  "vol_identifica dev =
     (case dev of None \<Rightarrow> (False, volume_zero)
      | Some b \<Rightarrow>
          if b_settori b = 0 then (False, volume_zero)
          else
            (case (if b_settori b > 64 then (case b_leggi b 64 of None \<Rightarrow> None | Some pvd \<Rightarrow> vol_iso (b_settori b) pvd) else None) of
               Some v \<Rightarrow> (True, v)
             | None \<Rightarrow>
                 (case b_leggi b 0 of None \<Rightarrow> (False, volume_zero\<lparr>vtipo := VOL_FS_ILLEGGIBILE\<rparr>)
                  | Some s \<Rightarrow>
                      (case (case b_leggi b 2 of None \<Rightarrow> None | Some sb \<Rightarrow> vol_ext (b_settori b) sb) of
                         Some v \<Rightarrow> (True, v)
                       | None \<Rightarrow> (True, vol_fat (b_settori b) s)))))"

section \<open>The rule of the type\<close>

definition tipo_fat :: "nat \<Rightarrow> vol_fs" where
  "tipo_fat n = (if n < 4085 then VOL_FS_FAT12 else if n < 65525 then VOL_FS_FAT16 else VOL_FS_FAT32)"

text \<open>The sectors before the data area, as a natural number.\<close>

definition metadati :: "volume_info \<Rightarrow> nat" where
  "metadati v = unat (riservati v) + unat (n_fat v) * unat (sett_per_fat v) +
     (unat (root_entries v) * 32 + (unat (byts_per_sec v) - 1)) div unat (byts_per_sec v)"

lemma unat_ucast_16: "unat (ucast (x :: u16) :: u32) = unat x"
proof -
  have "unat x < 2 ^ LENGTH(16)" by (rule unsigned_less)
  then show ?thesis by (simp add: unsigned_ucast_eq take_bit_nat_eq_self)
qed

lemma unat_ucast_8: "unat (ucast (x :: u8) :: u32) = unat x"
proof -
  have "unat x < 2 ^ LENGTH(8)" by (rule unsigned_less)
  then show ?thesis by (simp add: unsigned_ucast_eq take_bit_nat_eq_self)
qed

lemma unat_ucast_32: "unat (ucast (x :: u32) :: u64) = unat x"
proof -
  have "unat x < 2 ^ LENGTH(32)" by (rule unsigned_less)
  then show ?thesis by (simp add: unsigned_ucast_eq take_bit_nat_eq_self)
qed

lemma unat_mult_ok: "unat (x :: 'a::len word) * unat y < 2 ^ LENGTH('a) \<Longrightarrow> unat (x * y) = unat x * unat y"
  by (simp add: unat_mult_lem [symmetric])

lemma unat_add_ok: "unat (x :: 'a::len word) + unat y < 2 ^ LENGTH('a) \<Longrightarrow> unat (x + y) = unat x + unat y"
  by (simp add: unat_add_lem [symmetric])

text \<open>The sectors of the root directory: the sum does not wrap.\<close>

lemma root_dir_unat:
  fixes root_ent bps :: u16
  assumes "bps \<noteq> 0"
  shows "unat ((ucast root_ent * 32 + (ucast bps - 1)) div ucast bps :: u32) =
    (unat root_ent * 32 + (unat bps - 1)) div unat bps"
proof -
  have l: "unat root_ent < 2 ^ LENGTH(16)" "unat bps < 2 ^ LENGTH(16)" by (rule unsigned_less)+
  have m: "unat (ucast root_ent * 32 :: u32) = unat root_ent * 32"
    using l(1) unat_mult_ok [of "ucast root_ent :: u32" 32] by (simp add: unat_ucast_16)
  have z: "(ucast bps :: u32) \<noteq> 0" using assms unat_ucast_16 [of bps] by (metis unat_eq_zero)
  then have d: "unat (ucast bps - 1 :: u32) = unat bps - 1" by (simp add: unat_minus_one unat_ucast_16)
  have "unat (ucast root_ent * 32 + (ucast bps - 1) :: u32) = unat root_ent * 32 + (unat bps - 1)"
    using l by (subst unat_add_ok) (simp_all add: m d)
  then show ?thesis by (simp add: unat_div_distrib unat_ucast_16)
qed

lemma vol_bpb_ok:
  assumes "vtipo (vol_bpb n s bps spc resvd nfat root_ent fatsz16 tot fatsz) \<noteq> VOL_FS_SCONOSCIUTO"
  shows "settore_valido bps" "spc_valido spc" "ucast tot \<le> n" "fat_meta resvd nfat fatsz root_ent bps < tot"
    "(tot - fat_meta resvd nfat fatsz root_ent bps) div ucast spc \<noteq> 0"
  using assms unfolding vol_bpb_def Let_def by (auto simp: volume_zero_def not_less not_le split: if_splits)

lemma vol_bpb_sel:
  assumes "vtipo v \<noteq> VOL_FS_SCONOSCIUTO" "v = vol_bpb n s bps spc resvd nfat root_ent fatsz16 tot fatsz"
  shows "byts_per_sec v = ucast bps" "sett_per_clu v = ucast spc" "riservati v = ucast resvd" "n_fat v = ucast nfat"
    "root_entries v = ucast root_ent" "sett_per_fat v = fatsz" "tot_settori v = tot"
    "n_cluster v = (tot - fat_meta resvd nfat fatsz root_ent bps) div ucast spc" "vtipo v = fat_tipo (n_cluster v)"
  using assms unfolding vol_bpb_def Let_def by (simp_all add: volume_zero_def split: if_splits)


text \<open>A small FAT12 floppy: 1.44 MB.\<close>

definition settore_floppy :: "u8 list" where
  "settore_floppy = (replicate 512 0)[12 := 2, 13 := 1, 14 := 1, 16 := 2, 17 := 224, 19 := 0x40, 20 := 0x0B, 22 := 9, 510 := 0x55, 511 := 0xAA]"


definition settore_traboccante :: "u8 list" where
  "settore_traboccante = (replicate 512 0)[12 := 0x10, 13 := 1, 14 := 1, 16 := 4, 33 := 0x40, 34 := 1, 39 := 0x40, 510 := 0x55, 511 := 0xAA]"

text \<open>Without that hypothesis it is not so: the 32-bit sum of the metadata can wrap, and the length of a volume is
  compared with that of the device in sectors of another size. There is a boot sector that is recognised as a
  faultless FAT32 although its FATs alone are larger than the volume, and the volume larger than the device.\<close>

theorem vol_fat_overflow:
  "\<exists>v. vol_identifica (Some \<lparr>b_settori = 100000, b_leggi = \<lambda>l. Some settore_traboccante\<rparr>) = (True, v) \<and>
     vtipo v = VOL_FS_FAT32 \<and> \<not> incoerente v \<and> unat (n_fat v) * unat (sett_per_fat v) > unat (tot_settori v) \<and>
     unat (tot_settori v) * unat (byts_per_sec v) > 100000 * 512"
proof -
  let ?s = settore_traboccante
  have s: "?s ! 510 = 0x55" "?s ! 511 = 0xAA" "le16 (drop 11 ?s) = 4096" "?s ! 13 = 1" "le16 (drop 14 ?s) = 1" "?s ! 16 = 4"
    "le16 (drop 17 ?s) = 0" "le16 (drop 19 ?s) = 0" "le16 (drop 22 ?s) = 0" "le32 (drop 32 ?s) = 0x14000" "le32 (drop 36 ?s) = 0x40000000"
    "?s ! Suc 0 = 0" "le16 (drop 56 ?s) = 0"
    by (simp_all add: settore_traboccante_def le16_def le32_def nth_list_update)
  let ?v = "vol_bpb 100000 ?s 4096 1 1 4 0 0 0x14000 0x40000000"
  have i: "vol_identifica (Some \<lparr>b_settori = 100000, b_leggi = \<lambda>l. Some ?s\<rparr>) = (True, ?v)"
    by (simp add: vol_identifica_def vol_iso_def vol_ext_def vol_fat_def s)
  have m: "fat_meta 1 4 0x40000000 0 4096 = 1" by (simp add: fat_meta_def)
  have l: "\<not> (0x14000 :: u32) \<le> 1" by (simp add: word_le_nat_alt)
  have t: "vtipo ?v = VOL_FS_FAT32" "\<not> incoerente ?v"
    using l by (simp_all add: vol_bpb_def Let_def m settore_valido_def spc_valido_def fat_tipo_def)
  then have "vtipo ?v \<noteq> VOL_FS_SCONOSCIUTO" by simp
  note sel = vol_bpb_sel [OF this refl]
  show ?thesis using i t by (intro exI [of _ ?v]) (simp add: sel)
qed

end
