(* ===== verification/Bitmap.thy ===== *)
theory Bitmap
  imports Bytes
begin

text \<open>
  Sets of pages kept one bit per page in an array of bytes, as \<^verbatim>\<open>BITMAP_SET\<close>, \<^verbatim>\<open>BITMAP_CLR\<close> and \<^verbatim>\<open>BITMAP_TEST\<close> of
  \<^verbatim>\<open>kernel/mm/pmm.c\<close> do; the contract of such a set and what follows from it about counting the free pages.
\<close>

section \<open>The bytes\<close>

definition bitmap_test :: "u8 list \<Rightarrow> nat \<Rightarrow> bool" where
  "bitmap_test m k \<longleftrightarrow> m ! (k div 8) AND push_bit (k mod 8) 1 \<noteq> 0"

definition bitmap_set :: "nat \<Rightarrow> u8 list \<Rightarrow> u8 list" where
  "bitmap_set k m = m[k div 8 := m ! (k div 8) OR push_bit (k mod 8) 1]"

definition bitmap_clr :: "nat \<Rightarrow> u8 list \<Rightarrow> u8 list" where
  "bitmap_clr k m = m[k div 8 := m ! (k div 8) AND NOT (push_bit (k mod 8) 1)]"

lemma bitmap_test_bit: "bitmap_test m k \<longleftrightarrow> bit (m ! (k div 8)) (k mod 8)"
  unfolding bitmap_test_def push_bit_of_1 and_exp_eq_0_iff_not_bit by simp

lemma length_bitmap [simp]: "length (bitmap_set k m) = length m" "length (bitmap_clr k m) = length m"
  by (simp_all add: bitmap_set_def bitmap_clr_def)

lemma stesso_bit: "(j :: nat) div 8 = k div 8 \<Longrightarrow> j mod 8 = k mod 8 \<Longrightarrow> j = k"
  by (metis div_mult_mod_eq)

lemma bitmap_test_set:
  assumes "k div 8 < length m"
  shows "bitmap_test (bitmap_set k m) j \<longleftrightarrow> j = k \<or> bitmap_test m j"
proof (cases "j div 8 = k div 8")
  case True
  then show ?thesis using assms stesso_bit [OF True]
    by (auto simp: bitmap_test_bit bitmap_set_def bit_simps)
next
  case False
  then show ?thesis by (auto simp: bitmap_test_bit bitmap_set_def)
qed

lemma bitmap_test_clr:
  assumes "k div 8 < length m"
  shows "bitmap_test (bitmap_clr k m) j \<longleftrightarrow> j \<noteq> k \<and> bitmap_test m j"
proof (cases "j div 8 = k div 8")
  case True
  then show ?thesis using assms stesso_bit [OF True]
    by (auto simp: bitmap_test_bit bitmap_clr_def bit_simps)
next
  case False
  then show ?thesis by (auto simp: bitmap_test_bit bitmap_clr_def)
qed

text \<open>What lies behind the bitmap in memory is not touched.\<close>

lemma bitmap_dietro: "k div 8 \<noteq> i \<Longrightarrow> bitmap_set k m ! i = m ! i" "k div 8 \<noteq> i \<Longrightarrow> bitmap_clr k m ! i = m ! i"
  by (simp_all add: bitmap_set_def bitmap_clr_def)

section \<open>The contract of a set of pages\<close>

locale insieme_pagine =
  fixes dentro :: "'s \<Rightarrow> nat \<Rightarrow> bool" and usata :: "'s \<Rightarrow> nat \<Rightarrow> bool"
    and prendi :: "nat \<Rightarrow> 's \<Rightarrow> 's" and lascia :: "nat \<Rightarrow> 's \<Rightarrow> 's"
  assumes usata_prendi: "dentro s k \<Longrightarrow> usata (prendi k s) j \<longleftrightarrow> j = k \<or> usata s j"
    and usata_lascia: "dentro s k \<Longrightarrow> usata (lascia k s) j \<longleftrightarrow> j \<noteq> k \<and> usata s j"
    and dentro_prendi: "dentro (prendi k s) j \<longleftrightarrow> dentro s j"
    and dentro_lascia: "dentro (lascia k s) j \<longleftrightarrow> dentro s j"
begin

text \<open>How many of the first \<open>n\<close> pages are free.\<close>

lemma libere_prendi:
  assumes "dentro s k" "k < n" "\<not> usata s k"
  shows "card {j. j < n \<and> \<not> usata s j} = Suc (card {j. j < n \<and> \<not> usata (prendi k s) j})"
proof -
  have "{j. j < n \<and> \<not> usata s j} = insert k {j. j < n \<and> \<not> usata (prendi k s) j}"
    using assms usata_prendi [OF assms(1)] by auto
  moreover have "k \<notin> {j. j < n \<and> \<not> usata (prendi k s) j}" using usata_prendi [OF assms(1)] by simp
  ultimately show ?thesis by simp
qed

lemma libere_lascia:
  assumes "dentro s k" "k < n" "usata s k"
  shows "card {j. j < n \<and> \<not> usata (lascia k s) j} = Suc (card {j. j < n \<and> \<not> usata s j})"
proof -
  have "{j. j < n \<and> \<not> usata (lascia k s) j} = insert k {j. j < n \<and> \<not> usata s j}"
    using assms usata_lascia [OF assms(1)] by auto
  then show ?thesis using assms(3) by simp
qed

lemma usata_fold:
  assumes "\<forall>k \<in> set ks. dentro s k"
  shows "usata (fold prendi ks s) j \<longleftrightarrow> j \<in> set ks \<or> usata s j" "dentro (fold prendi ks s) j \<longleftrightarrow> dentro s j"
  using assms by (induction ks arbitrary: s) (auto simp: usata_prendi dentro_prendi)

end

text \<open>The bytes keep the contract for the pages they cover.\<close>

interpretation bm: insieme_pagine "\<lambda>m k. k div 8 < length m" bitmap_test bitmap_set bitmap_clr
  by unfold_locales (simp_all add: bitmap_test_set bitmap_test_clr)

end
