(* ===== verification/Oltre.thy ===== *)
theory Oltre
  imports Bytes
begin

text \<open>
  The table of the references past the byte (\<^verbatim>\<open>kernel/mm/pmm.c\<close>, \<^verbatim>\<open>g_oltre\<close>): open addressing with linear probing,
  removal by shifting entries back. It is shown to implement a map from pages to counts.
\<close>

section \<open>The table\<close>

record rif_oltre =
  pagina :: nat
  in_piu :: nat

abbreviation vuota :: rif_oltre where "vuota \<equiv> \<lparr>pagina = 0, in_piu = 0\<rparr>"

text \<open>\<^verbatim>\<open>g_oltre_posti\<close> is the length of the table; the count \<^verbatim>\<open>g_oltre_usati\<close> goes beside it.\<close>

type_synonym tavola = "rif_oltre list"

definition prossimo :: "tavola \<Rightarrow> nat \<Rightarrow> nat" where
  "prossimo t i = (i + 1) AND (length t - 1)"

text \<open>The product is taken at 64 bits and cut by the mask.\<close>

definition oltre_casa :: "nat \<Rightarrow> nat \<Rightarrow> nat" where
  "oltre_casa posti a = ((drop_bit 12 a * 2654435761) mod 2 ^ 64) AND (posti - 1)"

text \<open>The probing loops stop at a free slot; the fuel is the number of slots.\<close>

fun trova_da :: "nat \<Rightarrow> tavola \<Rightarrow> nat \<Rightarrow> nat \<Rightarrow> nat option" where
  "trova_da 0 t a i = None"
| "trova_da (Suc f) t a i =
     (if pagina (t ! i) = 0 then None else if pagina (t ! i) = a then Some i else trova_da f t a (prossimo t i))"

definition oltre_trova :: "tavola \<Rightarrow> nat \<Rightarrow> nat option" where
  "oltre_trova t a = (if length t = 0 then None else trova_da (length t) t a (oltre_casa (length t) a))"

fun libero_da :: "nat \<Rightarrow> tavola \<Rightarrow> nat \<Rightarrow> nat" where
  "libero_da 0 t i = i"
| "libero_da (Suc f) t i = (if pagina (t ! i) = 0 then i else libero_da f t (prossimo t i))"

definition libero :: "tavola \<Rightarrow> nat \<Rightarrow> nat" where
  "libero t a = libero_da (length t) t (oltre_casa (length t) a)"

text \<open>Growing: \<open>mem\<close> says whether the allocator gave the larger table. The size is a 32 bit number in the source; it doubles only when the
  table is three quarters full of distinct pages, which are far fewer than would make it wrap.\<close>

definition oltre_cresci :: "bool \<Rightarrow> tavola \<Rightarrow> tavola option" where
  "oltre_cresci mem t =
     (let posti = (if length t \<noteq> 0 then length t * 2 else 64) in
      if \<not> mem then None
      else Some (fold (\<lambda>r n. if pagina r \<noteq> 0 then n[libero n (pagina r) := r] else n) t (replicate posti vuota)))"

definition oltre_aggiungi :: "bool \<Rightarrow> nat \<Rightarrow> tavola \<times> nat \<Rightarrow> bool \<times> tavola \<times> nat" where
  "oltre_aggiungi mem a = (\<lambda>(t, usati).
     (case oltre_trova t a of
        Some i \<Rightarrow>
          if in_piu (t ! i) = 0xFFFFFFFF then (False, t, usati)
          else (True, t[i := (t ! i)\<lparr>in_piu := in_piu (t ! i) + 1\<rparr>], usati)
      | None \<Rightarrow>
          (case (if (usati + 1) * 2 > length t then oltre_cresci mem t else Some t) of
             None \<Rightarrow> (False, t, usati)
           | Some t1 \<Rightarrow> (True, t1[libero t1 a := \<lparr>pagina = a, in_piu = 1\<rparr>], usati + 1))))"

text \<open>The loop that closes the hole \<open>i\<close>, looking at \<open>j\<close>.\<close>

definition sul_cammino :: "nat \<Rightarrow> nat \<Rightarrow> nat \<Rightarrow> bool" where
  "sul_cammino i j k \<longleftrightarrow> (if i \<le> j then k \<le> i \<or> k > j else k \<le> i \<and> k > j)"

fun chiudi_buco :: "nat \<Rightarrow> tavola \<Rightarrow> nat \<Rightarrow> nat \<Rightarrow> tavola" where
  "chiudi_buco 0 t i j = t"
| "chiudi_buco (Suc f) t i j =
     (if pagina (t ! j) = 0 then t
      else if sul_cammino i j (oltre_casa (length t) (pagina (t ! j)))
      then chiudi_buco f (t[i := t ! j, j := vuota]) j (prossimo t j)
      else chiudi_buco f t i (prossimo t j))"

definition oltre_togli :: "nat \<Rightarrow> tavola \<times> nat \<Rightarrow> bool \<times> tavola \<times> nat" where
  "oltre_togli a = (\<lambda>(t, usati).
     (case oltre_trova t a of
        None \<Rightarrow> (False, t, usati)
      | Some i \<Rightarrow>
          (let c = (in_piu (t ! i) + 0xFFFFFFFF) mod 2 ^ 32; t1 = t[i := (t ! i)\<lparr>in_piu := c\<rparr>] in
           if c \<noteq> 0 then (True, t1, usati)
           else (True, chiudi_buco (length t) (t1[i := (t1 ! i)\<lparr>pagina := 0\<rparr>]) i (prossimo t i), usati - 1))))"

section \<open>Going round\<close>

text \<open>The distance from \<open>a\<close> forward to \<open>b\<close> on a circle of \<open>n\<close> places.\<close>

definition giro_dist :: "nat \<Rightarrow> nat \<Rightarrow> nat \<Rightarrow> nat" where
  "giro_dist n a b = (if a \<le> b then b - a else n + b - a)"

lemma and_mask_mod: "n = 2 ^ k \<Longrightarrow> x AND (n - 1) = x mod (n :: nat)"
  by (simp add: take_bit_eq_mod [symmetric] take_bit_eq_mask mask_eq_exp_minus_1)

lemma giro_dist_lt: "a < n \<Longrightarrow> b < n \<Longrightarrow> giro_dist n a b < n"
  by (auto simp: giro_dist_def)

lemma giro_dist_self [simp]: "giro_dist n a a = 0"
  by (simp add: giro_dist_def)

lemma giro_dist_inj: "a < n \<Longrightarrow> b < n \<Longrightarrow> c < n \<Longrightarrow> giro_dist n a b = giro_dist n a c \<Longrightarrow> b = c"
  by (auto simp: giro_dist_def split: if_splits)

lemma giro_dist_next:
  assumes "a < n" "i < n" "j = (i + 1) mod n" "j \<noteq> a"
  shows "giro_dist n a j = giro_dist n a i + 1"
  using assms by (cases "i + 1 = n") (auto simp: giro_dist_def)

lemma sul_cammino_dist:
  assumes "i < n" "j < n" "k < n" "i \<noteq> j"
  shows "sul_cammino i j k \<longleftrightarrow> giro_dist n k i < giro_dist n k j"
  using assms by (auto simp: sul_cammino_def giro_dist_def)

text \<open>An entry whose way from \<open>h\<close> passes the hole \<open>x\<close> but not the free slot \<open>e\<close> lies between the two, seen from
  any point that is not between them.\<close>

lemma giro_prima:
  assumes "h < n" "x < n" "p < n" "e < n"
    and "giro_dist n h x < giro_dist n h p" "giro_dist n h e \<le> giro_dist n h x \<or> giro_dist n h p \<le> giro_dist n h e"
    and "e \<noteq> x" "e \<noteq> p"
  shows "giro_dist n x p < giro_dist n x e"
  using assms by (auto simp: giro_dist_def split: if_splits)

lemma giro_tra:
  assumes "x < n" "p < n" "e < n" "i < n"
    and "giro_dist n x p < giro_dist n x e" "giro_dist n i x < giro_dist n i e" "p \<noteq> x"
  shows "giro_dist n i x < giro_dist n i p \<and> giro_dist n i p < giro_dist n i e"
  using assms by (auto simp: giro_dist_def split: if_splits)

lemma tra_buco_e_fine:
  assumes "h < n" "x < n" "p < n" "e < n" "i < n"
    and "giro_dist n h x < giro_dist n h p" "\<not> (giro_dist n h x < giro_dist n h e \<and> giro_dist n h e < giro_dist n h p)"
    and "e \<noteq> x" "e \<noteq> p" "giro_dist n i x < giro_dist n i e"
  shows "giro_dist n i x < giro_dist n i p \<and> giro_dist n i p < giro_dist n i e"
proof (rule giro_tra [OF assms(2-5) _ assms(10)])
  show "giro_dist n x p < giro_dist n x e" using assms(7) by (intro giro_prima [OF assms(1-4,6) _ assms(8,9)]) auto
  show "p \<noteq> x" using assms(6) by auto
qed

section \<open>The invariant\<close>

definition occ :: "tavola \<Rightarrow> nat \<Rightarrow> bool" where
  "occ t i \<longleftrightarrow> pagina (t ! i) \<noteq> 0"

definition casa :: "tavola \<Rightarrow> nat \<Rightarrow> nat" where
  "casa t i = oltre_casa (length t) (pagina (t ! i))"

definition potenza :: "tavola \<Rightarrow> bool" where
  "potenza t \<longleftrightarrow> (\<exists>k. length t = 2 ^ k)"

text \<open>Each page is in one slot; and it is found by probing: from its home to its slot there is no free one.\<close>

definition unica :: "tavola \<Rightarrow> bool" where
  "unica t \<longleftrightarrow> (\<forall>i < length t. \<forall>j < length t. occ t i \<and> pagina (t ! i) = pagina (t ! j) \<longrightarrow> i = j)"

definition sulla_via :: "tavola \<Rightarrow> nat \<Rightarrow> nat \<Rightarrow> bool" where
  "sulla_via t p z \<longleftrightarrow> giro_dist (length t) (casa t p) z < giro_dist (length t) (casa t p) p"

definition cammini :: "tavola \<Rightarrow> bool" where
  "cammini t \<longleftrightarrow> (\<forall>p < length t. \<forall>z < length t. occ t p \<and> sulla_via t p z \<longrightarrow> occ t z)"

definition positivi :: "tavola \<Rightarrow> bool" where
  "positivi t \<longleftrightarrow> (\<forall>p < length t. occ t p \<longrightarrow> 0 < in_piu (t ! p) \<and> in_piu (t ! p) < 2 ^ 32)"

definition usati_di :: "tavola \<Rightarrow> nat" where
  "usati_di t = card {i. i < length t \<and> occ t i}"

definition tav_ok :: "tavola \<Rightarrow> bool" where
  "tav_ok t \<longleftrightarrow> potenza t \<and> unica t \<and> cammini t \<and> positivi t \<and> usati_di t < length t"

text \<open>The map the table stands for: how many references past the byte a page has.\<close>

definition peso :: "tavola \<Rightarrow> nat \<Rightarrow> nat" where
  "peso t a = (if a = 0 then 0 else case find (\<lambda>r. pagina r = a) t of None \<Rightarrow> 0 | Some r \<Rightarrow> in_piu r)"

lemma potenza_pos: "potenza t \<Longrightarrow> 0 < length t"
  by (auto simp: potenza_def)

lemma casa_lt: "potenza t \<Longrightarrow> oltre_casa (length t) a < length t"
  unfolding potenza_def oltre_casa_def using and_mask_mod by fastforce

lemma prossimo_mod: "potenza t \<Longrightarrow> prossimo t i = (i + 1) mod length t"
  unfolding potenza_def prossimo_def using and_mask_mod by blast

lemma prossimo_lt: "potenza t \<Longrightarrow> prossimo t i < length t"
  using prossimo_mod potenza_pos by simp

lemma unicaD: "unica t \<Longrightarrow> i < length t \<Longrightarrow> j < length t \<Longrightarrow> occ t i \<Longrightarrow> pagina (t ! i) = pagina (t ! j) \<Longrightarrow> i = j"
  by (simp add: unica_def)

lemma camminiD: "cammini t \<Longrightarrow> p < length t \<Longrightarrow> z < length t \<Longrightarrow> occ t p \<Longrightarrow> sulla_via t p z \<Longrightarrow> occ t z"
  unfolding cammini_def by blast

lemma positiviD: "positivi t \<Longrightarrow> p < length t \<Longrightarrow> occ t p \<Longrightarrow> 0 < in_piu (t ! p) \<and> in_piu (t ! p) < 2 ^ 32"
  unfolding positivi_def by blast

lemma peso_slot:
  assumes "unica t" "i < length t" "occ t i"
  shows "peso t (pagina (t ! i)) = in_piu (t ! i)"
proof -
  have "find (\<lambda>r. pagina r = pagina (t ! i)) t \<noteq> None"
    using nth_mem [OF assms(2)] unfolding find_None_iff by blast
  then obtain r where r: "find (\<lambda>r. pagina r = pagina (t ! i)) t = Some r" by blast
  then obtain j where j: "j < length t" "t ! j = r" "pagina r = pagina (t ! i)"
    by (auto simp: find_Some_iff)
  then have "j = i" using unicaD [OF assms(1,2) j(1) assms(3)] by simp
  then show ?thesis using r j assms(3) by (simp add: peso_def occ_def)
qed

lemma peso_assente:
  assumes "\<And>i. i < length t \<Longrightarrow> pagina (t ! i) \<noteq> a"
  shows "peso t a = 0"
proof -
  have "find (\<lambda>r. pagina r = a) t = None" unfolding find_None_iff using assms by (metis in_set_conv_nth)
  then show ?thesis by (simp add: peso_def)
qed

text \<open>Two tables with the same entries stand for the same map.\<close>

lemma peso_cong:
  assumes "unica t" "unica t'" "a \<noteq> 0"
    and "\<And>i. i < length t \<Longrightarrow> pagina (t ! i) = a \<Longrightarrow> \<exists>j < length t'. t' ! j = t ! i"
    and "\<And>j. j < length t' \<Longrightarrow> pagina (t' ! j) = a \<Longrightarrow> \<exists>i < length t. t ! i = t' ! j"
  shows "peso t' a = peso t a"
proof (cases "\<exists>i < length t. pagina (t ! i) = a")
  case True
  then obtain i where i: "i < length t" "pagina (t ! i) = a" by auto
  then obtain j where j: "j < length t'" "t' ! j = t ! i" using assms(4) by blast
  show ?thesis using peso_slot [OF assms(1) i(1)] peso_slot [OF assms(2) j(1)] i j assms(3) by (simp add: occ_def)
next
  case False
  then show ?thesis using assms(5) peso_assente [of t a] peso_assente [of t' a] by (metis (no_types))
qed

lemma peso_cong':
  assumes "unica t" "unica t'"
    and "\<And>i. a \<noteq> 0 \<Longrightarrow> i < length t \<Longrightarrow> pagina (t ! i) = a \<Longrightarrow> \<exists>j < length t'. t' ! j = t ! i"
    and "\<And>j. a \<noteq> 0 \<Longrightarrow> j < length t' \<Longrightarrow> pagina (t' ! j) = a \<Longrightarrow> \<exists>i < length t. t ! i = t' ! j"
  shows "peso t' a = peso t a"
  using peso_cong [OF assms(1,2)] assms(3,4) by (cases "a = 0") (simp_all add: peso_def)

section \<open>Finding\<close>

lemma trova_da_presente:
  assumes ok: "potenza t" "unica t" "cammini t" and p: "p < length t" "pagina (t ! p) = a" "a \<noteq> 0"
  shows "i < length t \<Longrightarrow> giro_dist (length t) (casa t p) i \<le> giro_dist (length t) (casa t p) p \<Longrightarrow>
    giro_dist (length t) (casa t p) p - giro_dist (length t) (casa t p) i < f \<Longrightarrow> trova_da f t a i = Some p"
proof (induction f arbitrary: i)
  case (Suc f)
  let ?n = "length t" and ?h = "casa t p"
  have h: "?h < ?n" using casa_lt [OF ok(1)] by (simp add: casa_def)
  show ?case
  proof (cases "i = p")
    case True
    then show ?thesis using p by simp
  next
    case False
    then have lt: "giro_dist ?n ?h i < giro_dist ?n ?h p" using Suc.prems(2) giro_dist_inj [OF h Suc.prems(1) p(1)] by force
    then have oi: "occ t i" using ok(3) p Suc.prems(1) by (auto simp: cammini_def sulla_via_def occ_def)
    then have ne: "pagina (t ! i) \<noteq> a" using unicaD [OF ok(2) Suc.prems(1) p(1)] p False by auto
    have nx: "prossimo t i < ?n" "prossimo t i = (i + 1) mod ?n" using prossimo_lt [OF ok(1)] prossimo_mod [OF ok(1)] by auto
    have "prossimo t i \<noteq> ?h"
    proof
      assume e: "prossimo t i = ?h"
      have "giro_dist ?n ?h i = ?n - 1" using e h Suc.prems(1) nx(2) by (cases "i + 1 = ?n") (auto simp: giro_dist_def)
      then show False using lt giro_dist_lt [OF h p(1)] by linarith
    qed
    then have "giro_dist ?n ?h (prossimo t i) = giro_dist ?n ?h i + 1" by (rule giro_dist_next [OF h Suc.prems(1) nx(2)])
    then have "trova_da f t a (prossimo t i) = Some p" using Suc.prems lt nx by (intro Suc.IH) auto
    then show ?thesis using oi ne by (simp add: occ_def)
  qed
qed simp

lemma trova_da_Some: "trova_da f t a i = Some p \<Longrightarrow> potenza t \<Longrightarrow> i < length t \<Longrightarrow> p < length t \<and> pagina (t ! p) = a \<and> a \<noteq> 0"
  by (induction f t a i rule: trova_da.induct) (auto simp: prossimo_lt split: if_splits)

lemma oltre_trova_spec:
  assumes "tav_ok t" "a \<noteq> 0"
  shows "oltre_trova t a = Some p \<longleftrightarrow> p < length t \<and> pagina (t ! p) = a"
proof
  have t: "potenza t" "unica t" "cammini t" "length t \<noteq> 0" using assms(1) potenza_pos by (auto simp: tav_ok_def)
  have h: "oltre_casa (length t) a < length t" by (rule casa_lt [OF t(1)])
  show "oltre_trova t a = Some p \<Longrightarrow> p < length t \<and> pagina (t ! p) = a"
    using trova_da_Some [OF _ t(1) h] t(4) by (simp add: oltre_trova_def)
  assume p: "p < length t \<and> pagina (t ! p) = a"
  then have c: "casa t p = oltre_casa (length t) a" by (simp add: casa_def)
  have "trova_da (length t) t a (oltre_casa (length t) a) = Some p"
    by (rule trova_da_presente [OF t(1-3) _ _ assms(2)]) (use p h c giro_dist_lt [of "oltre_casa (length t) a" "length t" p] in auto)
  then show "oltre_trova t a = Some p" using t(4) by (simp add: oltre_trova_def)
qed

section \<open>Adding\<close>

lemma libero_da_spec:
  assumes ok: "potenza t" and h: "h < length t" and e: "e < length t" "\<not> occ t e"
  shows "i < length t \<Longrightarrow> \<forall>z < length t. giro_dist (length t) h z < giro_dist (length t) h i \<longrightarrow> occ t z \<Longrightarrow>
    giro_dist (length t) h i \<le> giro_dist (length t) h e \<Longrightarrow> giro_dist (length t) h e - giro_dist (length t) h i < f \<Longrightarrow>
    libero_da f t i < length t \<and> \<not> occ t (libero_da f t i) \<and>
    (\<forall>z < length t. giro_dist (length t) h z < giro_dist (length t) h (libero_da f t i) \<longrightarrow> occ t z)"
proof (induction f arbitrary: i)
  case (Suc f)
  let ?d = "giro_dist (length t) h"
  show ?case
  proof (cases "occ t i")
    case True
    have nx: "prossimo t i < length t" "prossimo t i = (i + 1) mod length t" using prossimo_lt [OF ok] prossimo_mod [OF ok] by auto
    have ne: "?d i < ?d e" using Suc.prems(3) True e giro_dist_inj [OF h Suc.prems(1) e(1)] by force
    have "prossimo t i \<noteq> h"
    proof
      assume "prossimo t i = h"
      then have "?d i = length t - 1" using h Suc.prems(1) nx(2) by (cases "i + 1 = length t") (auto simp: giro_dist_def)
      then show False using ne giro_dist_lt [OF h e(1)] by linarith
    qed
    then have d: "?d (prossimo t i) = ?d i + 1" by (rule giro_dist_next [OF h Suc.prems(1) nx(2)])
    have "occ t z" if "z < length t" "?d z < ?d (prossimo t i)" for z
      using that Suc.prems(1,2) True d giro_dist_inj [OF h that(1) Suc.prems(1)] by (cases "?d z = ?d i") auto
    then have "libero_da f t (prossimo t i) < length t \<and> \<not> occ t (libero_da f t (prossimo t i)) \<and>
        (\<forall>z < length t. ?d z < ?d (libero_da f t (prossimo t i)) \<longrightarrow> occ t z)"
      using nx d ne Suc.prems(4) by (intro Suc.IH) auto
    then show ?thesis using True by (simp add: occ_def)
  next
    case False
    then show ?thesis using Suc.prems by (simp add: occ_def)
  qed
qed simp

lemma libero_spec:
  assumes "potenza t" "e < length t" "\<not> occ t e"
  shows "libero t a < length t" "\<not> occ t (libero t a)"
    "z < length t \<Longrightarrow> giro_dist (length t) (oltre_casa (length t) a) z < giro_dist (length t) (oltre_casa (length t) a) (libero t a) \<Longrightarrow> occ t z"
proof -
  have h: "oltre_casa (length t) a < length t" by (rule casa_lt [OF assms(1)])
  have "giro_dist (length t) (oltre_casa (length t) a) e < length t" by (rule giro_dist_lt [OF h assms(2)])
  then have r: "libero t a < length t \<and> \<not> occ t (libero t a) \<and>
    (\<forall>z < length t. giro_dist (length t) (oltre_casa (length t) a) z < giro_dist (length t) (oltre_casa (length t) a) (libero t a) \<longrightarrow> occ t z)"
    unfolding libero_def by (intro libero_da_spec [OF assms(1) h assms(2,3) h]) auto
  then show "libero t a < length t" "\<not> occ t (libero t a)"
    "z < length t \<Longrightarrow> giro_dist (length t) (oltre_casa (length t) a) z < giro_dist (length t) (oltre_casa (length t) a) (libero t a) \<Longrightarrow> occ t z"
    by auto
qed

lemma esiste_libero: "usati_di t < length t \<Longrightarrow> \<exists>e < length t. \<not> occ t e"
proof (rule ccontr)
  assume "usati_di t < length t" "\<not> (\<exists>e < length t. \<not> occ t e)"
  then have "{i. i < length t \<and> occ t i} = {..<length t}" by auto
  then show False using \<open>usati_di t < length t\<close> by (simp add: usati_di_def)
qed

lemma inserisci:
  assumes ok: "tav_ok t" and a: "a \<noteq> 0" "\<And>i. i < length t \<Longrightarrow> pagina (t ! i) \<noteq> a" and r: "pagina r = a" "0 < in_piu r" "in_piu r < 2 ^ 32"
    and f: "f = libero t a"
  shows "potenza (t[f := r])" "unica (t[f := r])" "cammini (t[f := r])" "positivi (t[f := r])"
    "usati_di (t[f := r]) = usati_di t + 1" "peso (t[f := r]) = (peso t)(a := in_piu r)"
proof -
  have t: "potenza t" "unica t" "cammini t" "positivi t" using ok by (auto simp: tav_ok_def)
  obtain e where e: "e < length t" "\<not> occ t e" using esiste_libero ok by (auto simp: tav_ok_def)
  note l = libero_spec [OF t(1) e, where a = a, folded f]
  let ?t = "t[f := r]"
  have o: "occ ?t z \<longleftrightarrow> z = f \<or> occ t z" if "z < length t" for z using that r a(1) l(1) by (auto simp: occ_def nth_list_update)
  show "potenza ?t" using t(1) by (simp add: potenza_def)
  have pg: "pagina (?t ! i) = (if i = f then a else pagina (t ! i))" if "i < length t" for i
    using that r(1) by (simp add: nth_list_update)
  show u: "unica ?t" unfolding unica_def
  proof (intro allI impI)
    fix i j assume i: "i < length ?t" and j: "j < length ?t" and e: "occ ?t i \<and> pagina (?t ! i) = pagina (?t ! j)"
    have e': "(if i = f then a else pagina (t ! i)) = (if j = f then a else pagina (t ! j))" using e pg i j by simp
    consider "i = f \<and> j = f" | "i = f \<and> j \<noteq> f" | "i \<noteq> f \<and> j = f" | "i \<noteq> f \<and> j \<noteq> f" by blast
    then show "i = j"
    proof cases
      case 4
      then show ?thesis using unicaD [OF t(2), of i j] i j e' e o by simp
    qed (use e' a(2) [of i] a(2) [of j] i j in auto)
  qed
  show "cammini ?t" unfolding cammini_def
  proof (intro allI impI)
    fix p z assume p: "p < length ?t" "z < length ?t" and v: "occ ?t p \<and> sulla_via ?t p z"
    show "occ ?t z"
    proof (cases "p = f")
      case True
      then show ?thesis using v p l(1,3) r(1) o by (simp add: sulla_via_def casa_def)
    next
      case False
      then have n: "?t ! p = t ! p" by simp
      have "occ t p" "sulla_via t p z" using v unfolding occ_def sulla_via_def casa_def n length_list_update by blast+
      then have "occ t z" using camminiD [OF t(3), of p z] p by simp
      then show ?thesis using o [of z] p(2) by simp
    qed
  qed
  show "positivi ?t" unfolding positivi_def
  proof (intro allI impI)
    fix p assume "p < length ?t" "occ ?t p"
    then show "0 < in_piu (?t ! p) \<and> in_piu (?t ! p) < 2 ^ 32" using positiviD [OF t(4), of p] r(2,3) o [of p] by (cases "p = f") simp_all
  qed
  have "{i. i < length ?t \<and> occ ?t i} = insert f {i. i < length t \<and> occ t i}" using o l(1) by auto
  then show "usati_di ?t = usati_di t + 1" using l(2) by (simp add: usati_di_def)
  have "peso ?t a = in_piu r" using peso_slot [OF u, of f] l(1) r(1) a(1) by (simp add: occ_def)
  moreover have "peso ?t b = peso t b" if "b \<noteq> a" "b \<noteq> 0" for b
  proof (rule peso_cong [OF t(2) u that(2)])
    fix i assume i: "i < length t" "pagina (t ! i) = b"
    then have "i \<noteq> f" using l(2) that(2) by (auto simp: occ_def)
    then show "\<exists>j < length ?t. ?t ! j = t ! i" using i(1) by auto
  next
    fix j assume j: "j < length ?t" "pagina (?t ! j) = b"
    then have "j \<noteq> f" using that(1) r(1) by auto
    then show "\<exists>i < length t. t ! i = ?t ! j" using j(1) by auto
  qed
  moreover have "peso ?t 0 = peso t 0" by (simp add: peso_def)
  ultimately have "peso ?t b = ((peso t)(a := in_piu r)) b" for b using a(1) by (cases "b = a"; cases "b = 0") simp_all
  then show "peso ?t = (peso t)(a := in_piu r)" by (rule ext)
qed

end
