(* ===== verification/Oltre_Spec.thy ===== *)
theory Oltre_Spec
  imports Oltre
begin

text \<open>
  The table of references past the byte keeps its invariant when an entry is removed and the hole is closed, and when it
  grows; adding and removing implement increment and decrement of the map the table stands for.
\<close>

section \<open>Closing the hole\<close>

text \<open>The loop's invariant: \<open>x\<close> is the hole, \<open>y\<close> the slot looked at, \<open>e\<close> the first free slot after the first hole \<open>i\<close>.
  Every way is free of holes but for \<open>x\<close>, and no entry already looked at has \<open>x\<close> on its way.\<close>

definition buco_ok :: "tavola \<Rightarrow> nat \<Rightarrow> nat \<Rightarrow> nat \<Rightarrow> nat \<Rightarrow> bool" where
  "buco_ok t i e x y \<longleftrightarrow> potenza t \<and> unica t \<and> positivi t \<and>
     (i < length t \<and> e < length t \<and> x < length t \<and> y < length t) \<and> \<not> occ t x \<and> \<not> occ t e \<and>
     giro_dist (length t) i x < giro_dist (length t) i y \<and> giro_dist (length t) i y \<le> giro_dist (length t) i e \<and>
     (\<forall>z < length t. giro_dist (length t) i y \<le> giro_dist (length t) i z \<and> giro_dist (length t) i z < giro_dist (length t) i e \<longrightarrow> occ t z) \<and>
     (\<forall>p < length t. \<forall>z < length t. occ t p \<and> sulla_via t p z \<longrightarrow> occ t z \<or> z = x) \<and>
     (\<forall>p < length t. occ t p \<and> giro_dist (length t) i x < giro_dist (length t) i p \<and> giro_dist (length t) i p < giro_dist (length t) i y \<longrightarrow> \<not> sulla_via t p x)"

lemma buco_okD:
  assumes "buco_ok t i e x y"
  shows "potenza t" "unica t" "positivi t" "i < length t" "e < length t" "x < length t" "y < length t" "\<not> occ t x" "\<not> occ t e"
    "giro_dist (length t) i x < giro_dist (length t) i y" "giro_dist (length t) i y \<le> giro_dist (length t) i e"
  using assms unfolding buco_ok_def by blast+

lemma buco_tra:
  "buco_ok t i e x y \<Longrightarrow> z < length t \<Longrightarrow> giro_dist (length t) i y \<le> giro_dist (length t) i z \<Longrightarrow>
    giro_dist (length t) i z < giro_dist (length t) i e \<Longrightarrow> occ t z"
  unfolding buco_ok_def by blast

lemma buco_via: "buco_ok t i e x y \<Longrightarrow> p < length t \<Longrightarrow> z < length t \<Longrightarrow> occ t p \<Longrightarrow> sulla_via t p z \<Longrightarrow> occ t z \<or> z = x"
  unfolding buco_ok_def by blast

lemma buco_visti:
  "buco_ok t i e x y \<Longrightarrow> p < length t \<Longrightarrow> occ t p \<Longrightarrow> giro_dist (length t) i x < giro_dist (length t) i p \<Longrightarrow>
    giro_dist (length t) i p < giro_dist (length t) i y \<Longrightarrow> \<not> sulla_via t p x"
  unfolding buco_ok_def by blast

lemma buco_fine:
  assumes b: "buco_ok t i e x e"
  shows "cammini t"
  unfolding cammini_def
proof (intro allI impI)
  note d = buco_okD [OF b]
  fix p z assume p: "p < length t" "z < length t" and v: "occ t p \<and> sulla_via t p z"
  have "z \<noteq> x"
  proof
    assume "z = x"
    then have sx: "sulla_via t p x" using v by simp
    have ex: "e \<noteq> x" using d(10) by auto
    then have "\<not> sulla_via t p e" using buco_via [OF b p(1) d(5)] v d(9) by blast
    moreover have "casa t p < length t" using casa_lt [OF d(1)] by (simp add: casa_def)
    moreover have "e \<noteq> p" using v d(9) by blast
    ultimately have "giro_dist (length t) i x < giro_dist (length t) i p \<and> giro_dist (length t) i p < giro_dist (length t) i e"
      using sx ex d(4-6,10) p(1) by (intro tra_buco_e_fine [of "casa t p"]) (auto simp: sulla_via_def)
    then show False using buco_visti [OF b p(1)] v sx by blast
  qed
  then show "occ t z" using buco_via [OF b p] v by blast
qed

lemma buco_prossimo:
  assumes b: "buco_ok t i e x y" and y: "occ t y"
  shows "prossimo t y < length t" "giro_dist (length t) i (prossimo t y) = giro_dist (length t) i y + 1"
    "giro_dist (length t) i y < giro_dist (length t) i e"
proof -
  note d = buco_okD [OF b]
  show lt: "giro_dist (length t) i y < giro_dist (length t) i e"
    using d(9,11) y giro_dist_inj [OF d(4,7,5)] by (cases "giro_dist (length t) i y = giro_dist (length t) i e") auto
  show "prossimo t y < length t" by (rule prossimo_lt [OF d(1)])
  have m: "prossimo t y = (y + 1) mod length t" by (rule prossimo_mod [OF d(1)])
  have "prossimo t y \<noteq> i"
  proof
    assume "prossimo t y = i"
    then have "giro_dist (length t) i y = length t - 1" using d(4,7) m by (cases "y + 1 = length t") (auto simp: giro_dist_def)
    then show False using lt giro_dist_lt [OF d(4,5)] by linarith
  qed
  then show "giro_dist (length t) i (prossimo t y) = giro_dist (length t) i y + 1" by (rule giro_dist_next [OF d(4,7) m])
qed

lemma buco_resta:
  assumes b: "buco_ok t i e x y" and y: "occ t y" "\<not> sulla_via t y x"
  shows "buco_ok t i e x (prossimo t y)"
proof -
  note d = buco_okD [OF b] and n = buco_prossimo [OF b y(1)]
  have v: "\<not> sulla_via t p x" if p: "p < length t" "occ t p" "giro_dist (length t) i x < giro_dist (length t) i p"
      "giro_dist (length t) i p < giro_dist (length t) i (prossimo t y)" for p
  proof (cases "p = y")
    case False
    then have "giro_dist (length t) i p \<noteq> giro_dist (length t) i y" using giro_dist_inj [OF d(4) p(1) d(7)] by blast
    then show ?thesis using buco_visti [OF b p(1-3)] p(4) n(2) by simp
  qed (use y in simp)
  have tr: "occ t z" if "z < length t" "giro_dist (length t) i (prossimo t y) \<le> giro_dist (length t) i z"
      "giro_dist (length t) i z < giro_dist (length t) i e" for z
    using buco_tra [OF b that(1) _ that(3)] that(2) n(2) by simp
  show ?thesis unfolding buco_ok_def using d(1-9) d(10) n v tr buco_via [OF b] by (intro conjI allI impI) simp_all
qed

text \<open>Moving the entry of \<open>y\<close> into the hole \<open>x\<close>.\<close>

definition sposta :: "tavola \<Rightarrow> nat \<Rightarrow> nat \<Rightarrow> tavola" where
  "sposta t x y = t[x := t ! y, y := vuota]"

lemma length_sposta [simp]: "length (sposta t x y) = length t"
  by (simp add: sposta_def)

lemma sposta_nth: "x < length t \<Longrightarrow> y < length t \<Longrightarrow> x \<noteq> y \<Longrightarrow> sposta t x y ! z = (if z = y then vuota else if z = x then t ! y else t ! z)"
  by (simp add: sposta_def nth_list_update)

text \<open>The hole and the entry are told apart by \<open>buca\<close>.\<close>

definition buca :: "tavola \<Rightarrow> nat \<Rightarrow> nat \<Rightarrow> bool" where
  "buca t x y \<longleftrightarrow> x < length t \<and> y < length t \<and> \<not> occ t x \<and> occ t y"

lemma sposta_val: "buca t x y \<Longrightarrow> sposta t x y ! z = (if z = y then vuota else if z = x then t ! y else t ! z)"
  by (rule sposta_nth) (auto simp: buca_def)

lemma sposta_occ: "buca t x y \<Longrightarrow> occ (sposta t x y) z \<longleftrightarrow> z = x \<or> occ t z \<and> z \<noteq> y"
  by (auto simp: occ_def sposta_val) (auto simp: buca_def occ_def)

text \<open>Where the entry of a slot was before.\<close>

definition prima :: "nat \<Rightarrow> nat \<Rightarrow> nat \<Rightarrow> nat" where
  "prima x y z = (if z = x then y else z)"

lemma sposta_prima: "buca t x y \<Longrightarrow> occ (sposta t x y) z \<Longrightarrow> sposta t x y ! z = t ! prima x y z \<and> occ t (prima x y z)"
  by (auto simp: sposta_occ sposta_val prima_def) (auto simp: buca_def)

lemma sposta_unica:
  assumes b: "buca t x y" and u: "unica t"
  shows "unica (sposta t x y)"
  unfolding unica_def
proof (intro allI impI)
  fix i j assume i: "i < length (sposta t x y)" and j: "j < length (sposta t x y)"
    and e: "occ (sposta t x y) i \<and> pagina (sposta t x y ! i) = pagina (sposta t x y ! j)"
  then have oj: "occ (sposta t x y) j" by (simp add: occ_def)
  note a = sposta_prima [OF b, of i] sposta_prima [OF b, of j]
  have "prima x y i < length t" "prima x y j < length t" using i j b by (auto simp: prima_def buca_def)
  then have "prima x y i = prima x y j" using unicaD [OF u, of "prima x y i" "prima x y j"] a e oj by simp
  then show "i = j" using sposta_occ [OF b] e oj b by (auto simp: prima_def buca_def split: if_splits)
qed

lemma sposta_positivi:
  assumes b: "buca t x y" and u: "positivi t"
  shows "positivi (sposta t x y)"
  unfolding positivi_def
proof (intro allI impI)
  fix i assume i: "i < length (sposta t x y)" "occ (sposta t x y) i"
  have "prima x y i < length t" using i b by (auto simp: prima_def buca_def)
  then show "0 < in_piu (sposta t x y ! i) \<and> in_piu (sposta t x y ! i) < 2 ^ 32"
    using positiviD [OF u, of "prima x y i"] sposta_prima [OF b i(2)] by simp
qed

lemma sposta_peso:
  assumes b: "buca t x y" and u: "unica t"
  shows "peso (sposta t x y) = peso t"
proof (rule ext, rule peso_cong' [OF u sposta_unica [OF b u]])
  fix a i :: nat assume a: "a \<noteq> 0" and i: "i < length t" "pagina (t ! i) = a"
  then have "i \<noteq> x" using b a by (auto simp: buca_def occ_def)
  then show "\<exists>j < length (sposta t x y). sposta t x y ! j = t ! i"
    using i b sposta_val [OF b, of x] sposta_val [OF b, of i] by (cases "i = y") (auto simp: buca_def)
next
  fix a j :: nat assume a: "a \<noteq> 0" and j: "j < length (sposta t x y)" "pagina (sposta t x y ! j) = a"
  then have "occ (sposta t x y) j" using a by (simp add: occ_def)
  then have "sposta t x y ! j = t ! prima x y j" using sposta_prima [OF b] by simp
  moreover have "prima x y j < length t" using j b by (auto simp: prima_def buca_def)
  ultimately show "\<exists>i < length t. t ! i = sposta t x y ! j" by metis
qed

lemma sposta_usati:
  assumes b: "buca t x y"
  shows "usati_di (sposta t x y) = usati_di t"
proof -
  let ?S = "{i. i < length t \<and> occ t i}"
  have "{i. i < length (sposta t x y) \<and> occ (sposta t x y) i} = insert x (?S - {y})"
    using b by (auto simp: sposta_occ [OF b]) (auto simp: buca_def)
  moreover have S: "y \<in> ?S" "x \<notin> ?S - {y}" "finite ?S" using b by (auto simp: buca_def)
  then have "card (insert x (?S - {y})) = card ?S" using card_Suc_Diff1 [OF S(3,1)] card_insert_disjoint [OF _ S(2)] by simp
  ultimately show ?thesis by (simp add: usati_di_def)
qed

lemma sposta_via:
  assumes b: "buca t x y" and o: "occ (sposta t x y) p" "p \<noteq> x"
  shows "sulla_via (sposta t x y) p z \<longleftrightarrow> sulla_via t p z"
  using sposta_prima [OF b o(1)] o(2) by (simp add: sulla_via_def casa_def prima_def)

lemma buco_sposta:
  assumes b: "buco_ok t i e x y" and y: "occ t y" "sulla_via t y x"
  shows "buco_ok (sposta t x y) i e y (prossimo t y)"
proof -
  note d = buco_okD [OF b] and n = buco_prossimo [OF b y(1)]
  have bu: "buca t x y" using d y by (simp add: buca_def)
  note o = sposta_occ [OF bu]
  have via: "occ (sposta t x y) z \<or> z = y" if p: "p < length t" "z < length t" "occ (sposta t x y) p" "sulla_via (sposta t x y) p z" for p z
  proof (cases "p = x")
    case True
    have "casa (sposta t x y) x = casa t y" using sposta_val [OF bu, of x] y d by (auto simp: casa_def)
    then have "giro_dist (length t) (casa t y) z < giro_dist (length t) (casa t y) x" using p(4) True by (simp add: sulla_via_def)
    then have "sulla_via t y z" "z \<noteq> x" using y(2) by (auto simp: sulla_via_def)
    then show ?thesis using buco_via [OF b d(7) p(2) y(1)] o by blast
  next
    case False
    then have "occ t p" "sulla_via t p z" using p(3,4) o sposta_via [OF bu p(3) False] by auto
    then show ?thesis using buco_via [OF b p(1,2)] o by blast
  qed
  have "e \<noteq> x" using d(10,11) by auto
  then have e: "\<not> occ (sposta t x y) e" using o d(9) by simp
  have tr: "occ (sposta t x y) z" if "z < length t" "giro_dist (length t) i (prossimo t y) \<le> giro_dist (length t) i z"
      "giro_dist (length t) i z < giro_dist (length t) i e" for z
  proof -
    have "z \<noteq> y" using that(2) n(2) by auto
    moreover have "occ t z" using buco_tra [OF b that(1) _ that(3)] that(2) n(2) by simp
    ultimately show ?thesis using o by simp
  qed
  have oy: "\<not> occ (sposta t x y) y" using o [of y] d(8) y(1) by auto
  have "potenza (sposta t x y)" using d(1) by (simp add: potenza_def)
  then show ?thesis unfolding buco_ok_def length_sposta
    using d(4-7) n e tr via oy sposta_unica [OF bu d(2)] sposta_positivi [OF bu d(3)] by (intro conjI allI impI) simp_all
qed

lemma chiudi_buco_ok:
  assumes "buco_ok t i e x y" "giro_dist (length t) i e - giro_dist (length t) i y < f"
  shows "length (chiudi_buco f t x y) = length t \<and> unica (chiudi_buco f t x y) \<and> cammini (chiudi_buco f t x y) \<and>
    positivi (chiudi_buco f t x y) \<and> usati_di (chiudi_buco f t x y) = usati_di t \<and> peso (chiudi_buco f t x y) = peso t"
  using assms
proof (induction f arbitrary: t x y)
  case (Suc f)
  note b = Suc.prems(1) note d = buco_okD [OF b]
  show ?case
  proof (cases "occ t y")
    case False
    then have "\<not> giro_dist (length t) i y < giro_dist (length t) i e" using buco_tra [OF b d(7)] by blast
    then have "y = e" using d(11) giro_dist_inj [OF d(4,7,5)] by simp
    then show ?thesis using b d(2,3) False buco_fine by (simp add: occ_def)
  next
    case True
    note n = buco_prossimo [OF b True]
    have xy: "x \<noteq> y" using d(10) by auto
    have bu: "buca t x y" using d True by (simp add: buca_def)
    have sv: "sul_cammino x y (oltre_casa (length t) (pagina (t ! y))) \<longleftrightarrow> sulla_via t y x"
      using sul_cammino_dist [OF d(6,7) _ xy] casa_lt [OF d(1)] by (simp add: sulla_via_def casa_def)
    show ?thesis
    proof (cases "sulla_via t y x")
      case True2: True
      show ?thesis using Suc.IH [OF buco_sposta [OF b True True2]] Suc.prems(2) n sv True True2
          sposta_usati [OF bu] sposta_peso [OF bu d(2)] by (simp add: occ_def flip: sposta_def)
    next
      case False
      show ?thesis using Suc.IH [OF buco_resta [OF b True False]] Suc.prems(2) n sv True False by (simp add: occ_def)
    qed
  qed
qed simp

section \<open>Removing an entry\<close>

lemma primo_libero:
  assumes "e < length t" "\<not> occ t e"
  obtains e' where "e' < length t" "\<not> occ t e'" "\<And>z. z < length t \<Longrightarrow> giro_dist (length t) i z < giro_dist (length t) i e' \<Longrightarrow> occ t z"
proof -
  obtain e' where e': "e' < length t \<and> \<not> occ t e'"
      and m: "\<And>z. z < length t \<and> \<not> occ t z \<Longrightarrow> giro_dist (length t) i e' \<le> giro_dist (length t) i z"
    using ex_has_least_nat [of "\<lambda>z. z < length t \<and> \<not> occ t z" e "giro_dist (length t) i"] assms by blast
  then show ?thesis using that [of e'] by (meson not_le)
qed

text \<open>The table with slot \<open>i\<close> emptied.\<close>

definition svuota :: "tavola \<Rightarrow> nat \<Rightarrow> rif_oltre \<Rightarrow> bool" where
  "svuota t i r \<longleftrightarrow> tav_ok t \<and> i < length t \<and> occ t i \<and> pagina r = 0"

lemma svuota_occ: "svuota t i r \<Longrightarrow> occ (t[i := r]) z \<longleftrightarrow> z \<noteq> i \<and> occ t z"
  by (cases "z = i") (auto simp: svuota_def occ_def)

lemma svuota_unica:
  assumes s: "svuota t i r"
  shows "unica (t[i := r])"
  unfolding unica_def
proof (intro allI impI)
  fix a b assume l: "a < length (t[i := r])" "b < length (t[i := r])"
    and e: "occ (t[i := r]) a \<and> pagina (t[i := r] ! a) = pagina (t[i := r] ! b)"
  then have "occ (t[i := r]) b" by (simp add: occ_def)
  then have n: "a \<noteq> i" "b \<noteq> i" "occ t a" using svuota_occ [OF s] e by auto
  have "unica t" using s by (simp add: svuota_def tav_ok_def)
  then show "a = b" by (rule unicaD) (use l e n in simp_all)
qed

lemma svuota_positivi:
  assumes s: "svuota t i r"
  shows "positivi (t[i := r])"
  unfolding positivi_def
proof (intro allI impI)
  fix p assume p: "p < length (t[i := r])" "occ (t[i := r]) p"
  have "positivi t" using s by (simp add: svuota_def tav_ok_def)
  then have "0 < in_piu (t ! p) \<and> in_piu (t ! p) < 2 ^ 32" by (rule positiviD) (use p svuota_occ [OF s] in simp_all)
  then show "0 < in_piu (t[i := r] ! p) \<and> in_piu (t[i := r] ! p) < 2 ^ 32" using svuota_occ [OF s] p(2) by simp
qed

lemma svuota_peso:
  assumes s: "svuota t i r"
  shows "peso (t[i := r]) = (peso t)(pagina (t ! i) := 0)"
proof
  fix b
  have u: "unica t" and i: "i < length t" "occ t i" and r: "pagina r = 0" using s by (auto simp: svuota_def tav_ok_def)
  show "peso (t[i := r]) b = ((peso t)(pagina (t ! i) := 0)) b"
  proof (cases "b = pagina (t ! i)")
    case True
    have "pagina (t[i := r] ! j) \<noteq> b" if j: "j < length (t[i := r])" for j
    proof (cases "j = i")
      case False
      then show ?thesis using unicaD [OF u i(1) _ i(2), of j] j True by auto
    qed (use True i r in \<open>auto simp: occ_def\<close>)
    then have "peso (t[i := r]) b = 0" by (rule peso_assente)
    then show ?thesis using True by simp
  next
    case False
    have "peso (t[i := r]) b = peso t b"
    proof (rule peso_cong' [OF u svuota_unica [OF s]])
      fix k assume k: "k < length t" "pagina (t ! k) = b"
      then have "k \<noteq> i" using False by auto
      then show "\<exists>j < length (t[i := r]). t[i := r] ! j = t ! k" using k(1) by auto
    next
      fix k assume b: "b \<noteq> 0" and k: "k < length (t[i := r])" "pagina (t[i := r] ! k) = b"
      then have "k \<noteq> i" using r i(1) by auto
      then show "\<exists>j < length t. t ! j = t[i := r] ! k" using k(1) by auto
    qed
    then show ?thesis using False by simp
  qed
qed

lemma svuota_usati:
  assumes s: "svuota t i r"
  shows "usati_di t = Suc (usati_di (t[i := r]))"
proof -
  let ?S = "{j. j < length t \<and> occ t j}"
  have "{j. j < length (t[i := r]) \<and> occ (t[i := r]) j} = ?S - {i}" using svuota_occ [OF s] by auto
  moreover have "i \<in> ?S" "finite ?S" using s by (auto simp: svuota_def)
  ultimately show ?thesis using card_Suc_Diff1 [of ?S i] by (simp add: usati_di_def)
qed

lemma svuota_buco:
  assumes s: "svuota t i r"
  obtains e where "buco_ok (t[i := r]) i e i (prossimo t i)"
proof -
  have t: "potenza t" "cammini t" "usati_di t < length t" and i: "i < length t" "occ t i"
    using s by (auto simp: svuota_def tav_ok_def)
  obtain e where e: "e < length t" "\<not> occ t e"
      and m: "\<And>z. z < length t \<Longrightarrow> giro_dist (length t) i z < giro_dist (length t) i e \<Longrightarrow> occ t z"
    using esiste_libero [OF t(3)] primo_libero by metis
  have nx: "prossimo t i < length t" "prossimo t i = (i + 1) mod length t" using prossimo_lt [OF t(1)] prossimo_mod [OF t(1)] by auto
  have ei: "e \<noteq> i" using e i by auto
  have "prossimo t i \<noteq> i" using ei i e nx(2) by (cases "i + 1 = length t") auto
  then have d: "giro_dist (length t) i (prossimo t i) = 1" using giro_dist_next [OF i(1,1) nx(2)] by simp
  have de: "0 < giro_dist (length t) i e" using giro_dist_inj [OF i(1) e(1) i(1)] ei by auto
  note o = svuota_occ [OF s]
  have via: "occ (t[i := r]) z \<or> z = i" if p: "p < length t" "z < length t" "occ (t[i := r]) p" "sulla_via (t[i := r]) p z" for p z
  proof -
    have "occ t p" "p \<noteq> i" using o p(3) by auto
    moreover have "sulla_via t p z" using p(4) \<open>p \<noteq> i\<close> by (simp add: sulla_via_def casa_def)
    ultimately have "occ t z" using camminiD [OF t(2) p(1,2)] by simp
    then show ?thesis using o by simp
  qed
  have tr: "occ (t[i := r]) z" if "z < length t" "1 \<le> giro_dist (length t) i z" "giro_dist (length t) i z < giro_dist (length t) i e" for z
  proof -
    have "z \<noteq> i" using that(2) by auto
    then show ?thesis using m [OF that(1,3)] o by simp
  qed
  have p: "potenza (t[i := r])" using t(1) by (simp add: potenza_def)
  have "buco_ok (t[i := r]) i e i (prossimo t i)"
    unfolding buco_ok_def length_list_update d giro_dist_self
    using p svuota_unica [OF s] svuota_positivi [OF s] i(1) e nx(1) de o via tr by (intro conjI allI impI) simp_all
  then show ?thesis by (rule that)
qed

lemma rimuovi:
  assumes s: "svuota t i r"
  defines "t' \<equiv> chiudi_buco (length t) (t[i := r]) i (prossimo t i)"
  shows "tav_ok t'" "length t' = length t" "usati_di t = Suc (usati_di t')" "peso t' = (peso t)(pagina (t ! i) := 0)"
proof -
  obtain e where b: "buco_ok (t[i := r]) i e i (prossimo t i)" by (rule svuota_buco [OF s])
  note d = buco_okD [OF b]
  have "giro_dist (length t) i e < length t" using giro_dist_lt d(4,5) by simp
  then have f: "giro_dist (length (t[i := r])) i e - giro_dist (length (t[i := r])) i (prossimo t i) < length t" by simp
  note c = chiudi_buco_ok [OF b f, folded t'_def]
  have u: "usati_di t = Suc (usati_di (t[i := r]))" by (rule svuota_usati [OF s])
  show "length t' = length t" "usati_di t = Suc (usati_di t')" "peso t' = (peso t)(pagina (t ! i) := 0)"
    using c u svuota_peso [OF s] by simp_all
  have "potenza t" "usati_di t < length t" using s by (auto simp: svuota_def tav_ok_def)
  then show "tav_ok t'" using c u by (simp add: tav_ok_def potenza_def)
qed

section \<open>Changing a count\<close>

lemma stesse_pagine:
  assumes "length t' = length t" "\<And>i. i < length t \<Longrightarrow> pagina (t' ! i) = pagina (t ! i)" and ok: "tav_ok t" and p: "positivi t'"
  shows "tav_ok t'" "usati_di t' = usati_di t"
proof -
  have o: "i < length t \<Longrightarrow> occ t' i = occ t i" for i using assms(2) by (simp add: occ_def)
  then have "{i. i < length t' \<and> occ t' i} = {i. i < length t \<and> occ t i}" using assms(1) by auto
  then show u: "usati_di t' = usati_di t" by (simp add: usati_di_def)
  have t: "potenza t" "unica t" "cammini t" "usati_di t < length t" using ok by (auto simp: tav_ok_def)
  have "i = j" if "i < length t" "j < length t" "occ t' i" "pagina (t' ! i) = pagina (t' ! j)" for i j
    by (rule unicaD [OF t(2) that(1,2)]) (use that o assms(2) in simp_all)
  then have "unica t'" unfolding unica_def assms(1) by blast
  moreover have "sulla_via t' p z = sulla_via t p z" if "p < length t" for p z
    using that assms(1,2) by (simp add: sulla_via_def casa_def)
  then have "occ t' z" if "p < length t" "z < length t" "occ t' p" "sulla_via t' p z" for p z
    using camminiD [OF t(3) that(1,2)] that o by simp
  then have "cammini t'" unfolding cammini_def assms(1) by blast
  ultimately show "tav_ok t'" using t(1,4) u p assms(1) by (simp add: tav_ok_def potenza_def)
qed

lemma cambia_conto:
  assumes ok: "tav_ok t" and i: "i < length t" "occ t i" and c: "0 < c" "c < 2 ^ 32"
  defines "t' \<equiv> t[i := (t ! i)\<lparr>in_piu := c\<rparr>]"
  shows "tav_ok t'" "usati_di t' = usati_di t" "peso t' = (peso t)(pagina (t ! i) := c)"
proof -
  have n: "t' ! j = (if j = i then (t ! i)\<lparr>in_piu := c\<rparr> else t ! j)" for j
    using i by (cases "j = i") (simp_all add: t'_def)
  have l: "length t' = length t" by (simp add: t'_def)
  have t: "unica t" "positivi t" using ok by (auto simp: tav_ok_def)
  have o: "occ t' j = occ t j" for j by (simp add: occ_def n)
  have p: "positivi t'" unfolding positivi_def using positiviD [OF t(2)] c l o by (simp add: n)
  show ok': "tav_ok t'" "usati_di t' = usati_di t" using stesse_pagine [OF l _ ok p] by (simp_all add: n)
  then have u: "unica t'" by (simp add: tav_ok_def)
  show "peso t' = (peso t)(pagina (t ! i) := c)"
  proof
    fix b show "peso t' b = ((peso t)(pagina (t ! i) := c)) b"
    proof (cases "b = pagina (t ! i)")
      case True
      then show ?thesis using peso_slot [OF u, of i] i l o by (simp add: n)
    next
      case False
      have "peso t' b = peso t b"
      proof (rule peso_cong' [OF t(1) u])
        fix k assume k: "k < length t" "pagina (t ! k) = b"
        then have "k \<noteq> i" using False by auto
        then show "\<exists>j < length t'. t' ! j = t ! k" using k(1) l n [of k] by auto
      next
        fix k assume k: "k < length t'" "pagina (t' ! k) = b"
        then have "k \<noteq> i" using False n [of k] by auto
        then show "\<exists>j < length t. t ! j = t' ! k" using k(1) l n [of k] by auto
      qed
      then show ?thesis using False by simp
    qed
  qed
qed

section \<open>Growing\<close>

lemma inserisci_ok:
  assumes ok: "tav_ok n" and a: "pagina r \<noteq> 0" "pagina r \<notin> pagina ` set n" and r: "0 < in_piu r" "in_piu r < 2 ^ 32"
    and u: "Suc (usati_di n) < length n"
  defines "n' \<equiv> n[libero n (pagina r) := r]"
  shows "tav_ok n'" "usati_di n' = Suc (usati_di n)" "peso n' = (peso n)(pagina r := in_piu r)"
    "pagina ` set n' \<subseteq> insert (pagina r) (pagina ` set n)"
proof -
  have ab: "pagina (n ! i) \<noteq> pagina r" if "i < length n" for i
  proof
    assume "pagina (n ! i) = pagina r"
    then have "pagina r \<in> pagina ` set n" using nth_mem [OF that] by (metis imageI)
    then show False using a(2) by contradiction
  qed
  note i = inserisci [OF ok a(1) ab refl r refl, folded n'_def]
  show "usati_di n' = Suc (usati_di n)" "peso n' = (peso n)(pagina r := in_piu r)" using i(5,6) by simp_all
  then show "tav_ok n'" using i(1-4) u by (simp add: tav_ok_def n'_def)
  show "pagina ` set n' \<subseteq> insert (pagina r) (pagina ` set n)"
    unfolding n'_def using set_update_subset_insert [of n "libero n (pagina r)" r] by auto
qed

definition reinserisci :: "rif_oltre \<Rightarrow> tavola \<Rightarrow> tavola" where
  "reinserisci r n = (if pagina r \<noteq> 0 then n[libero n (pagina r) := r] else n)"

text \<open>The old entries not yet put in: distinct, positive and absent from the new table.\<close>

definition da_mettere :: "rif_oltre list \<Rightarrow> tavola \<Rightarrow> bool" where
  "da_mettere rs n \<longleftrightarrow> distinct (map pagina (filter (\<lambda>r. pagina r \<noteq> 0) rs)) \<and>
     (\<forall>r \<in> set rs. pagina r \<noteq> 0 \<longrightarrow> pagina r \<notin> pagina ` set n \<and> 0 < in_piu r \<and> in_piu r < 2 ^ 32)"

lemma peso_Cons: "peso (r # rs) b = (if b = 0 then 0 else if pagina r = b then in_piu r else peso rs b)"
  by (simp add: peso_def)

lemma peso_zero [simp]: "peso t 0 = 0"
  by (simp add: peso_def)

lemma reinserisci_fold:
  assumes "tav_ok n" "da_mettere rs n" "usati_di n + length (filter (\<lambda>r. pagina r \<noteq> 0) rs) < length n"
  shows "tav_ok (fold reinserisci rs n) \<and> length (fold reinserisci rs n) = length n \<and>
    usati_di (fold reinserisci rs n) = usati_di n + length (filter (\<lambda>r. pagina r \<noteq> 0) rs) \<and>
    peso (fold reinserisci rs n) = (\<lambda>b. if b \<noteq> 0 \<and> b \<in> pagina ` set rs then peso rs b else peso n b)"
  using assms
proof (induction rs arbitrary: n)
  case (Cons r rs)
  show ?case
  proof (cases "pagina r = 0")
    case True
    then have "da_mettere rs n" using Cons.prems(2) by (simp add: da_mettere_def)
    from Cons.IH [OF Cons.prems(1) this] show ?thesis using Cons.prems(3) True
      by (auto simp: reinserisci_def [of r] peso_Cons fun_eq_iff)
  next
    case False
    have r: "pagina r \<notin> pagina ` set n" "0 < in_piu r" "in_piu r < 2 ^ 32" using Cons.prems(2) False by (auto simp: da_mettere_def)
    have "Suc (usati_di n) < length n" using Cons.prems(3) False by simp
    note i = inserisci_ok [OF Cons.prems(1) False r this]
    let ?n = "n[libero n (pagina r) := r]"
    have nr: "pagina r \<notin> pagina ` set rs" using Cons.prems(2) False by (auto simp: da_mettere_def)
    have "pagina q \<notin> pagina ` set ?n" if "q \<in> set rs" "pagina q \<noteq> 0" for q
    proof -
      have "pagina q \<notin> pagina ` set n" using Cons.prems(2) that by (simp add: da_mettere_def)
      moreover have "pagina q \<noteq> pagina r" using nr that(1) by (metis imageI)
      ultimately show ?thesis using i(4) by blast
    qed
    then have d: "da_mettere rs ?n" using Cons.prems(2) False by (simp add: da_mettere_def)
    have "usati_di ?n + length (filter (\<lambda>r. pagina r \<noteq> 0) rs) < length ?n" using Cons.prems(3) False i(2) by simp
    from Cons.IH [OF i(1) d this] show ?thesis using i(2,3) False nr
      by (auto simp: reinserisci_def [of r] peso_Cons fun_eq_iff)
  qed
qed simp

lemma unica_Cons: "unica (r # t) \<Longrightarrow> unica t \<and> (pagina r \<noteq> 0 \<longrightarrow> pagina r \<notin> pagina ` set t)"
proof (intro conjI impI)
  assume u: "unica (r # t)"
  have "i = j" if "i < length t" "j < length t" "occ t i" "pagina (t ! i) = pagina (t ! j)" for i j
    using unicaD [OF u, of "Suc i" "Suc j"] that by (simp add: occ_def)
  then show "unica t" unfolding unica_def by blast
  assume r: "pagina r \<noteq> 0"
  show "pagina r \<notin> pagina ` set t"
  proof
    assume "pagina r \<in> pagina ` set t"
    then obtain j where "j < length t" "pagina (t ! j) = pagina r" by (auto simp: in_set_conv_nth)
    then show False using unicaD [OF u, of 0 "Suc j"] r by (simp add: occ_def)
  qed
qed

lemma unica_distinct: "unica t \<Longrightarrow> distinct (map pagina (filter (\<lambda>r. pagina r \<noteq> 0) t))"
proof (induction t)
  case (Cons r t)
  then show ?case using unica_Cons [OF Cons.prems] by auto
qed simp

lemma usati_filter: "usati_di t = length (filter (\<lambda>r. pagina r \<noteq> 0) t)"
  by (simp add: usati_di_def occ_def length_filter_conv_card)

lemma tavola_vuota: "tav_ok (replicate (2 ^ k) vuota)" "usati_di (replicate n vuota) = 0" "peso (replicate n vuota) = (\<lambda>_. 0)"
proof -
  have o: "i < n \<Longrightarrow> \<not> occ (replicate n vuota) i" for i n by (simp add: occ_def)
  show u: "usati_di (replicate n vuota) = 0" for n by (simp add: usati_filter)
  have "unica (replicate n vuota)" "cammini (replicate n vuota)" "positivi (replicate n vuota)" for n
    unfolding unica_def cammini_def positivi_def using o by auto
  then show "tav_ok (replicate (2 ^ k) vuota)" using u by (simp add: tav_ok_def potenza_def)
  have "peso (replicate n vuota) a = 0" if "a \<noteq> 0" for a by (rule peso_assente) (use that in simp)
  then have "peso (replicate n vuota) a = 0" for a by (cases "a = 0") simp_all
  then show "peso (replicate n vuota) = (\<lambda>_. 0)" by (rule ext)
qed

text \<open>The state of the table: not yet allocated, or at most half full.\<close>

definition oltre_ok :: "tavola \<times> nat \<Rightarrow> bool" where
  "oltre_ok = (\<lambda>(t, u). u = usati_di t \<and> 2 * u \<le> length t \<and> (t = [] \<or> tav_ok t))"

lemma da_mettere_vuota:
  assumes "tav_ok t"
  shows "da_mettere t (replicate n vuota)"
proof -
  have t: "unica t" "positivi t" using assms by (auto simp: tav_ok_def)
  have "0 < in_piu r \<and> in_piu r < 2 ^ 32" if "r \<in> set t" "pagina r \<noteq> 0" for r
    using that positiviD [OF t(2)] by (auto simp: in_set_conv_nth occ_def)
  then show ?thesis using unica_distinct [OF t(1)] by (auto simp: da_mettere_def)
qed

lemma peso_presente:
  assumes "t = [] \<or> tav_ok t" "a \<noteq> 0"
  shows "0 < peso t a \<longleftrightarrow> a \<in> pagina ` set t"
proof
  show "0 < peso t a \<Longrightarrow> a \<in> pagina ` set t" using peso_assente [of t a] nth_mem by fastforce
  assume "a \<in> pagina ` set t"
  then obtain i where i: "i < length t" "pagina (t ! i) = a" by (auto simp: in_set_conv_nth)
  then have "unica t" "positivi t" "occ t i" using assms by (auto simp: tav_ok_def occ_def)
  then show "0 < peso t a" using peso_slot [of t i] positiviD [of t i] i by simp
qed

lemma oltre_cresci_ok:
  assumes ok: "oltre_ok (t, u)" and c: "oltre_cresci mem t = Some t'"
  shows "tav_ok t'" "usati_di t' = u" "peso t' = peso t" "length t' = (if t = [] then 64 else 2 * length t)"
proof -
  define m where "m = (if length t \<noteq> 0 then length t * 2 else 64)"
  have t': "t' = fold reinserisci t (replicate m vuota)"
    using c by (simp add: oltre_cresci_def m_def reinserisci_def [abs_def] Let_def split: if_splits)
  have "\<exists>k. m = 2 ^ k"
  proof (cases "t = []")
    case True
    then show ?thesis by (intro exI [of _ 6]) (simp add: m_def)
  next
    case False
    then obtain k where "length t = 2 ^ k" using ok by (auto simp: oltre_ok_def tav_ok_def potenza_def)
    then show ?thesis using False by (intro exI [of _ "Suc k"]) (simp add: m_def)
  qed
  then have v: "tav_ok (replicate m vuota)" using tavola_vuota(1) by auto
  have d: "da_mettere t (replicate m vuota)" using ok da_mettere_vuota by (auto simp: oltre_ok_def da_mettere_def)
  have u: "u = usati_di t" "2 * u \<le> length t" using ok by (auto simp: oltre_ok_def)
  then have mg: "usati_di t < m" by (cases t) (auto simp: m_def)
  have "usati_di (replicate m vuota) + length (filter (\<lambda>r. pagina r \<noteq> 0) t) < length (replicate m vuota)"
    using mg tavola_vuota(2) usati_filter [of t] by simp
  note f = reinserisci_fold [OF v d this, folded t']
  show "tav_ok t'" "usati_di t' = u" using f u tavola_vuota(2) usati_filter [of t] by simp_all
  show "length t' = (if t = [] then 64 else 2 * length t)" using f by (simp add: m_def)
  have "b \<notin> pagina ` set t \<Longrightarrow> peso t b = 0" for b
    using peso_presente [of t b] ok by (cases "b = 0") (auto simp: oltre_ok_def)
  then show "peso t' = peso t" using f tavola_vuota(3) by (auto simp: fun_eq_iff)
qed

section \<open>The operations on the table\<close>

lemma oltre_trova_peso:
  assumes "oltre_ok (t, u)" "a \<noteq> 0"
  shows "(case oltre_trova t a of
      None \<Rightarrow> peso t a = 0 \<and> a \<notin> pagina ` set t
    | Some i \<Rightarrow> tav_ok t \<and> i < length t \<and> occ t i \<and> pagina (t ! i) = a \<and> peso t a = in_piu (t ! i) \<and> 0 < in_piu (t ! i) \<and> in_piu (t ! i) < 2 ^ 32)"
proof (cases "oltre_trova t a")
  case None
  have "a \<notin> pagina ` set t"
  proof
    assume "a \<in> pagina ` set t"
    then obtain i where "i < length t" "pagina (t ! i) = a" by (auto simp: in_set_conv_nth)
    moreover then have "tav_ok t" using assms by (auto simp: oltre_ok_def)
    ultimately show False using oltre_trova_spec [of t a i] assms(2) None by simp
  qed
  then show ?thesis using None peso_presente [of t a] assms by (auto simp: oltre_ok_def)
next
  case (Some i)
  then have t: "tav_ok t" using assms by (auto simp: oltre_ok_def oltre_trova_def)
  then have i: "i < length t" "pagina (t ! i) = a" using oltre_trova_spec [OF t assms(2), of i] Some by auto
  then have o: "occ t i" using assms(2) by (simp add: occ_def)
  have "unica t" "positivi t" using t by (auto simp: tav_ok_def)
  then show ?thesis using Some t i o peso_slot [of t i] positiviD [of t i] by simp
qed

text \<open>Adding: one more for \<open>a\<close>, or nothing changes; it is refused only without memory or at the largest count.\<close>

lemma oltre_aggiungi_spec:
  assumes ok: "oltre_ok (t, u)" and a: "a \<noteq> 0"
  shows "(case oltre_aggiungi mem a (t, u) of (r, s) \<Rightarrow>
    oltre_ok s \<and> (if r then peso (fst s) = (peso t)(a := Suc (peso t a)) else s = (t, u) \<and> (\<not> mem \<or> peso t a = 2 ^ 32 - 1)))"
proof (cases "oltre_trova t a")
  case (Some i)
  then have i: "tav_ok t" "i < length t" "occ t i" "pagina (t ! i) = a" "peso t a = in_piu (t ! i)" "in_piu (t ! i) < 2 ^ 32"
    using oltre_trova_peso [OF ok a] by auto
  show ?thesis
  proof (cases "in_piu (t ! i) = 0xFFFFFFFF")
    case True
    then show ?thesis using Some ok i(5) by (simp add: oltre_aggiungi_def)
  next
    case False
    then have "in_piu (t ! i) + 1 < 2 ^ 32" using i(6) by simp
    note c = cambia_conto [OF i(1-3) _ this]
    then show ?thesis using Some ok i(4,5) False by (auto simp: oltre_aggiungi_def oltre_ok_def)
  qed
next
  case None
  then have n: "peso t a = 0" using oltre_trova_peso [OF ok a] by simp
  define g where "g = (if (u + 1) * 2 > length t then oltre_cresci mem t else Some t)"
  have agg: "oltre_aggiungi mem a (t, u) = (case g of None \<Rightarrow> (False, t, u)
      | Some t1 \<Rightarrow> (True, t1[libero t1 a := \<lparr>pagina = a, in_piu = 1\<rparr>], u + 1))"
    by (simp only: oltre_aggiungi_def g_def prod.case None option.case)
  show ?thesis
  proof (cases g)
    case None2: None
    then have "\<not> mem" by (auto simp: g_def oltre_cresci_def Let_def split: if_splits)
    then show ?thesis unfolding agg using None2 ok by simp
  next
    case (Some t1)
    have t1: "tav_ok t1" "usati_di t1 = u" "peso t1 = peso t" "2 * (u + 1) \<le> length t1"
    proof -
      show "tav_ok t1" "usati_di t1 = u" "peso t1 = peso t"
        using Some ok oltre_cresci_ok [OF ok] by (auto simp: g_def oltre_ok_def split: if_splits)
      have "(u + 1) * 2 > length t \<Longrightarrow> length t1 = (if t = [] then 64 else 2 * length t)"
        using Some oltre_cresci_ok(4) [OF ok] by (simp add: g_def)
      moreover have "2 * (u + 1) \<le> 2 * length t" if "t \<noteq> []"
      proof -
        have "0 < length t" "2 * u \<le> length t" using that ok by (auto simp: oltre_ok_def)
        then show ?thesis by presburger
      qed
      moreover have "t = [] \<Longrightarrow> u = 0" using ok by (simp add: oltre_ok_def)
      moreover have "\<not> (u + 1) * 2 > length t \<Longrightarrow> t1 = t" using Some by (simp add: g_def)
      ultimately show "2 * (u + 1) \<le> length t1" by (cases "(u + 1) * 2 > length t"; cases "t = []") simp_all
    qed
    let ?r = "\<lparr>pagina = a, in_piu = 1\<rparr>"
    have "a \<notin> pagina ` set t1" using peso_presente [of t1 a] t1(1,3) n a by simp
    then have i: "tav_ok (t1[libero t1 a := ?r])" "usati_di (t1[libero t1 a := ?r]) = Suc u"
        "peso (t1[libero t1 a := ?r]) = (peso t)(a := 1)"
      using inserisci_ok [OF t1(1), of ?r] a t1 by auto
    then show ?thesis unfolding agg using Some n t1(4) by (simp add: oltre_ok_def)
  qed
qed

text \<open>Removing: one less for \<open>a\<close>, and it says whether there was one.\<close>

lemma oltre_togli_spec:
  assumes ok: "oltre_ok (t, u)" and a: "a \<noteq> 0"
  shows "(case oltre_togli a (t, u) of (r, s) \<Rightarrow> oltre_ok s \<and> r = (0 < peso t a) \<and> peso (fst s) = (peso t)(a := peso t a - 1))"
proof (cases "oltre_trova t a")
  case None
  then have "peso t a = 0" using oltre_trova_peso [OF ok a] by simp
  then show ?thesis using None ok by (simp add: oltre_togli_def fun_upd_idem)
next
  case (Some i)
  then have i: "tav_ok t" "i < length t" "occ t i" "pagina (t ! i) = a" "peso t a = in_piu (t ! i)" "0 < in_piu (t ! i)" "in_piu (t ! i) < 2 ^ 32"
    using oltre_trova_peso [OF ok a] by auto
  define c where "c = (in_piu (t ! i) + 0xFFFFFFFF) mod 2 ^ 32"
  obtain k where k: "in_piu (t ! i) = Suc k" using i(6) by (cases "in_piu (t ! i)") auto
  then have ck: "c = k" using i(7) by (simp add: c_def)
  show ?thesis
  proof (cases "c = 0")
    case False
    note m = cambia_conto [OF i(1-3), of c]
    moreover have "oltre_togli a (t, u) = (True, t[i := (t ! i)\<lparr>in_piu := c\<rparr>], u)"
      unfolding oltre_togli_def prod.case Some option.case Let_def c_def [symmetric] using False by simp
    ultimately show ?thesis using ok i(4-6) False ck k i(7) by (auto simp: oltre_ok_def)
  next
    case True
    let ?r = "(t ! i)\<lparr>in_piu := c, pagina := 0\<rparr>"
    have "svuota t i ?r" using i by (simp add: svuota_def)
    note m = rimuovi [OF this]
    have s: "oltre_togli a (t, u) = (True, chiudi_buco (length t) (t[i := ?r]) i (prossimo t i), u - 1)"
      unfolding oltre_togli_def prod.case Some option.case Let_def c_def [symmetric] using True i(2) by simp
    have "u = usati_di t" "2 * u \<le> length t" using ok by (auto simp: oltre_ok_def)
    then show ?thesis using m i(4-6) True ck k unfolding s by (simp add: oltre_ok_def)
  qed
qed

section \<open>What the table promises to the page allocator\<close>

text \<open>The contract: a map of counts, with an increment that may be refused and a decrement that says whether there
  was something to take. \<open>conta s a\<close> is what the state \<open>s\<close> holds for the page \<open>a\<close>.\<close>

locale contatore =
  fixes ok :: "'s \<Rightarrow> bool" and conta :: "'s \<Rightarrow> nat \<Rightarrow> nat"
    and agg :: "bool \<Rightarrow> nat \<Rightarrow> 's \<Rightarrow> bool \<times> 's" and tog :: "nat \<Rightarrow> 's \<Rightarrow> bool \<times> 's"
    and massimo :: nat
  assumes agg_ok: "ok s \<Longrightarrow> a \<noteq> 0 \<Longrightarrow> ok (snd (agg m a s))"
    and agg_si: "ok s \<Longrightarrow> a \<noteq> 0 \<Longrightarrow> fst (agg m a s) \<Longrightarrow> conta (snd (agg m a s)) = (conta s)(a := Suc (conta s a))"
    and agg_no: "ok s \<Longrightarrow> a \<noteq> 0 \<Longrightarrow> \<not> fst (agg m a s) \<Longrightarrow> snd (agg m a s) = s"
    and agg_mem: "ok s \<Longrightarrow> a \<noteq> 0 \<Longrightarrow> conta s a < massimo \<Longrightarrow> fst (agg True a s)"
    and tog_ok: "ok s \<Longrightarrow> a \<noteq> 0 \<Longrightarrow> ok (snd (tog a s))"
    and tog_si: "ok s \<Longrightarrow> a \<noteq> 0 \<Longrightarrow> fst (tog a s) \<longleftrightarrow> 0 < conta s a"
    and tog_conta: "ok s \<Longrightarrow> a \<noteq> 0 \<Longrightarrow> conta (snd (tog a s)) = (conta s)(a := conta s a - 1)"
begin

text \<open>The client keeps a byte in front of it: a page is in the table only while its byte is full.\<close>

lemma byte_poi_tavola:
  assumes "ok s" "a \<noteq> 0" "0 < conta s a \<longrightarrow> b = m" "b \<le> m"
  shows "fst (agg mem a s) \<Longrightarrow> b = m \<Longrightarrow> b + conta (snd (agg mem a s)) a = Suc (b + conta s a)"
    and "0 < b \<Longrightarrow> (if fst (tog a s) then b else b - 1) + conta (snd (tog a s)) a = b + conta s a - 1"
    and "0 < conta (snd (tog a s)) a \<longrightarrow> (if fst (tog a s) then b else b - 1) = m"
    and "c \<noteq> a \<Longrightarrow> conta (snd (tog a s)) c = conta s c" "c \<noteq> a \<Longrightarrow> conta (snd (agg mem a s)) c = conta s c"
proof -
  show "fst (agg mem a s) \<Longrightarrow> b = m \<Longrightarrow> b + conta (snd (agg mem a s)) a = Suc (b + conta s a)"
    using agg_si [OF assms(1,2), of mem] by simp
  show "0 < b \<Longrightarrow> (if fst (tog a s) then b else b - 1) + conta (snd (tog a s)) a = b + conta s a - 1"
    using tog_si [OF assms(1,2)] tog_conta [OF assms(1,2)] by (cases "conta s a") auto
  show "0 < conta (snd (tog a s)) a \<longrightarrow> (if fst (tog a s) then b else b - 1) = m"
    using tog_si [OF assms(1,2)] tog_conta [OF assms(1,2)] assms(3) by auto
  show "c \<noteq> a \<Longrightarrow> conta (snd (tog a s)) c = conta s c" using tog_conta [OF assms(1,2)] by simp
  show "c \<noteq> a \<Longrightarrow> conta (snd (agg mem a s)) c = conta s c"
    using agg_si [OF assms(1,2), of mem] agg_no [OF assms(1,2), of mem] by (cases "fst (agg mem a s)") auto
qed

text \<open>Whatever was added can be taken back, one at a time, and the page is forgotten after the last.\<close>

lemma togli_tutti:
  assumes "ok s" "a \<noteq> 0"
  shows "ok (((\<lambda>s. snd (tog a s)) ^^ n) s) \<and> conta (((\<lambda>s. snd (tog a s)) ^^ n) s) = (conta s)(a := conta s a - n)"
proof (induction n)
  case (Suc n)
  then show ?case using tog_ok [OF _ assms(2)] tog_conta [OF _ assms(2)] by (auto simp: fun_eq_iff)
qed (simp add: assms)

lemma aggiungi_n:
  assumes "ok s" "a \<noteq> 0" "conta s a + n \<le> massimo"
  shows "ok (((\<lambda>s. snd (agg True a s)) ^^ n) s) \<and> conta (((\<lambda>s. snd (agg True a s)) ^^ n) s) = (conta s)(a := conta s a + n)"
  using assms(3)
proof (induction n)
  case (Suc n)
  let ?s = "((\<lambda>s. snd (agg True a s)) ^^ n) s"
  have i: "ok ?s" "conta ?s = (conta s)(a := conta s a + n)" using Suc by auto
  then have "fst (agg True a ?s)" using agg_mem [OF _ assms(2)] Suc.prems by simp
  then show ?case using agg_ok [OF i(1) assms(2)] agg_si [OF i(1) assms(2)] i(2) by (auto simp: fun_eq_iff)
qed (simp add: assms)

end

interpretation oltre: contatore oltre_ok "\<lambda>s. peso (fst s)" oltre_aggiungi oltre_togli "2 ^ 32 - 1"
proof unfold_locales
  fix s :: "tavola \<times> nat" and a :: nat and m
  assume ok: "oltre_ok s" and a: "a \<noteq> 0"
  obtain t u where s: "s = (t, u)" by (cases s)
  note i = oltre_aggiungi_spec [OF ok [unfolded s] a] and d = oltre_togli_spec [OF ok [unfolded s] a]
  show "oltre_ok (snd (oltre_aggiungi m a s))" using i [of m] by (auto simp: s split: prod.splits)
  show "fst (oltre_aggiungi m a s) \<Longrightarrow> peso (fst (snd (oltre_aggiungi m a s))) = (peso (fst s))(a := Suc (peso (fst s) a))"
    using i [of m] by (auto simp: s split: prod.splits)
  show "\<not> fst (oltre_aggiungi m a s) \<Longrightarrow> snd (oltre_aggiungi m a s) = s" using i [of m] by (auto simp: s split: prod.splits)
  show "peso (fst s) a < 2 ^ 32 - 1 \<Longrightarrow> fst (oltre_aggiungi True a s)" using i [of True] by (auto simp: s split: prod.splits if_splits)
  show "oltre_ok (snd (oltre_togli a s))" "fst (oltre_togli a s) \<longleftrightarrow> 0 < peso (fst s) a"
    "peso (fst (snd (oltre_togli a s))) = (peso (fst s))(a := peso (fst s) a - 1)"
    using d by (auto simp: s split: prod.splits)
qed

section \<open>Sequences of operations\<close>

datatype oltre_op = Aggiungi nat | Togli nat

fun op_pagina :: "oltre_op \<Rightarrow> nat" where
  "op_pagina (Aggiungi a) = a"
| "op_pagina (Togli a) = a"

fun tavola_passo :: "oltre_op \<Rightarrow> tavola \<times> nat \<Rightarrow> bool \<times> tavola \<times> nat" where
  "tavola_passo (Aggiungi a) s = oltre_aggiungi True a s"
| "tavola_passo (Togli a) s = oltre_togli a s"

text \<open>The reference: a plain function from pages to counts.\<close>

fun conti_passo :: "oltre_op \<Rightarrow> (nat \<Rightarrow> nat) \<Rightarrow> bool \<times> (nat \<Rightarrow> nat)" where
  "conti_passo (Aggiungi a) m = (if m a = 2 ^ 32 - 1 then (False, m) else (True, m(a := m a + 1)))"
| "conti_passo (Togli a) m = (0 < m a, m(a := m a - 1))"

fun esegui :: "('o \<Rightarrow> 's \<Rightarrow> bool \<times> 's) \<Rightarrow> 'o list \<Rightarrow> 's \<Rightarrow> bool list \<times> 's" where
  "esegui f [] s = ([], s)"
| "esegui f (x # xs) s = (case f x s of (r, s1) \<Rightarrow> (case esegui f xs s1 of (rs, s2) \<Rightarrow> (r # rs, s2)))"

lemma peso_lt: "oltre_ok (t, u) \<Longrightarrow> a \<noteq> 0 \<Longrightarrow> peso t a < 2 ^ 32"
  using oltre_trova_peso [of t u a] by (auto split: option.splits)

lemma tavola_passo_conti:
  assumes ok: "oltre_ok s" and a: "op_pagina x \<noteq> 0"
  shows "oltre_ok (snd (tavola_passo x s)) \<and>
    conti_passo x (peso (fst s)) = (fst (tavola_passo x s), peso (fst (snd (tavola_passo x s))))"
proof (cases x)
  case (Aggiungi a)
  then have a0: "a \<noteq> 0" using a by simp
  note ok' = oltre.agg_ok [OF ok a0, of True]
  show ?thesis
  proof (cases "peso (fst s) a = 2 ^ 32 - 1")
    case True
    have "\<not> fst (oltre_aggiungi True a s)"
    proof
      assume "fst (oltre_aggiungi True a s)"
      then have "peso (fst (snd (oltre_aggiungi True a s))) a = 2 ^ 32" using oltre.agg_si [OF ok a0] True by simp
      then show False using peso_lt [of "fst (snd (oltre_aggiungi True a s))" "snd (snd (oltre_aggiungi True a s))" a] ok' a0 by simp
    qed
    then show ?thesis using Aggiungi True oltre.agg_no [OF ok a0] ok by simp
  next
    case False
    then have "peso (fst s) a < 2 ^ 32 - 1" using peso_lt [of "fst s" "snd s" a] ok a0 by simp
    then have "fst (oltre_aggiungi True a s)" using oltre.agg_mem [OF ok a0] by simp
    then show ?thesis using Aggiungi False oltre.agg_si [OF ok a0] ok' by simp
  qed
next
  case (Togli a)
  then have "a \<noteq> 0" using a by simp
  then show ?thesis using Togli oltre.tog_ok [OF ok] oltre.tog_si [OF ok] oltre.tog_conta [OF ok] by simp
qed

lemma esegui_conti:
  assumes "oltre_ok s" "list_all (\<lambda>x. op_pagina x \<noteq> 0) xs"
  shows "oltre_ok (snd (esegui tavola_passo xs s)) \<and>
    esegui conti_passo xs (peso (fst s)) = (fst (esegui tavola_passo xs s), peso (fst (snd (esegui tavola_passo xs s))))"
  using assms
proof (induction xs arbitrary: s)
  case (Cons x xs)
  have p: "oltre_ok (snd (tavola_passo x s))" "conti_passo x (peso (fst s)) = (fst (tavola_passo x s), peso (fst (snd (tavola_passo x s))))"
    using tavola_passo_conti Cons.prems by auto
  then show ?case using Cons.IH [OF p(1)] Cons.prems by (simp add: case_prod_beta)
qed simp

text \<open>C30. The hash table of \<^verbatim>\<open>kernel/mm/pmm.c\<close> (\<^verbatim>\<open>oltre_aggiungi\<close>, \<^verbatim>\<open>oltre_togli\<close>, \<^verbatim>\<open>oltre_cresci\<close>) implements a map of counts:
  from the empty table, whatever operations are made on pages other than 0, in whatever order and with whatever
  collisions, growths and shifts, every answer is that of the plain map, and in the end a page is found with the count
  the map has for it and is not found when that is 0.\<close>

theorem oltre_refines_counts:
  assumes "list_all (\<lambda>x. op_pagina x \<noteq> 0) xs" and "a \<noteq> 0"
    and "esegui tavola_passo xs ([], 0) = (rs, t, u)" "esegui conti_passo xs (\<lambda>_. 0) = (rs', m)"
  shows "rs = rs' \<and> (case oltre_trova t a of None \<Rightarrow> m a = 0 | Some i \<Rightarrow> pagina (t ! i) = a \<and> in_piu (t ! i) = m a \<and> 0 < m a)"
proof -
  have z: "oltre_ok ([], 0)" "peso [] = (\<lambda>_. 0)" by (simp_all add: oltre_ok_def usati_di_def peso_def fun_eq_iff)
  then have "oltre_ok (t, u)" "rs = rs'" "m = peso t" using esegui_conti [OF z(1) assms(1)] assms(3,4) by auto
  then show ?thesis using oltre_trova_peso [of t u a] assms(2) by (auto split: option.splits)
qed

theorem oltre_refines_counts_witness:
  "fst (esegui tavola_passo [Aggiungi 4096, Aggiungi 266240, Togli 4096, Togli 266240, Togli 4096] ([], 0)) = [True, True, True, True, False]"
proof -
  let ?xs = "[Aggiungi 4096, Aggiungi 266240, Togli 4096, Togli 266240, Togli 4096]"
  obtain rs t u where e: "esegui tavola_passo ?xs ([], 0) = (rs, t, u)" by (cases "esegui tavola_passo ?xs ([], 0)") auto
  obtain rs' m where m: "esegui conti_passo ?xs (\<lambda>_. 0) = (rs', m)" by (cases "esegui conti_passo ?xs (\<lambda>_. 0)") auto
  have "rs = rs'" using oltre_refines_counts [OF _ _ e m, of 4096] by simp
  then show ?thesis using e m by auto
qed

end
