(* ===== verification/Pmm.thy ===== *)
theory Pmm
  imports Bitmap Oltre_Spec
begin

text \<open>
  The allocator of physical pages (\<^verbatim>\<open>kernel/mm/pmm.c\<close>, the 64 bit kernel): the pool below 4 GB with its bitmap, its
  band reserved to the kernel, blocks of contiguous pages; the pool above 4 GB; the owners of a page.
\<close>

section \<open>State\<close>

text \<open>Pages are numbered, addresses are natural numbers; where the source cuts to 32 bits the cut is written out.
  The references lie in memory right behind the bitmap (\<^verbatim>\<open>g_rif = g_bitmap + g_bitmap_size\<close>), so both are in
  \<open>g_bitmap\<close> and \<open>g_rif\<close> is where the second begins (a null pointer before \<^verbatim>\<open>pmm_init\<close>).\<close>

record pmm =
  g_bitmap :: "u8 list"
  g_rif :: "nat option"
  g_total_pages :: nat
  g_free_pages :: u32
  g_used_pages :: u32
  g_last_alloc :: nat
  g_last_alloc_k :: nat
  g_oltre :: "tavola \<times> nat"
  g_alta :: "u8 list option"
  g_alta_rif :: "u8 list option"
  g_alta_pagine :: nat
  g_alta_libere :: u32
  g_alta_ram :: u32
  g_alta_cursore :: nat

abbreviation PAGE_SIZE :: nat where "PAGE_SIZE \<equiv> 4096"
abbreviation USER_SPACE_BASE :: nat where "USER_SPACE_BASE \<equiv> 0x04000000"
abbreviation PMM_PAGINE_4GB :: nat where "PMM_PAGINE_4GB \<equiv> 0x100000"
abbreviation GB4 :: nat where "GB4 \<equiv> 0x100000000"
abbreviation RIF_MAX :: u8 where "RIF_MAX \<equiv> 255"

definition addr_to_page :: "nat \<Rightarrow> nat" where
  "addr_to_page a = (a mod 2 ^ 32) div PAGE_SIZE"

definition page_to_addr :: "nat \<Rightarrow> nat" where
  "page_to_addr p = (p * PAGE_SIZE) mod 2 ^ 32"

abbreviation page_used :: "pmm \<Rightarrow> nat \<Rightarrow> bool" where
  "page_used s k \<equiv> bitmap_test (g_bitmap s) k"

definition pmm_limite_kernel :: "pmm \<Rightarrow> nat" where
  "pmm_limite_kernel s =
     (let limite = addr_to_page USER_SPACE_BASE in if limite > g_total_pages s then g_total_pages s else limite)"

section \<open>Marking ranges\<close>

definition segna_usata :: "nat \<Rightarrow> pmm \<Rightarrow> pmm" where
  "segna_usata i s =
     (if \<not> page_used s i
      then s\<lparr>g_bitmap := bitmap_set i (g_bitmap s), g_used_pages := g_used_pages s + 1,
             g_free_pages := (if g_free_pages s > 0 then g_free_pages s - 1 else g_free_pages s)\<rparr>
      else s)"

definition pmm_mark_used :: "nat \<Rightarrow> nat \<Rightarrow> pmm \<Rightarrow> pmm" where
  "pmm_mark_used base len s =
     (let a = addr_to_page base; e = addr_to_page (base + len + PAGE_SIZE - 1);
          e = (if e > g_total_pages s then g_total_pages s else e)
      in fold segna_usata [a..<e] s)"

definition segna_libera :: "nat \<Rightarrow> pmm \<Rightarrow> pmm" where
  "segna_libera i s =
     (if page_used s i
      then s\<lparr>g_bitmap := bitmap_clr i (g_bitmap s), g_free_pages := g_free_pages s + 1,
             g_used_pages := (if g_used_pages s > 0 then g_used_pages s - 1 else g_used_pages s)\<rparr>
      else s)"

definition pmm_mark_free :: "nat \<Rightarrow> nat \<Rightarrow> pmm \<Rightarrow> pmm" where
  "pmm_mark_free base len s =
     (let a = addr_to_page base; e = addr_to_page (base + len);
          e = (if e > g_total_pages s then g_total_pages s else e)
      in fold segna_libera [a..<e] s)"

section \<open>One page\<close>

text \<open>The lines every allocation has in common: the bit, and the two counters.\<close>

definition prendi_pagina :: "nat \<Rightarrow> pmm \<Rightarrow> pmm" where
  "prendi_pagina i s =
     s\<lparr>g_bitmap := bitmap_set i (g_bitmap s), g_free_pages := g_free_pages s - 1, g_used_pages := g_used_pages s + 1\<rparr>"

text \<open>A loop \<^verbatim>\<open>for (i = a; i < b; i++) if (!BITMAP_TEST(i))\<close> that returns from its body.\<close>

definition prima_libera :: "pmm \<Rightarrow> nat \<Rightarrow> nat \<Rightarrow> nat option" where
  "prima_libera s a b = find (\<lambda>i. \<not> page_used s i) [a..<b]"

definition pmm_alloc_page :: "pmm \<Rightarrow> nat \<times> pmm" where
  "pmm_alloc_page s =
     (let fascia = pmm_limite_kernel s in
      if g_free_pages s = 0 then (0, s)
      else
        (let start = (if g_last_alloc s < fascia then fascia else g_last_alloc s) in
         case prima_libera s start (g_total_pages s) of
           Some i \<Rightarrow> (page_to_addr i, (prendi_pagina i s)\<lparr>g_last_alloc := i + 1\<rparr>)
         | None \<Rightarrow>
             (case prima_libera s fascia start of
                Some i \<Rightarrow> (page_to_addr i, (prendi_pagina i s)\<lparr>g_last_alloc := i + 1\<rparr>)
              | None \<Rightarrow>
                  (case prima_libera s 0 fascia of
                     Some i \<Rightarrow> (page_to_addr i, prendi_pagina i s)
                   | None \<Rightarrow> (0, s)))))"

definition pmm_alloc_page_kernel :: "pmm \<Rightarrow> nat \<times> pmm" where
  "pmm_alloc_page_kernel s =
     (let limite = pmm_limite_kernel s in
      case prima_libera s (g_last_alloc_k s) limite of
        Some i \<Rightarrow> (page_to_addr i, (prendi_pagina i s)\<lparr>g_last_alloc_k := i + 1\<rparr>)
      | None \<Rightarrow>
          (case prima_libera s 0 (min (g_last_alloc_k s) limite) of
             Some i \<Rightarrow> (page_to_addr i, (prendi_pagina i s)\<lparr>g_last_alloc_k := i + 1\<rparr>)
           | None \<Rightarrow> (0, s)))"

section \<open>Contiguous pages\<close>

text \<open>The inner loop counts the free pages behind a free page \<open>i\<close>, up to \<open>count - 1\<close> and not past \<open>a\<close>; the outer loop
  goes on behind the page that stopped it. \<open>cerca_da\<close> is the search from \<open>i\<close> on.\<close>

definition libere_dopo :: "pmm \<Rightarrow> nat \<Rightarrow> nat \<Rightarrow> nat \<Rightarrow> nat" where
  "libere_dopo s i a count = length (takeWhile (\<lambda>j. \<not> page_used s j) [i + 1..<min (i + count) a])"

function cerca_da :: "pmm \<Rightarrow> nat \<Rightarrow> nat \<Rightarrow> nat \<Rightarrow> nat" where
  "cerca_da s i a count =
     (if i > a - count then a
      else if page_used s i then cerca_da s (i + 1) a count
      else (let k = libere_dopo s i a count in
            if 1 + k = count then i else cerca_da s (i + 1 + k + 1) a count))"
  by pat_completeness auto
termination by (relation "measure (\<lambda>(s, i, a, count). Suc a - i)") auto

declare cerca_da.simps [simp del]

definition pmm_cerca_contigue :: "nat \<Rightarrow> nat \<Rightarrow> nat \<Rightarrow> pmm \<Rightarrow> nat" where
  "pmm_cerca_contigue da a count s = (if a < count \<or> da > a - count then a else cerca_da s da a count)"

definition prendi_pagine :: "nat \<Rightarrow> nat \<Rightarrow> pmm \<Rightarrow> pmm" where
  "prendi_pagine i count s = fold prendi_pagina [i..<i + count] s"

text \<open>The search is written out a second time in \<^verbatim>\<open>pmm_alloc_pages_kernel\<close>, over the band.\<close>

definition pmm_alloc_pages_kernel :: "nat \<Rightarrow> pmm \<Rightarrow> nat \<times> pmm" where
  "pmm_alloc_pages_kernel count s =
     (let limite = pmm_limite_kernel s in
      if count = 0 then (0, s)
      else if count = 1 then pmm_alloc_page_kernel s
      else if limite < count then (0, s)
      else (let i = cerca_da s 0 limite count in
            if i = limite then (0, s) else (page_to_addr i, prendi_pagine i count s)))"

definition pmm_alloc_pages :: "nat \<Rightarrow> pmm \<Rightarrow> nat \<times> pmm" where
  "pmm_alloc_pages count s =
     (let fascia = pmm_limite_kernel s in
      if count = 0 then (0, s)
      else if count = 1 then pmm_alloc_page s
      else if unat (g_free_pages s) < count then (0, s)
      else
        (let tetto = (if g_total_pages s > PMM_PAGINE_4GB then PMM_PAGINE_4GB else g_total_pages s);
             i = pmm_cerca_contigue fascia tetto count s in
         if i \<noteq> tetto then (page_to_addr i, prendi_pagine i count s)
         else (let i = pmm_cerca_contigue 0 fascia count s in
               if i = fascia then (0, s) else (page_to_addr i, prendi_pagine i count s))))"

section \<open>The pool above 4 GB\<close>

definition alta_dentro :: "pmm \<Rightarrow> nat \<Rightarrow> bool" where
  "alta_dentro s a \<longleftrightarrow> g_alta s \<noteq> None \<and> a \<ge> GB4 \<and> a < GB4 + g_alta_pagine s * PAGE_SIZE"

definition alta_pagina :: "nat \<Rightarrow> nat" where
  "alta_pagina a = ((a - GB4) div PAGE_SIZE) mod 2 ^ 32"

abbreviation alta_test :: "pmm \<Rightarrow> nat \<Rightarrow> bool" where
  "alta_test s k \<equiv> bitmap_test (the (g_alta s)) k"

text \<open>The loop of \<^verbatim>\<open>pmm_alloc_page_utente\<close>, \<open>n\<close> turns from the cursor on.\<close>

fun alta_cerca :: "nat \<Rightarrow> pmm \<Rightarrow> nat option \<times> pmm" where
  "alta_cerca 0 s = (None, s)"
| "alta_cerca (Suc n) s =
     (let k = g_alta_cursore s;
          s1 = s\<lparr>g_alta_cursore := (if k + 1 \<ge> g_alta_pagine s then 0 else k + 1)\<rparr> in
      if \<not> alta_test s1 k
      then (Some k, s1\<lparr>g_alta := Some (bitmap_set k (the (g_alta s1))), g_alta_libere := g_alta_libere s1 - 1\<rparr>)
      else alta_cerca n s1)"

definition pmm_alloc_page_utente :: "pmm \<Rightarrow> nat \<times> pmm" where
  "pmm_alloc_page_utente s =
     (if g_alta_libere s = 0 then pmm_alloc_page s
      else (case alta_cerca (g_alta_pagine s) s of
              (Some k, s1) \<Rightarrow> (GB4 + k * PAGE_SIZE, s1)
            | (None, s1) \<Rightarrow> pmm_alloc_page (s1\<lparr>g_alta_libere := 0\<rparr>)))"

definition alta_libera :: "nat \<Rightarrow> pmm \<Rightarrow> pmm" where
  "alta_libera a s =
     (let k = alta_pagina a in
      if \<not> alta_test s k then s
      else s\<lparr>g_alta := Some (bitmap_clr k (the (g_alta s))), g_alta_libere := g_alta_libere s + 1\<rparr>)"

definition alta_usata :: "pmm \<Rightarrow> nat \<Rightarrow> bool" where
  "alta_usata s a \<longleftrightarrow> alta_test s (alta_pagina a)"

text \<open>The index of the reference byte of a high page in use, if there is one.\<close>

definition rif_alto :: "pmm \<Rightarrow> nat \<Rightarrow> nat option" where
  "rif_alto s a =
     (if g_alta_rif s = None \<or> \<not> alta_dentro s a \<or> a mod PAGE_SIZE \<noteq> 0 \<or> \<not> alta_usata s a then None
      else Some ((a - GB4) div PAGE_SIZE))"

definition pmm_e_ram :: "pmm \<Rightarrow> nat \<Rightarrow> bool" where
  "pmm_e_ram s a \<longleftrightarrow> (if a < GB4 then a < g_total_pages s * PAGE_SIZE else alta_dentro s a)"

section \<open>Owners\<close>

abbreviation rif_basso :: "pmm \<Rightarrow> nat \<Rightarrow> nat \<Rightarrow> u8" where
  "rif_basso s r k \<equiv> g_bitmap s ! (r + k)"

abbreviation metti_basso :: "nat \<Rightarrow> nat \<Rightarrow> u8 \<Rightarrow> pmm \<Rightarrow> pmm" where
  "metti_basso r k v s \<equiv> s\<lparr>g_bitmap := (g_bitmap s)[r + k := v]\<rparr>"

abbreviation metti_alto :: "nat \<Rightarrow> u8 \<Rightarrow> pmm \<Rightarrow> pmm" where
  "metti_alto k v s \<equiv> s\<lparr>g_alta_rif := Some ((the (g_alta_rif s))[k := v])\<rparr>"

definition libera_bassa :: "nat \<Rightarrow> pmm \<Rightarrow> pmm" where
  "libera_bassa page s =
     s\<lparr>g_bitmap := bitmap_clr page (g_bitmap s), g_free_pages := g_free_pages s + 1, g_used_pages := g_used_pages s - 1,
       g_last_alloc := (if page < g_last_alloc s then page else g_last_alloc s)\<rparr>"

definition pmm_free_page :: "nat \<Rightarrow> pmm \<Rightarrow> pmm" where
  "pmm_free_page a s =
     (if a \<ge> GB4 then
        (if alta_dentro s a then
           (case rif_alto s a of
              Some k \<Rightarrow>
                (let b = the (g_alta_rif s) ! k in
                 if b > 0 then
                   (case oltre_togli a (g_oltre s) of (r, o1) \<Rightarrow>
                      (let s1 = s\<lparr>g_oltre := o1\<rparr> in if r then s1 else metti_alto k (b - 1) s1))
                 else alta_libera a s)
            | None \<Rightarrow> alta_libera a s)
         else s)
      else if a = 0 \<or> a mod PAGE_SIZE \<noteq> 0 then s
      else
        (let page = addr_to_page a in
         if page \<ge> g_total_pages s \<or> \<not> page_used s page then s
         else
           (case g_rif s of
              Some r \<Rightarrow>
                (let b = rif_basso s r page in
                 if b > 0 then
                   (case oltre_togli a (g_oltre s) of (t, o1) \<Rightarrow>
                      (let s1 = s\<lparr>g_oltre := o1\<rparr> in if t then s1 else metti_basso r page (b - 1) s1))
                 else libera_bassa page s)
            | None \<Rightarrow> libera_bassa page s)))"

text \<open>\<open>mem\<close> says whether the kernel heap has memory for the table to grow. The pages the heap may take for that are taken
  before the table changes, by a call of \<open>pmm_alloc_pages_kernel\<close> that is a step of its own.\<close>

definition pmm_ref_inc :: "bool \<Rightarrow> nat \<Rightarrow> pmm \<Rightarrow> bool \<times> pmm" where
  "pmm_ref_inc mem a s =
     (let oltre = (case oltre_aggiungi mem a (g_oltre s) of (r, o1) \<Rightarrow> (r, s\<lparr>g_oltre := o1\<rparr>)) in
      if a \<ge> GB4 then
        (case rif_alto s a of
           None \<Rightarrow> (False, s)
         | Some k \<Rightarrow>
             (let b = the (g_alta_rif s) ! k in
              if b < RIF_MAX then (True, metti_alto k (b + 1) s) else oltre))
      else
        (case g_rif s of
           None \<Rightarrow> (False, s)
         | Some r \<Rightarrow>
             if a mod PAGE_SIZE \<noteq> 0 then (False, s)
             else
               (let page = addr_to_page a in
                if page \<ge> g_total_pages s then (False, s)
                else if \<not> page_used s page then (False, s)
                else (let b = rif_basso s r page in
                      if b < RIF_MAX then (True, metti_basso r page (b + 1) s) else oltre))))"

definition in_tavola :: "nat \<Rightarrow> pmm \<Rightarrow> nat" where
  "in_tavola a s = (case oltre_trova (fst (g_oltre s)) a of None \<Rightarrow> 0 | Some i \<Rightarrow> in_piu (fst (g_oltre s) ! i))"

definition pmm_ref_count :: "nat \<Rightarrow> pmm \<Rightarrow> nat" where
  "pmm_ref_count a s =
     (if a \<ge> GB4 then
        (case rif_alto s a of
           None \<Rightarrow> if alta_dentro s a \<and> alta_usata s a then 1 else 0
         | Some k \<Rightarrow>
             (let b = the (g_alta_rif s) ! k; r = (if b = RIF_MAX then in_tavola a s else 0)
              in (1 + unat b + r) mod 2 ^ 32))
      else
        (case g_rif s of
           None \<Rightarrow> 0
         | Some r \<Rightarrow>
             (let page = addr_to_page a in
              if page \<ge> g_total_pages s then 0
              else if \<not> page_used s page then 0
              else (let b = rif_basso s r page; t = (if b = RIF_MAX then in_tavola a s else 0)
                    in (1 + unat b + t) mod 2 ^ 32))))"

definition pmm_free_pages :: "nat \<Rightarrow> nat \<Rightarrow> pmm \<Rightarrow> pmm" where
  "pmm_free_pages a count s = fold (\<lambda>i. pmm_free_page (a + (i * PAGE_SIZE) mod 2 ^ 32)) [0..<count] s"

definition pmm_is_page_free :: "nat \<Rightarrow> pmm \<Rightarrow> bool" where
  "pmm_is_page_free a s = (let page = addr_to_page a in if page \<ge> g_total_pages s then False else \<not> page_used s page)"

definition pmm_region_stat :: "nat \<Rightarrow> nat \<Rightarrow> pmm \<Rightarrow> nat \<times> nat" where
  "pmm_region_stat base len s =
     (let first = addr_to_page base; last = addr_to_page (base + len + 0xFFFFFFFF) in
      if len = 0 \<or> g_total_pages s = 0 then (0, 0)
      else (let last = (if last \<ge> g_total_pages s then g_total_pages s - 1 else last)
            in (length [first..<Suc last], length (filter (\<lambda>k. \<not> page_used s k) [first..<Suc last]))))"

section \<open>Start-up\<close>

record e820_entry =
  base_low :: nat
  base_high :: nat
  length_low :: nat
  length_high :: nat
  e_type :: nat

text \<open>What Stage 2 leaves: no map at all is \<open>None\<close> (count or address zero). \<open>rb_valida\<close> says that the signature of the
  base system is there. The ends of the kernel image come from the linker.\<close>

record boot_info =
  e820 :: "e820_entry list option"
  mem_lower :: nat
  mem_upper :: nat
  rb_valida :: bool
  rb_addr :: nat
  rb_byte :: nat
  rd_addr :: nat
  rd_byte :: nat

definition ALIGN_UP :: "nat \<Rightarrow> nat" where
  "ALIGN_UP v = (v + (PAGE_SIZE - 1)) mod 2 ^ 32 div PAGE_SIZE * PAGE_SIZE"

definition usabile :: "e820_entry \<Rightarrow> bool" where
  "usabile e \<longleftrightarrow> e_type e = 1 \<and> base_high e = 0"

definition max_addr_di :: "boot_info \<Rightarrow> nat" where
  "max_addr_di info =
     (case e820 info of
        None \<Rightarrow> ((mem_lower info + mem_upper info) * 1024) mod 2 ^ 32
      | Some es \<Rightarrow>
          fold (\<lambda>e m. if \<not> usabile e then m
                     else (let fine = (base_low e + length_low e) mod 2 ^ 32 in if fine > m then fine else m)) es 0)"

definition bitmap_size_di :: "nat \<Rightarrow> nat" where
  "bitmap_size_di tot = ALIGN_UP (tot div 8)"

text \<open>Steps 1 to 3: everything is marked in use.\<close>

definition pmm_vuota :: "nat \<Rightarrow> pmm" where
  "pmm_vuota tot =
     \<lparr>g_bitmap = replicate (bitmap_size_di tot) 0xFF @ replicate (ALIGN_UP tot) 0, g_rif = Some (bitmap_size_di tot),
      g_total_pages = tot, g_free_pages = 0, g_used_pages = of_nat tot, g_last_alloc = 0, g_last_alloc_k = 0,
      g_oltre = ([], 0), g_alta = None, g_alta_rif = None, g_alta_pagine = 0, g_alta_libere = 0, g_alta_ram = 0,
      g_alta_cursore = 0\<rparr>"

text \<open>Step 4: the usable regions are freed.\<close>

definition segna_regioni :: "boot_info \<Rightarrow> pmm \<Rightarrow> pmm" where
  "segna_regioni info s =
     (case e820 info of
        Some es \<Rightarrow> fold (\<lambda>e s. if \<not> usabile e \<or> length_low e = 0 then s else pmm_mark_free (base_low e) (length_low e) s) es s
      | None \<Rightarrow>
          (let s = pmm_mark_free 0x1000 0x9F000 s in
           if mem_upper info > 0 then pmm_mark_free 0x100000 ((mem_upper info * 1024) mod 2 ^ 32) s else s))"

text \<open>Step 5: what must stay in use. \<open>ks\<close> and \<open>fine\<close> are where the kernel begins and the references end.\<close>

definition proteggi :: "boot_info \<Rightarrow> nat \<Rightarrow> nat \<Rightarrow> pmm \<Rightarrow> pmm" where
  "proteggi info ks fine s =
     (let s = pmm_mark_used 0 PAGE_SIZE s;
          s = pmm_mark_used 0x9FC00 0x60400 s;
          s = pmm_mark_used ks ((fine + 2 ^ 32 - ks) mod 2 ^ 32) s;
          s = pmm_mark_used 0x500 0x7B00 s;
          s = pmm_mark_used 0x7E00 0x4300 s;
          s = pmm_mark_used 0xC000 PAGE_SIZE s;
          s = (if rd_addr info \<noteq> 0 \<and> rd_byte info \<noteq> 0 then pmm_mark_used (rd_addr info) (rd_byte info) s else s);
          s = (if rb_valida info \<and> rb_addr info \<noteq> 0 \<and> rb_byte info \<noteq> 0 then pmm_mark_used (rb_addr info) (rb_byte info) s else s)
      in pmm_mark_used 0x3FF000 PAGE_SIZE s)"

text \<open>The RAM above 4 GB: at most 16 regions, 60 GB.\<close>

definition alta_regioni :: "e820_entry list \<Rightarrow> (nat \<times> nat) list" where
  "alta_regioni es =
     take 16 (concat (map (\<lambda>e. (let b = base_high e * 2 ^ 32 + base_low e;
                                   f = (b + (length_high e * 2 ^ 32 + length_low e)) mod 2 ^ 64 in
                               if e_type e \<noteq> 1 \<or> f \<le> GB4 then [] else [(if b < GB4 then GB4 else b, f)])) es))"

definition alta_pagine_di :: "nat \<Rightarrow> nat \<times> nat \<Rightarrow> nat list" where
  "alta_pagine_di fine = (\<lambda>(b, e).
     (let b = (b + (PAGE_SIZE - 1)) mod 2 ^ 64 div PAGE_SIZE * PAGE_SIZE; e = (if e > fine then fine else e)
      in map (\<lambda>j. (b - GB4) div PAGE_SIZE + j) [0..<(e - b) div PAGE_SIZE]))"

text \<open>The bitmap in \<open>pb\<close> pages, with the pages \<open>ps\<close> free; then the references, without which high pages are not shared.\<close>

definition alta_pool :: "nat \<Rightarrow> nat \<Rightarrow> nat list \<Rightarrow> pmm \<Rightarrow> pmm" where
  "alta_pool n pb ps s =
     s\<lparr>g_alta_pagine := n, g_alta := Some (fold bitmap_clr ps (replicate (pb * PAGE_SIZE) 0xFF)),
       g_alta_libere := of_nat (length ps), g_alta_ram := of_nat (length ps)\<rparr>"

definition alta_riferimenti :: "nat \<Rightarrow> pmm \<Rightarrow> pmm" where
  "alta_riferimenti n s =
     (let pr = (n + PAGE_SIZE - 1) div PAGE_SIZE in
      case pmm_alloc_pages_kernel pr s of (fr, s1) \<Rightarrow>
        if fr = 0 then s1 else s1\<lparr>g_alta_rif := Some (replicate (pr * PAGE_SIZE) 0)\<rparr>)"

definition alta_fine :: "(nat \<times> nat) list \<Rightarrow> nat" where
  "alta_fine rs = min (fold max (map snd rs) GB4) (GB4 + 60 * 0x40000000)"

definition alta_init :: "boot_info \<Rightarrow> pmm \<Rightarrow> pmm" where
  "alta_init info s =
     (case e820 info of None \<Rightarrow> s
      | Some es \<Rightarrow>
          (let rs = alta_regioni es in
           if rs = [] then s
           else
             (let fine = alta_fine rs;
                  n = (fine - GB4) div PAGE_SIZE;
                  byte = (n + 7) div 8;
                  pb = (byte + PAGE_SIZE - 1) div PAGE_SIZE in
              case pmm_alloc_pages_kernel pb s of (f, s1) \<Rightarrow>
                if f = 0 then s1 else alta_riferimenti n (alta_pool n pb (concat (map (alta_pagine_di fine) rs)) s1))))"

definition pmm_init :: "nat \<Rightarrow> nat \<Rightarrow> boot_info \<Rightarrow> (boot_info \<times> pmm) option" where
  "pmm_init ks ke info =
     (let m = max_addr_di info in
      if m = 0 then None
      else
        (let tot = ALIGN_UP m div PAGE_SIZE;
             fine = (ALIGN_UP ke + bitmap_size_di tot + ALIGN_UP tot) mod 2 ^ 32;
             info = (if rb_valida info \<and> rb_addr info \<noteq> 0 \<and> fine > rb_addr info then info\<lparr>rb_addr := 0, rb_byte := 0\<rparr> else info);
             s = proteggi info ks fine (segna_regioni info (pmm_vuota tot))
         in Some (info, alta_init info (s\<lparr>g_last_alloc := addr_to_page 0x100000, g_last_alloc_k := addr_to_page 0x100000\<rparr>))))"

end
