(* ===== verification/Pmm_Spec.thy ===== *)
theory Pmm_Spec
  imports Pmm
begin

text \<open>
  What the page allocator keeps and what it promises: every page in use has owners, an allocation hands out a page nobody
  owns, a page goes back to the pool when its last owner leaves.
\<close>

section \<open>The invariant\<close>

definition libere :: "pmm \<Rightarrow> nat" where
  "libere s = card {k. k < g_total_pages s \<and> \<not> page_used s k}"

text \<open>The low pool: the bitmap does not reach into the references; page 0 is never free; a free page has no references.\<close>

definition basso_ok :: "pmm \<Rightarrow> nat \<Rightarrow> bool" where
  "basso_ok s r \<longleftrightarrow> g_rif s = Some r \<and> g_total_pages s \<le> 8 * r \<and> r + g_total_pages s \<le> length (g_bitmap s) \<and>
     g_total_pages s \<le> 2 ^ 20 \<and> 0 < g_total_pages s \<and> page_used s 0 \<and> g_last_alloc s \<le> g_total_pages s \<and>
     g_free_pages s = of_nat (libere s) \<and> g_used_pages s + g_free_pages s = of_nat (g_total_pages s) \<and>
     (\<forall>k < g_total_pages s. \<not> page_used s k \<longrightarrow> rif_basso s r k = 0)"

definition alte_libere :: "pmm \<Rightarrow> nat" where
  "alte_libere s = card {k. k < g_alta_pagine s \<and> \<not> alta_test s k}"

definition alto_ok :: "pmm \<Rightarrow> bool" where
  "alto_ok s \<longleftrightarrow>
     (case g_alta s of
        None \<Rightarrow> g_alta_libere s = 0 \<and> g_alta_rif s = None
      | Some m \<Rightarrow> g_alta_pagine s \<le> 8 * length m \<and> g_alta_cursore s < g_alta_pagine s \<and> g_alta_pagine s < 2 ^ 32 \<and>
          g_alta_libere s = of_nat (alte_libere s) \<and>
          (case g_alta_rif s of None \<Rightarrow> True
           | Some rs \<Rightarrow> g_alta_pagine s \<le> length rs \<and> (\<forall>k < g_alta_pagine s. \<not> alta_test s k \<longrightarrow> rs ! k = 0)))"

text \<open>A page, low or high, by its address: whether it is in use, and its reference byte.\<close>

definition in_uso :: "pmm \<Rightarrow> nat \<Rightarrow> bool" where
  "in_uso s a \<longleftrightarrow> a mod PAGE_SIZE = 0 \<and>
     (if a \<ge> GB4 then alta_dentro s a \<and> alta_usata s a else a div PAGE_SIZE < g_total_pages s \<and> page_used s (a div PAGE_SIZE))"

definition byte_rif :: "pmm \<Rightarrow> nat \<Rightarrow> nat" where
  "byte_rif s a =
     (if a \<ge> GB4 then (case g_alta_rif s of None \<Rightarrow> 0 | Some rs \<Rightarrow> unat (rs ! ((a - GB4) div PAGE_SIZE)))
      else unat (rif_basso s (the (g_rif s)) (a div PAGE_SIZE)))"

definition proprietari :: "pmm \<Rightarrow> nat \<Rightarrow> nat" where
  "proprietari s a = (if in_uso s a then 1 + byte_rif s a + peso (fst (g_oltre s)) a else 0)"

definition tavola_sana :: "pmm \<Rightarrow> bool" where
  "tavola_sana s \<longleftrightarrow> oltre_ok (g_oltre s) \<and> (\<forall>a. 0 < peso (fst (g_oltre s)) a \<longrightarrow> in_uso s a \<and> byte_rif s a = 255)"

definition pmm_ok :: "pmm \<Rightarrow> bool" where
  "pmm_ok s \<longleftrightarrow> (\<exists>r. basso_ok s r) \<and> alto_ok s \<and> tavola_sana s"

section \<open>Taking and leaving a low page\<close>

lemma basso_okD:
  assumes "basso_ok s r"
  shows "g_rif s = Some r" "g_total_pages s \<le> 8 * r" "r + g_total_pages s \<le> length (g_bitmap s)" "g_total_pages s \<le> 2 ^ 20"
    "0 < g_total_pages s" "page_used s 0" "g_last_alloc s \<le> g_total_pages s" "g_free_pages s = of_nat (libere s)"
    "g_used_pages s + g_free_pages s = of_nat (g_total_pages s)" "k < g_total_pages s \<Longrightarrow> \<not> page_used s k \<Longrightarrow> rif_basso s r k = 0"
  using assms unfolding basso_ok_def by blast+

lemma basso_cambia:
  assumes b: "basso_ok s r" and f: "g_rif s' = g_rif s" "g_total_pages s' = g_total_pages s" "length (g_bitmap s') = length (g_bitmap s)"
    and "page_used s' 0" "g_last_alloc s' \<le> g_total_pages s" "g_free_pages s' = of_nat (libere s')"
    and u: "g_used_pages s' + g_free_pages s' = g_used_pages s + g_free_pages s"
    and "\<And>k. k < g_total_pages s \<Longrightarrow> \<not> page_used s' k \<Longrightarrow> rif_basso s' r k = 0"
  shows "basso_ok s' r"
  unfolding basso_ok_def f u using assms basso_okD [OF b] by (intro conjI allI impI) simp_all

lemma prendi_sel [simp]:
  "g_rif (prendi_pagina k s) = g_rif s" "g_total_pages (prendi_pagina k s) = g_total_pages s"
  "length (g_bitmap (prendi_pagina k s)) = length (g_bitmap s)" "g_last_alloc (prendi_pagina k s) = g_last_alloc s"
  "g_oltre (prendi_pagina k s) = g_oltre s" "g_alta (prendi_pagina k s) = g_alta s" "g_alta_rif (prendi_pagina k s) = g_alta_rif s"
  "g_alta_pagine (prendi_pagina k s) = g_alta_pagine s" "g_alta_libere (prendi_pagina k s) = g_alta_libere s"
  "g_alta_cursore (prendi_pagina k s) = g_alta_cursore s"
  by (simp_all add: prendi_pagina_def)

lemma libera_sel [simp]:
  "g_rif (libera_bassa k s) = g_rif s" "g_total_pages (libera_bassa k s) = g_total_pages s"
  "length (g_bitmap (libera_bassa k s)) = length (g_bitmap s)"
  "g_oltre (libera_bassa k s) = g_oltre s" "g_alta (libera_bassa k s) = g_alta s" "g_alta_rif (libera_bassa k s) = g_alta_rif s"
  "g_alta_pagine (libera_bassa k s) = g_alta_pagine s" "g_alta_libere (libera_bassa k s) = g_alta_libere s"
  "g_alta_cursore (libera_bassa k s) = g_alta_cursore s"
  by (simp_all add: libera_bassa_def)

lemma basso_div: "basso_ok s r \<Longrightarrow> k < g_total_pages s \<Longrightarrow> k div 8 < r"
  using basso_okD(2) by (intro less_mult_imp_div_less) fastforce

lemma basso_len: "basso_ok s r \<Longrightarrow> k < g_total_pages s \<Longrightarrow> k div 8 < length (g_bitmap s)"
  using basso_div [of s r k] basso_okD(3) [of s r] by simp

lemma page_to_addr_eq: "p < 2 ^ 20 \<Longrightarrow> page_to_addr p = p * PAGE_SIZE"
  by (simp add: page_to_addr_def)

lemma addr_to_page_eq: "a < GB4 \<Longrightarrow> addr_to_page a = a div PAGE_SIZE"
  by (simp add: addr_to_page_def)

lemma libere_lt: "basso_ok s r \<Longrightarrow> libere s < 2 ^ 20"
proof -
  assume b: "basso_ok s r"
  then have "{k. k < g_total_pages s \<and> \<not> page_used s k} \<subseteq> {..<g_total_pages s} - {0}" by (auto simp: basso_ok_def)
  then have "libere s \<le> card ({..<g_total_pages s} - {0})" unfolding libere_def by (rule card_mono [rotated]) simp
  also have "\<dots> = g_total_pages s - 1" using basso_okD(5) [OF b] by simp
  finally show ?thesis using basso_okD(4,5) [OF b] by simp
qed

lemma prendi_basso:
  assumes b: "basso_ok s r" and k: "k < g_total_pages s" "\<not> page_used s k"
  shows "basso_ok (prendi_pagina k s) r"
    and "page_used (prendi_pagina k s) j \<longleftrightarrow> j = k \<or> page_used s j"
    and "rif_basso (prendi_pagina k s) r i = rif_basso s r i"
    and "libere s = Suc (libere (prendi_pagina k s))"
proof -
  have l: "k div 8 < length (g_bitmap s)" by (rule basso_len [OF b k(1)])
  show u: "page_used (prendi_pagina k s) j \<longleftrightarrow> j = k \<or> page_used s j" for j
    using bitmap_test_set [OF l] by (simp add: prendi_pagina_def)
  show i: "rif_basso (prendi_pagina k s) r i = rif_basso s r i" for i
    using bitmap_dietro(1) [of k "r + i"] basso_div [OF b k(1)] by (simp add: prendi_pagina_def)
  show c: "libere s = Suc (libere (prendi_pagina k s))"
    using bm.libere_prendi [OF l k] by (simp add: libere_def prendi_pagina_def)
  show "basso_ok (prendi_pagina k s) r"
  proof (rule basso_cambia [OF b])
    show "page_used (prendi_pagina k s) 0" using basso_okD(6) [OF b] u by simp
    show "g_free_pages (prendi_pagina k s) = of_nat (libere (prendi_pagina k s))"
      using basso_okD(8) [OF b] c by (simp add: prendi_pagina_def [of k s, THEN arg_cong [where f = g_free_pages]])
    show "g_used_pages (prendi_pagina k s) + g_free_pages (prendi_pagina k s) = g_used_pages s + g_free_pages s"
      by (simp add: prendi_pagina_def)
    show "rif_basso (prendi_pagina k s) r j = 0" if "j < g_total_pages s" "\<not> page_used (prendi_pagina k s) j" for j
      using basso_okD(10) [OF b that(1)] that(2) i u by simp
  qed (use basso_okD(7) [OF b] in simp_all)
qed

lemma libera_basso:
  assumes b: "basso_ok s r" and k: "k < g_total_pages s" "page_used s k" "k \<noteq> 0" and z: "rif_basso s r k = 0"
  shows "basso_ok (libera_bassa k s) r"
    and "page_used (libera_bassa k s) j \<longleftrightarrow> j \<noteq> k \<and> page_used s j"
    and "rif_basso (libera_bassa k s) r i = rif_basso s r i"
proof -
  have l: "k div 8 < length (g_bitmap s)" by (rule basso_len [OF b k(1)])
  show u: "page_used (libera_bassa k s) j \<longleftrightarrow> j \<noteq> k \<and> page_used s j" for j
    using bitmap_test_clr [OF l] by (simp add: libera_bassa_def)
  show i: "rif_basso (libera_bassa k s) r i = rif_basso s r i" for i
    using bitmap_dietro(2) [of k "r + i"] basso_div [OF b k(1)] by (simp add: libera_bassa_def)
  have c: "libere (libera_bassa k s) = Suc (libere s)"
    using bm.libere_lascia [OF l k(1,2)] by (simp add: libere_def libera_bassa_def)
  show "basso_ok (libera_bassa k s) r"
  proof (rule basso_cambia [OF b])
    show "page_used (libera_bassa k s) 0" using basso_okD(6) [OF b] u k(3) by simp
    show "g_free_pages (libera_bassa k s) = of_nat (libere (libera_bassa k s))"
      using basso_okD(8) [OF b] c by (simp add: libera_bassa_def [of k s, THEN arg_cong [where f = g_free_pages]])
    show "g_used_pages (libera_bassa k s) + g_free_pages (libera_bassa k s) = g_used_pages s + g_free_pages s"
      by (simp add: libera_bassa_def)
    show "g_last_alloc (libera_bassa k s) \<le> g_total_pages s" using basso_okD(7) [OF b] k(1) by (simp add: libera_bassa_def)
    show "rif_basso (libera_bassa k s) r j = 0" if "j < g_total_pages s" "\<not> page_used (libera_bassa k s) j" for j
      using basso_okD(10) [OF b that(1)] that(2) i u z by auto
  qed simp_all
qed

lemma metti_basso_ok:
  assumes b: "basso_ok s r" and k: "k < g_total_pages s" "page_used s k"
  shows "basso_ok (metti_basso r k v s) r"
    and "j < g_total_pages s \<Longrightarrow> page_used (metti_basso r k v s) j \<longleftrightarrow> page_used s j"
    and "i < g_total_pages s \<Longrightarrow> rif_basso (metti_basso r k v s) r i = (if i = k then v else rif_basso s r i)"
proof -
  show u: "page_used (metti_basso r k v s) j \<longleftrightarrow> page_used s j" if "j < g_total_pages s" for j
    using basso_div [OF b that] by (simp add: bitmap_test_def)
  show i: "rif_basso (metti_basso r k v s) r i = (if i = k then v else rif_basso s r i)" if "i < g_total_pages s" for i
    using b that by (simp add: basso_ok_def nth_list_update)
  have "libere (metti_basso r k v s) = libere s" unfolding libere_def using u by (intro arg_cong [where f = card]) auto
  then show "basso_ok (metti_basso r k v s) r"
    using basso_okD [OF b] u i k by (intro basso_cambia [OF b]) (simp_all, metis)
qed

section \<open>One owner more, one less\<close>

text \<open>What depends on the high pool only.\<close>

definition stessa_alta :: "pmm \<Rightarrow> pmm \<Rightarrow> bool" where
  "stessa_alta s s' \<longleftrightarrow> g_alta s' = g_alta s \<and> g_alta_rif s' = g_alta_rif s \<and> g_alta_pagine s' = g_alta_pagine s \<and>
     g_alta_libere s' = g_alta_libere s \<and> g_alta_cursore s' = g_alta_cursore s"

lemma stessa_alta_ok: "stessa_alta s s' \<Longrightarrow> alto_ok s' \<longleftrightarrow> alto_ok s"
  by (simp add: stessa_alta_def alto_ok_def alte_libere_def split: option.split)

lemma stessa_alta_uso: "stessa_alta s s' \<Longrightarrow> a \<ge> GB4 \<Longrightarrow> in_uso s' a \<longleftrightarrow> in_uso s a"
  by (simp add: stessa_alta_def in_uso_def alta_dentro_def alta_usata_def)

lemma stessa_alta_byte: "stessa_alta s s' \<Longrightarrow> a \<ge> GB4 \<Longrightarrow> byte_rif s' a = byte_rif s a"
  by (simp add: stessa_alta_def byte_rif_def)

lemma in_uso_basso: "q * PAGE_SIZE < GB4 \<Longrightarrow> in_uso s (q * PAGE_SIZE) \<longleftrightarrow> q < g_total_pages s \<and> page_used s q"
  by (simp add: in_uso_def)

lemma in_uso_allineata: "in_uso s a \<Longrightarrow> a = a div PAGE_SIZE * PAGE_SIZE"
  unfolding in_uso_def by (metis add.right_neutral div_mult_mod_eq)

text \<open>It is enough to look at aligned addresses.\<close>

lemma in_uso_bassi:
  assumes "\<And>q. q * PAGE_SIZE < GB4 \<Longrightarrow> in_uso s' (q * PAGE_SIZE) \<longleftrightarrow> P (q * PAGE_SIZE) (in_uso s (q * PAGE_SIZE))"
    and "\<And>a. a mod PAGE_SIZE \<noteq> 0 \<Longrightarrow> \<not> P a False" and "a < GB4"
  shows "in_uso s' a \<longleftrightarrow> P a (in_uso s a)"
proof (cases "a mod PAGE_SIZE = 0")
  case True
  then obtain q where "a = q * PAGE_SIZE" by (metis mod_0_imp_dvd dvd_def mult.commute)
  then show ?thesis using assms(1,3) by simp
next
  case False
  then show ?thesis using assms(2) by (simp add: in_uso_def)
qed

lemma basso_lt: "basso_ok s r \<Longrightarrow> k < g_total_pages s \<Longrightarrow> k * PAGE_SIZE < GB4"
  using basso_okD(4) [of s r] by simp

lemma prendi_uso:
  assumes b: "basso_ok s r" and k: "k < g_total_pages s" "\<not> page_used s k"
  shows "in_uso (prendi_pagina k s) a \<longleftrightarrow> a = k * PAGE_SIZE \<or> in_uso s a"
    and "byte_rif (prendi_pagina k s) a = byte_rif s a"
    and "\<not> in_uso s (k * PAGE_SIZE)" "byte_rif s (k * PAGE_SIZE) = 0" "k \<noteq> 0"
proof -
  have st: "stessa_alta s (prendi_pagina k s)" by (simp add: stessa_alta_def)
  have lt: "k * PAGE_SIZE < GB4" by (rule basso_lt [OF b k(1)])
  note p = prendi_basso [OF b k]
  show "in_uso (prendi_pagina k s) a \<longleftrightarrow> a = k * PAGE_SIZE \<or> in_uso s a"
  proof (cases "a \<ge> GB4")
    case True
    then show ?thesis using stessa_alta_uso [OF st True] lt by auto
  next
    case False
    show ?thesis
    proof (rule in_uso_bassi [where P = "\<lambda>a x. a = k * PAGE_SIZE \<or> x"])
      show "in_uso (prendi_pagina k s) (q * PAGE_SIZE) \<longleftrightarrow> q * PAGE_SIZE = k * PAGE_SIZE \<or> in_uso s (q * PAGE_SIZE)" if "q * PAGE_SIZE < GB4" for q
        using in_uso_basso [OF that] p(2) k(1) by auto
    qed (use False in auto)
  qed
  show "byte_rif (prendi_pagina k s) a = byte_rif s a"
    using p(3) basso_okD(1) [OF b] by (cases "a \<ge> GB4") (simp_all add: byte_rif_def)
  show "\<not> in_uso s (k * PAGE_SIZE)" using k(2) lt by (simp add: in_uso_def)
  show "byte_rif s (k * PAGE_SIZE) = 0" using basso_okD(1,10) [OF b] k lt by (simp add: byte_rif_def)
  show "k \<noteq> 0" using basso_okD(6) [OF b] k(2) by (cases "k = 0") simp_all
qed

lemma prendi_pagina_ok:
  assumes ok: "pmm_ok s" and k: "k < g_total_pages s" "\<not> page_used s k"
  shows "pmm_ok (prendi_pagina k s)" "proprietari (prendi_pagina k s) = (proprietari s)(k * PAGE_SIZE := 1)"
    "proprietari s (k * PAGE_SIZE) = 0" "k \<noteq> 0" "page_to_addr k = k * PAGE_SIZE"
proof -
  obtain r where b: "basso_ok s r" using ok by (auto simp: pmm_ok_def)
  note u = prendi_uso [OF b k]
  have t: "tavola_sana s" and al: "alto_ok s" using ok by (auto simp: pmm_ok_def)
  have st: "stessa_alta s (prendi_pagina k s)" by (simp add: stessa_alta_def)
  have "tavola_sana (prendi_pagina k s)" using t unfolding tavola_sana_def u(1,2) prendi_sel by blast
  then show "pmm_ok (prendi_pagina k s)" using prendi_basso(1) [OF b k] al stessa_alta_ok [OF st] by (auto simp: pmm_ok_def)
  have "peso (fst (g_oltre s)) (k * PAGE_SIZE) = 0" using t u(3) unfolding tavola_sana_def by blast
  then show "proprietari (prendi_pagina k s) = (proprietari s)(k * PAGE_SIZE := 1)"
    using u(3,4) by (auto simp: fun_eq_iff proprietari_def u(1,2))
  show "proprietari s (k * PAGE_SIZE) = 0" using u(3) by (simp add: proprietari_def)
  show "k \<noteq> 0" by (rule u(5))
  show "page_to_addr k = k * PAGE_SIZE" using basso_okD(4) [OF b] k(1) by (simp add: page_to_addr_def)
qed

lemma libera_uso:
  assumes b: "basso_ok s r" and k: "k < g_total_pages s" "page_used s k" "k \<noteq> 0" and z: "rif_basso s r k = 0"
  shows "in_uso (libera_bassa k s) a \<longleftrightarrow> a \<noteq> k * PAGE_SIZE \<and> in_uso s a" "byte_rif (libera_bassa k s) a = byte_rif s a"
proof -
  have st: "stessa_alta s (libera_bassa k s)" by (simp add: stessa_alta_def)
  have lt: "k * PAGE_SIZE < GB4" by (rule basso_lt [OF b k(1)])
  note p = libera_basso [OF b k z]
  show "in_uso (libera_bassa k s) a \<longleftrightarrow> a \<noteq> k * PAGE_SIZE \<and> in_uso s a"
  proof (cases "a \<ge> GB4")
    case True
    then show ?thesis using stessa_alta_uso [OF st True] lt by auto
  next
    case False
    show ?thesis
    proof (rule in_uso_bassi [where P = "\<lambda>a x. a \<noteq> k * PAGE_SIZE \<and> x"])
      show "in_uso (libera_bassa k s) (q * PAGE_SIZE) \<longleftrightarrow> q * PAGE_SIZE \<noteq> k * PAGE_SIZE \<and> in_uso s (q * PAGE_SIZE)" if "q * PAGE_SIZE < GB4" for q
        using in_uso_basso [OF that] p(2) k(1) by auto
    qed (use False in auto)
  qed
  show "byte_rif (libera_bassa k s) a = byte_rif s a"
    using p(3) basso_okD(1) [OF b] by (cases "a \<ge> GB4") (simp_all add: byte_rif_def)
qed

lemma libera_ok:
  assumes ok: "pmm_ok s" and b: "basso_ok s r" and k: "k < g_total_pages s" "page_used s k" "k \<noteq> 0" and z: "rif_basso s r k = 0"
  shows "pmm_ok (libera_bassa k s)" "proprietari (libera_bassa k s) = (proprietari s)(k * PAGE_SIZE := 0)" "proprietari s (k * PAGE_SIZE) = 1"
proof -
  note u = libera_uso [OF b k z]
  have lt: "k * PAGE_SIZE < GB4" by (rule basso_lt [OF b k(1)])
  have t: "tavola_sana s" and al: "alto_ok s" using ok by (auto simp: pmm_ok_def)
  have st: "stessa_alta s (libera_bassa k s)" by (simp add: stessa_alta_def)
  have y: "byte_rif s (k * PAGE_SIZE) = 0" using z lt basso_okD(1) [OF b] by (simp add: byte_rif_def)
  then have pz: "peso (fst (g_oltre s)) (k * PAGE_SIZE) = 0" using t unfolding tavola_sana_def by fastforce
  have "tavola_sana (libera_bassa k s)" using t pz unfolding tavola_sana_def u libera_sel by (metis not_gr_zero)
  then show "pmm_ok (libera_bassa k s)" using libera_basso(1) [OF b k z] al stessa_alta_ok [OF st] by (auto simp: pmm_ok_def)
  show "proprietari (libera_bassa k s) = (proprietari s)(k * PAGE_SIZE := 0)" by (auto simp: fun_eq_iff proprietari_def u)
  show "proprietari s (k * PAGE_SIZE) = 1" using y pz k lt by (simp add: proprietari_def in_uso_def)
qed

text \<open>A step that changes the reference byte and the table entry of one page only.\<close>

lemma cambia_rif:
  assumes ok: "pmm_ok s" and a: "in_uso s a"
    and s': "basso_ok s' r" "alto_ok s'" "oltre_ok (g_oltre s')"
    and u: "\<And>b. in_uso s' b \<longleftrightarrow> in_uso s b" and y: "\<And>b. in_uso s b \<Longrightarrow> byte_rif s' b = (if b = a then v else byte_rif s b)"
    and p: "peso (fst (g_oltre s')) = (peso (fst (g_oltre s)))(a := w)" and w: "0 < w \<Longrightarrow> v = 255"
  shows "pmm_ok s'" "proprietari s' = (proprietari s)(a := 1 + v + w)"
proof -
  have t: "tavola_sana s" using ok by (simp add: pmm_ok_def)
  have "in_uso s b \<and> byte_rif s' b = 255" if "0 < peso (fst (g_oltre s')) b" for b
  proof (cases "b = a")
    case True
    then show ?thesis using that p w a y [OF a] by simp
  next
    case False
    then have "in_uso s b" "byte_rif s b = 255" using that p t by (auto simp: tavola_sana_def)
    then show ?thesis using y False by simp
  qed
  then show "pmm_ok s'" using s' u by (auto simp: pmm_ok_def tavola_sana_def)
  show "proprietari s' = (proprietari s)(a := 1 + v + w)"
    using a y p by (auto simp: fun_eq_iff proprietari_def u)
qed

lemma oltre_sel: "basso_ok (s\<lparr>g_oltre := o1\<rparr>) r \<longleftrightarrow> basso_ok s r" "alto_ok (s\<lparr>g_oltre := o1\<rparr>) \<longleftrightarrow> alto_ok s"
  "in_uso (s\<lparr>g_oltre := o1\<rparr>) a \<longleftrightarrow> in_uso s a" "byte_rif (s\<lparr>g_oltre := o1\<rparr>) a = byte_rif s a"
  by (simp_all add: basso_ok_def libere_def alto_ok_def alte_libere_def in_uso_def alta_dentro_def alta_usata_def byte_rif_def split: option.split)

lemma metti_basso_uso:
  assumes b: "basso_ok s r" and k: "k < g_total_pages s" "page_used s k"
  shows "in_uso (metti_basso r k v s) a \<longleftrightarrow> in_uso s a"
    and "in_uso s a \<Longrightarrow> byte_rif (metti_basso r k v s) a = (if a = k * PAGE_SIZE then unat v else byte_rif s a)"
    and "alto_ok (metti_basso r k v s) \<longleftrightarrow> alto_ok s"
proof -
  have st: "stessa_alta s (metti_basso r k v s)" by (simp add: stessa_alta_def)
  have lt: "k * PAGE_SIZE < GB4" by (rule basso_lt [OF b k(1)])
  note p = metti_basso_ok [OF b k, where v = v]
  show "alto_ok (metti_basso r k v s) \<longleftrightarrow> alto_ok s" by (rule stessa_alta_ok [OF st])
  show "in_uso (metti_basso r k v s) a \<longleftrightarrow> in_uso s a"
  proof (cases "a \<ge> GB4")
    case False
    show ?thesis
    proof (rule in_uso_bassi [where P = "\<lambda>a x. x"])
      show "in_uso (metti_basso r k v s) (q * PAGE_SIZE) \<longleftrightarrow> in_uso s (q * PAGE_SIZE)" if "q * PAGE_SIZE < GB4" for q
        using in_uso_basso [OF that] p(2) by auto
    qed (use False in auto)
  qed (rule stessa_alta_uso [OF st])
  assume i: "in_uso s a"
  show "byte_rif (metti_basso r k v s) a = (if a = k * PAGE_SIZE then unat v else byte_rif s a)"
  proof (cases "a \<ge> GB4")
    case True
    then show ?thesis using lt stessa_alta_byte [OF st True] by simp
  next
    case False
    obtain q where q: "a = q * PAGE_SIZE" using in_uso_allineata [OF i] by blast
    then have "q < g_total_pages s" using i False in_uso_basso by simp
    then show ?thesis using p(3) [of q] basso_okD(1) [OF b] False q by (simp add: byte_rif_def)
  qed
qed

section \<open>High pages\<close>

abbreviation alta_addr :: "nat \<Rightarrow> nat" where
  "alta_addr k \<equiv> GB4 + k * PAGE_SIZE"

lemma alta_addr_sel: "k < 2 ^ 32 \<Longrightarrow> alta_pagina (alta_addr k) = k" "(alta_addr k - GB4) div PAGE_SIZE = k" "alta_addr k mod PAGE_SIZE = 0"
proof -
  have "(alta_addr k - GB4) div PAGE_SIZE = k" by simp
  then show "k < 2 ^ 32 \<Longrightarrow> alta_pagina (alta_addr k) = k" "(alta_addr k - GB4) div PAGE_SIZE = k" by (simp_all only: alta_pagina_def mod_less)
  have "alta_addr k = (1048576 + k) * PAGE_SIZE" by simp
  then show "alta_addr k mod PAGE_SIZE = 0" by (simp only: mod_mult_self2_is_0)
qed

lemma alto_okD:
  assumes "alto_ok s" "g_alta s = Some m"
  shows "g_alta_pagine s \<le> 8 * length m" "g_alta_cursore s < g_alta_pagine s" "g_alta_pagine s < 2 ^ 32" "g_alta_libere s = of_nat (alte_libere s)"
    "g_alta_rif s = Some rs \<Longrightarrow> g_alta_pagine s \<le> length rs"
    "g_alta_rif s = Some rs \<Longrightarrow> k < g_alta_pagine s \<Longrightarrow> \<not> alta_test s k \<Longrightarrow> rs ! k = 0"
    "k < g_alta_pagine s \<Longrightarrow> k div 8 < length m"
proof -
  show l: "g_alta_pagine s \<le> 8 * length m" and "g_alta_cursore s < g_alta_pagine s" "g_alta_pagine s < 2 ^ 32" "g_alta_libere s = of_nat (alte_libere s)"
    "g_alta_rif s = Some rs \<Longrightarrow> g_alta_pagine s \<le> length rs"
    "g_alta_rif s = Some rs \<Longrightarrow> k < g_alta_pagine s \<Longrightarrow> \<not> alta_test s k \<Longrightarrow> rs ! k = 0"
    using assms unfolding alto_ok_def by auto
  show "k < g_alta_pagine s \<Longrightarrow> k div 8 < length m" using l by (intro less_mult_imp_div_less) simp
qed

lemma alto_okI:
  assumes "g_alta s = Some m" "g_alta_pagine s \<le> 8 * length m" "g_alta_cursore s < g_alta_pagine s" "g_alta_pagine s < 2 ^ 32"
    "g_alta_libere s = of_nat (alte_libere s)"
    "\<And>rs. g_alta_rif s = Some rs \<Longrightarrow> g_alta_pagine s \<le> length rs \<and> (\<forall>k < g_alta_pagine s. \<not> alta_test s k \<longrightarrow> rs ! k = 0)"
  shows "alto_ok s"
  using assms unfolding alto_ok_def by (simp split: option.split)

lemma in_uso_alto:
  assumes "alto_ok s"
  shows "in_uso s (alta_addr k) \<longleftrightarrow> g_alta s \<noteq> None \<and> k < g_alta_pagine s \<and> alta_test s k"
proof (cases "g_alta s")
  case (Some m)
  have "k < g_alta_pagine s \<Longrightarrow> alta_pagina (alta_addr k) = k" using alto_okD(3) [OF assms Some] by (intro alta_addr_sel(1)) simp
  then show ?thesis using Some alta_addr_sel(3) [of k] by (auto simp: in_uso_def alta_dentro_def alta_usata_def)
qed (simp add: in_uso_def alta_dentro_def)

lemma alta_aligned: "a \<ge> GB4 \<Longrightarrow> a mod PAGE_SIZE = 0 \<Longrightarrow> \<exists>k. a = alta_addr k"
proof -
  assume "a \<ge> GB4" "a mod PAGE_SIZE = 0"
  then obtain q where "a = q * PAGE_SIZE" "q \<ge> 1048576" by auto
  then have "a = alta_addr (q - 1048576)" by (simp add: diff_mult_distrib)
  then show ?thesis by blast
qed

text \<open>States that differ in the high pool only.\<close>

definition stesso_basso :: "pmm \<Rightarrow> pmm \<Rightarrow> bool" where
  "stesso_basso s s' \<longleftrightarrow> g_bitmap s' = g_bitmap s \<and> g_rif s' = g_rif s \<and> g_total_pages s' = g_total_pages s \<and> g_free_pages s' = g_free_pages s \<and>
     g_used_pages s' = g_used_pages s \<and> g_last_alloc s' = g_last_alloc s \<and> g_oltre s' = g_oltre s"

lemma stesso_basso_ok: "stesso_basso s s' \<Longrightarrow> basso_ok s' r \<longleftrightarrow> basso_ok s r"
  by (simp add: stesso_basso_def basso_ok_def libere_def)

lemma stesso_basso_uso: "stesso_basso s s' \<Longrightarrow> a < GB4 \<Longrightarrow> in_uso s' a \<longleftrightarrow> in_uso s a" "stesso_basso s s' \<Longrightarrow> a < GB4 \<Longrightarrow> byte_rif s' a = byte_rif s a"
  by (simp_all add: stesso_basso_def in_uso_def byte_rif_def)

text \<open>So to compare two such states it is enough to look at the high pages.\<close>

lemma confronta_alti:
  assumes st: "stesso_basso s s'"
    and h: "\<And>k. in_uso s' (alta_addr k) \<longleftrightarrow> P (alta_addr k) (in_uso s (alta_addr k))"
    and l: "\<And>a x. a < GB4 \<Longrightarrow> P a x \<longleftrightarrow> x" and n: "\<And>a. a mod PAGE_SIZE \<noteq> 0 \<Longrightarrow> \<not> P a False"
  shows "in_uso s' a \<longleftrightarrow> P a (in_uso s a)"
proof (cases "a < GB4")
  case True
  then show ?thesis using stesso_basso_uso [OF st] l by simp
next
  case False
  show ?thesis
  proof (cases "a mod PAGE_SIZE = 0")
    case True
    then obtain k where "a = alta_addr k" using alta_aligned [of a] False by (meson not_less)
    then show ?thesis using h by simp
  next
    case False
    then show ?thesis using n by (simp add: in_uso_def)
  qed
qed

lemma metti_alto_ok:
  assumes al: "alto_ok s" and k: "g_alta s = Some m" "g_alta_rif s = Some rs" "k < g_alta_pagine s" "alta_test s k"
  shows "alto_ok (metti_alto k v s)" "in_uso (metti_alto k v s) a \<longleftrightarrow> in_uso s a"
    "in_uso s a \<Longrightarrow> byte_rif (metti_alto k v s) a = (if a = alta_addr k then unat v else byte_rif s a)"
proof -
  note d = alto_okD [OF al k(1)]
  have al2: "alte_libere (metti_alto k v s) = alte_libere s" by (simp add: alte_libere_def)
  show ok: "alto_ok (metti_alto k v s)"
    by (rule alto_okI [where m = m]) (use k d al2 in \<open>auto simp: nth_list_update\<close>)
  show "in_uso (metti_alto k v s) a \<longleftrightarrow> in_uso s a" by (simp add: in_uso_def alta_dentro_def alta_usata_def)
  assume i: "in_uso s a"
  show "byte_rif (metti_alto k v s) a = (if a = alta_addr k then unat v else byte_rif s a)"
  proof (cases "a < GB4")
    case False
    then obtain q where q: "a = alta_addr q" using alta_aligned [of a] i unfolding in_uso_def by (meson not_less)
    then have "q < length rs" using i in_uso_alto [OF al] d(5) [OF k(2)] by simp
    then show ?thesis using k q alta_addr_sel(2) [of q] by (simp add: byte_rif_def nth_list_update)
  qed (simp add: byte_rif_def)
qed

lemma byte_alto_zero:
  assumes "alto_ok s" "g_alta s = Some m" "k < g_alta_pagine s" "\<not> alta_test s k"
  shows "byte_rif s (alta_addr k) = 0"
  using alto_okD(6) [OF assms(1,2) _ assms(3,4)] alta_addr_sel(2) [of k] by (simp add: byte_rif_def split: option.split)

definition alta_prendi :: "nat \<Rightarrow> pmm \<Rightarrow> pmm" where
  "alta_prendi k s = s\<lparr>g_alta := Some (bitmap_set k (the (g_alta s))), g_alta_libere := g_alta_libere s - 1\<rparr>"

definition alta_lascia :: "nat \<Rightarrow> pmm \<Rightarrow> pmm" where
  "alta_lascia k s = s\<lparr>g_alta := Some (bitmap_clr k (the (g_alta s))), g_alta_libere := g_alta_libere s + 1\<rparr>"

lemma alta_prendi_ok:
  assumes ok: "pmm_ok s" and k: "g_alta s = Some m" "k < g_alta_pagine s" "\<not> alta_test s k"
  shows "pmm_ok (alta_prendi k s)" "proprietari (alta_prendi k s) = (proprietari s)(alta_addr k := 1)" "proprietari s (alta_addr k) = 0"
proof -
  have al: "alto_ok s" and t: "tavola_sana s" using ok by (auto simp: pmm_ok_def)
  note d = alto_okD [OF al k(1)]
  have l: "k div 8 < length m" using d(7) k(2) by simp
  let ?s = "alta_prendi k s"
  have te: "alta_test ?s j \<longleftrightarrow> j = k \<or> alta_test s j" for j using bitmap_test_set [OF l] k(1) by (simp add: alta_prendi_def)
  have c: "alte_libere s = Suc (alte_libere ?s)"
    using bm.libere_prendi [of k m "g_alta_pagine s"] l k by (simp add: alte_libere_def alta_prendi_def)
  have al': "alto_ok ?s"
  proof (rule alto_okI [where m = "bitmap_set k m"])
    show "g_alta_libere ?s = of_nat (alte_libere ?s)" using d(4) c by (simp add: alta_prendi_def [of k s, THEN arg_cong [where f = g_alta_libere]])
    show "g_alta_pagine ?s \<le> length rs \<and> (\<forall>k < g_alta_pagine ?s. \<not> alta_test ?s k \<longrightarrow> rs ! k = 0)" if "g_alta_rif ?s = Some rs" for rs
      using d(5,6) [of rs] that te by (simp add: alta_prendi_def)
  qed (use k d in \<open>simp_all add: alta_prendi_def\<close>)
  have st: "stesso_basso s ?s" by (simp add: stesso_basso_def alta_prendi_def)
  have u: "in_uso ?s a \<longleftrightarrow> a = alta_addr k \<or> in_uso s a" for a
  proof (rule confronta_alti [where P = "\<lambda>a x. a = alta_addr k \<or> x", OF st])
    show "in_uso ?s (alta_addr j) \<longleftrightarrow> alta_addr j = alta_addr k \<or> in_uso s (alta_addr j)" for j
      using in_uso_alto [OF al] in_uso_alto [OF al'] te k by (auto simp: alta_prendi_def)
    show "\<And>a. a mod PAGE_SIZE \<noteq> 0 \<Longrightarrow> \<not> (a = alta_addr k \<or> False)" using alta_addr_sel(3) [of k] by auto
  qed simp
  have y: "byte_rif ?s a = byte_rif s a" for a by (simp add: byte_rif_def alta_prendi_def)
  have o: "g_oltre ?s = g_oltre s" by (simp add: alta_prendi_def)
  have n: "\<not> in_uso s (alta_addr k)" using in_uso_alto [OF al] k by simp
  have "tavola_sana ?s" using t unfolding tavola_sana_def u y o by blast
  then show "pmm_ok ?s" using ok al' stesso_basso_ok [OF st] by (auto simp: pmm_ok_def)
  have "peso (fst (g_oltre s)) (alta_addr k) = 0" using t n unfolding tavola_sana_def by blast
  then show "proprietari ?s = (proprietari s)(alta_addr k := 1)"
    using n byte_alto_zero [OF al k] by (auto simp: fun_eq_iff proprietari_def u y o)
  show "proprietari s (alta_addr k) = 0" using n by (simp add: proprietari_def)
qed

lemma alta_lascia_ok:
  assumes ok: "pmm_ok s" and k: "g_alta s = Some m" "k < g_alta_pagine s" "alta_test s k" and z: "byte_rif s (alta_addr k) = 0"
  shows "pmm_ok (alta_lascia k s)" "proprietari (alta_lascia k s) = (proprietari s)(alta_addr k := 0)" "proprietari s (alta_addr k) = 1"
proof -
  have al: "alto_ok s" and t: "tavola_sana s" using ok by (auto simp: pmm_ok_def)
  note d = alto_okD [OF al k(1)]
  have l: "k div 8 < length m" using d(7) k(2) by simp
  let ?s = "alta_lascia k s"
  have te: "alta_test ?s j \<longleftrightarrow> j \<noteq> k \<and> alta_test s j" for j using bitmap_test_clr [OF l] k(1) by (simp add: alta_lascia_def)
  have c: "alte_libere ?s = Suc (alte_libere s)"
    using bm.libere_lascia [of k m "g_alta_pagine s"] l k by (simp add: alte_libere_def alta_lascia_def)
  have al': "alto_ok ?s"
  proof (rule alto_okI [where m = "bitmap_clr k m"])
    show "g_alta_libere ?s = of_nat (alte_libere ?s)" using d(4) c by (simp add: alta_lascia_def [of k s, THEN arg_cong [where f = g_alta_libere]])
    show "g_alta_pagine ?s \<le> length rs \<and> (\<forall>k < g_alta_pagine ?s. \<not> alta_test ?s k \<longrightarrow> rs ! k = 0)" if "g_alta_rif ?s = Some rs" for rs
    proof -
      have r: "g_alta_rif s = Some rs" using that by (simp add: alta_lascia_def)
      then have "rs ! k = 0" using z alta_addr_sel(2) [of k] by (simp add: byte_rif_def unat_eq_0)
      then show ?thesis using d(5,6) [OF r] te by (auto simp: alta_lascia_def)
    qed
  qed (use k d in \<open>simp_all add: alta_lascia_def\<close>)
  have st: "stesso_basso s ?s" by (simp add: stesso_basso_def alta_lascia_def)
  have u: "in_uso ?s a \<longleftrightarrow> a \<noteq> alta_addr k \<and> in_uso s a" for a
  proof (rule confronta_alti [where P = "\<lambda>a x. a \<noteq> alta_addr k \<and> x", OF st])
    show "in_uso ?s (alta_addr j) \<longleftrightarrow> alta_addr j \<noteq> alta_addr k \<and> in_uso s (alta_addr j)" for j
      using in_uso_alto [OF al] in_uso_alto [OF al'] te k by (auto simp: alta_lascia_def)
  qed simp_all
  have y: "byte_rif ?s a = byte_rif s a" for a by (simp add: byte_rif_def alta_lascia_def)
  have o: "g_oltre ?s = g_oltre s" by (simp add: alta_lascia_def)
  have pz: "peso (fst (g_oltre s)) (alta_addr k) = 0" using t z unfolding tavola_sana_def by fastforce
  have "tavola_sana ?s" using t pz unfolding tavola_sana_def u y o by (metis not_gr_zero)
  then show "pmm_ok ?s" using ok al' stesso_basso_ok [OF st] by (auto simp: pmm_ok_def)
  show "proprietari ?s = (proprietari s)(alta_addr k := 0)" by (auto simp: fun_eq_iff proprietari_def u y o)
  have "in_uso s (alta_addr k)" using in_uso_alto [OF al] k by simp
  then show "proprietari s (alta_addr k) = 1" using pz z by (simp add: proprietari_def)
qed

end
