(* ===== verification/Pmm_Ops.thy ===== *)
theory Pmm_Ops
  imports Pmm_Spec
begin

text \<open>
  The operations of the page allocator against the map of the owners of the pages.
\<close>

section \<open>One owner less\<close>

lemma tavola_di: "pmm_ok s \<Longrightarrow> oltre_ok (g_oltre s)"
  by (simp add: pmm_ok_def tavola_sana_def)

lemma tavola_piena: "pmm_ok s \<Longrightarrow> 0 < peso (fst (g_oltre s)) a \<Longrightarrow> in_uso s a \<and> byte_rif s a = 255"
  by (simp add: pmm_ok_def tavola_sana_def)

text \<open>The byte loses one, unless the table had it: both pools do this with a page whose byte is not zero.\<close>

lemma un_proprietario_meno:
  assumes ok: "pmm_ok s" and a: "in_uso s a" "a \<noteq> 0" "0 < byte_rif s a"
    and f: "oltre_togli a (g_oltre s) = (t, o1)"
    and s1: "basso_ok (s1\<lparr>g_oltre := o1\<rparr>) r" "alto_ok s1" "\<And>b. in_uso s1 b \<longleftrightarrow> in_uso s b"
      "\<And>b. in_uso s b \<Longrightarrow> byte_rif s1 b = (if b = a then (if t then byte_rif s a else byte_rif s a - 1) else byte_rif s b)"
  shows "pmm_ok (s1\<lparr>g_oltre := o1\<rparr>)" "proprietari (s1\<lparr>g_oltre := o1\<rparr>) = (proprietari s)(a := proprietari s a - 1)"
proof -
  let ?p = "peso (fst (g_oltre s))"
  note ok2 = tavola_di [OF ok]
  have t: "t \<longleftrightarrow> 0 < ?p a" "peso (fst o1) = ?p(a := ?p a - 1)" "oltre_ok o1"
    using oltre.tog_si [OF ok2 a(2)] oltre.tog_conta [OF ok2 a(2)] oltre.tog_ok [OF ok2 a(2)] f by simp_all
  let ?v = "if t then byte_rif s a else byte_rif s a - 1"
  have w: "0 < ?p a - 1 \<Longrightarrow> ?v = 255" using t(1) tavola_piena [OF ok, of a] by simp
  note c = cambia_rif [OF ok a(1), where s' = "s1\<lparr>g_oltre := o1\<rparr>" and r = r and v = ?v and w = "?p a - 1"]
  have r: "pmm_ok (s1\<lparr>g_oltre := o1\<rparr>)" "proprietari (s1\<lparr>g_oltre := o1\<rparr>) = (proprietari s)(a := 1 + ?v + (?p a - 1))"
    by (rule c; use s1 t(2,3) w in \<open>simp add: oltre_sel\<close>)+
  then show "pmm_ok (s1\<lparr>g_oltre := o1\<rparr>)" by simp
  have "1 + ?v + (?p a - 1) = proprietari s a - 1" using a t(1) by (auto simp: proprietari_def)
  then show "proprietari (s1\<lparr>g_oltre := o1\<rparr>) = (proprietari s)(a := proprietari s a - 1)" using r(2) by simp
qed

lemma rif_alto_Some:
  assumes al: "alto_ok s"
  shows "rif_alto s (alta_addr k) = (if in_uso s (alta_addr k) \<and> g_alta_rif s \<noteq> None then Some k else None)"
  unfolding rif_alto_def in_uso_def using alta_addr_sel(2,3) [of k] by auto

lemma in_uso_alto_Some:
  assumes "alto_ok s" "in_uso s (alta_addr k)"
  obtains m where "g_alta s = Some m" "k < g_alta_pagine s" "alta_test s k" "alta_pagina (alta_addr k) = k"
  using assms in_uso_alto [OF assms(1), of k] alto_okD(3) [OF assms(1)] alta_addr_sel(1) [of k] by auto

lemma free_alta:
  assumes ok: "pmm_ok s"
  shows "pmm_ok (pmm_free_page (alta_addr k) s) \<and>
    proprietari (pmm_free_page (alta_addr k) s) = (proprietari s)(alta_addr k := proprietari s (alta_addr k) - 1)"
proof -
  let ?a = "alta_addr k"
  have al: "alto_ok s" using ok by (simp add: pmm_ok_def)
  note ra = rif_alto_Some [OF al, of k]
  show ?thesis
  proof (cases "in_uso s ?a")
    case False
    then have p: "proprietari s ?a = 0" by (simp add: proprietari_def)
    have "alta_dentro s ?a \<longrightarrow> \<not> alta_test s (alta_pagina ?a)" using False alta_addr_sel(3) [of k] by (auto simp: in_uso_def alta_usata_def)
    then have "pmm_free_page ?a s = s" using ra False by (simp add: pmm_free_page_def alta_libera_def Let_def)
    then show ?thesis using ok p by (simp add: fun_upd_idem)
  next
    case True
    then obtain m where m: "g_alta s = Some m" "k < g_alta_pagine s" "alta_test s k" "alta_pagina ?a = k"
      by (rule in_uso_alto_Some [OF al])
    have de: "alta_dentro s ?a" using True by (simp add: in_uso_def)
    have li: "alta_libera ?a s = alta_lascia k s" using m by (simp add: alta_libera_def alta_lascia_def)
    show ?thesis
    proof (cases "byte_rif s ?a = 0")
      case z: True
      have "pmm_free_page ?a s = alta_lascia k s"
        using z ra True de li alta_addr_sel(2) [of k] by (auto simp: pmm_free_page_def byte_rif_def unat_eq_0 split: option.splits)
      then show ?thesis using alta_lascia_ok [OF ok m(1-3) z] by simp
    next
      case nz: False
      obtain rs where rs: "g_alta_rif s = Some rs" "byte_rif s ?a = unat (rs ! k)"
        using nz alta_addr_sel(2) [of k] by (auto simp: byte_rif_def split: option.splits)
      obtain t o1 where f: "oltre_togli ?a (g_oltre s) = (t, o1)" by (cases "oltre_togli ?a (g_oltre s)")
      let ?s1 = "if t then s else metti_alto k (rs ! k - 1) s"
      have pos: "rs ! k > 0" "unat (rs ! k - 1) = unat (rs ! k) - 1" using nz rs by (auto simp: unat_eq_0 unat_minus_one word_neq_0_conv)
      have e: "pmm_free_page ?a s = ?s1\<lparr>g_oltre := o1\<rparr>"
        using ra True de rs f pos(1) by (simp add: pmm_free_page_def)
      obtain r where b: "basso_ok s r" using ok by (auto simp: pmm_ok_def)
      note h = metti_alto_ok [OF al m(1) rs(1) m(2,3), where v = "rs ! k - 1"]
      have "basso_ok (metti_alto k (rs ! k - 1) s) r" using b stesso_basso_ok [of s "metti_alto k (rs ! k - 1) s" r] by (simp add: stesso_basso_def)
      then have "pmm_ok (?s1\<lparr>g_oltre := o1\<rparr>) \<and> proprietari (?s1\<lparr>g_oltre := o1\<rparr>) = (proprietari s)(?a := proprietari s ?a - 1)"
        using b al h nz rs pos(2) by (intro conjI un_proprietario_meno [OF ok True _ _ f, where r = r]) (auto simp: oltre_sel)
      then show ?thesis using e by simp
    qed
  qed
qed

lemma free_bassa:
  assumes ok: "pmm_ok s" and q: "q * PAGE_SIZE < GB4" "q \<noteq> 0"
  shows "pmm_ok (pmm_free_page (q * PAGE_SIZE) s) \<and>
    proprietari (pmm_free_page (q * PAGE_SIZE) s) = (proprietari s)(q * PAGE_SIZE := proprietari s (q * PAGE_SIZE) - 1)"
proof -
  let ?a = "q * PAGE_SIZE"
  obtain r where b: "basso_ok s r" using ok by (auto simp: pmm_ok_def)
  have rif: "g_rif s = Some r" by (rule basso_okD(1) [OF b])
  have pg: "addr_to_page ?a = q" using q(1) by (simp add: addr_to_page_eq)
  have free: "pmm_free_page ?a s =
      (if q \<ge> g_total_pages s \<or> \<not> page_used s q then s
       else if rif_basso s r q > 0
       then (case oltre_togli ?a (g_oltre s) of (t, o1) \<Rightarrow>
              (if t then s\<lparr>g_oltre := o1\<rparr> else metti_basso r q (rif_basso s r q - 1) (s\<lparr>g_oltre := o1\<rparr>)))
       else libera_bassa q s)"
    using q pg rif by (simp add: pmm_free_page_def Let_def)
  show ?thesis
  proof (cases "in_uso s ?a")
    case False
    then have "q \<ge> g_total_pages s \<or> \<not> page_used s q" using in_uso_basso [OF q(1)] by auto
    then show ?thesis using ok False unfolding free by (simp add: proprietari_def fun_upd_idem)
  next
    case True
    then have k: "q < g_total_pages s" "page_used s q" using in_uso_basso [OF q(1)] by auto
    have y: "byte_rif s ?a = unat (rif_basso s r q)" using q(1) rif by (simp add: byte_rif_def)
    show ?thesis
    proof (cases "rif_basso s r q = 0")
      case z: True
      then show ?thesis using libera_ok [OF ok b k q(2) z] k unfolding free by simp
    next
      case nz: False
      let ?v = "rif_basso s r q - 1"
      obtain t o1 where f: "oltre_togli ?a (g_oltre s) = (t, o1)" by (cases "oltre_togli ?a (g_oltre s)")
      let ?s1 = "if t then s else metti_basso r q ?v s"
      have pos: "rif_basso s r q > 0" "unat ?v = unat (rif_basso s r q) - 1" using nz by (simp_all add: unat_minus_one word_neq_0_conv)
      have bp: "0 < byte_rif s ?a" using y nz by (metis gr0I unat_eq_zero)
      have e: "pmm_free_page ?a s = ?s1\<lparr>g_oltre := o1\<rparr>" using k f pos(1) unfolding free by simp
      note h = metti_basso_uso [OF b k, where v = ?v] metti_basso_ok(1) [OF b k, where v = ?v]
      have al: "alto_ok s" using ok by (simp add: pmm_ok_def)
      have "pmm_ok (?s1\<lparr>g_oltre := o1\<rparr>) \<and> proprietari (?s1\<lparr>g_oltre := o1\<rparr>) = (proprietari s)(?a := proprietari s ?a - 1)"
        using b al h bp y pos(2) q(2) by (intro conjI un_proprietario_meno [OF ok True _ _ f, where r = r]) (auto simp: oltre_sel)
      then show ?thesis using e by simp
    qed
  qed
qed

text \<open>Freeing an aligned address takes one owner off the page, and a page nobody owns stays free.\<close>

lemma pmm_free_page_spec:
  assumes ok: "pmm_ok s" and a: "a \<noteq> 0" "a mod PAGE_SIZE = 0"
  shows "pmm_ok (pmm_free_page a s) \<and> proprietari (pmm_free_page a s) = (proprietari s)(a := proprietari s a - 1)"
proof (cases "a \<ge> GB4")
  case True
  then obtain k where "a = alta_addr k" using alta_aligned [OF True a(2)] by auto
  then show ?thesis using free_alta [OF ok] by simp
next
  case False
  obtain q where q: "a = q * PAGE_SIZE" using a(2) by (metis mod_0_imp_dvd dvd_def mult.commute)
  then show ?thesis using free_bassa [OF ok, of q] a(1) False by simp
qed

section \<open>One owner more\<close>

lemma un_proprietario_piu:
  assumes ok: "pmm_ok s" and a: "in_uso s a" "a \<noteq> 0" "byte_rif s a \<noteq> 255"
    and s1: "basso_ok s1 r" "alto_ok s1" "g_oltre s1 = g_oltre s" "\<And>b. in_uso s1 b \<longleftrightarrow> in_uso s b"
      "\<And>b. in_uso s b \<Longrightarrow> byte_rif s1 b = (if b = a then byte_rif s a + 1 else byte_rif s b)"
  shows "pmm_ok s1" "proprietari s1 = (proprietari s)(a := proprietari s a + 1)"
proof -
  have z: "peso (fst (g_oltre s)) a = 0" using tavola_piena [OF ok, of a] a(3) by auto
  note c = cambia_rif [OF ok a(1), where s' = s1 and r = r and v = "byte_rif s a + 1" and w = 0]
  have r: "pmm_ok s1" "proprietari s1 = (proprietari s)(a := 1 + (byte_rif s a + 1) + 0)"
    by (rule c; use s1 z tavola_di [OF ok] in \<open>simp add: fun_upd_idem\<close>)+
  then show "pmm_ok s1" "proprietari s1 = (proprietari s)(a := proprietari s a + 1)" using a(1) z by (simp_all add: proprietari_def)
qed

text \<open>Past the byte the reference goes to the table.\<close>

lemma un_proprietario_oltre:
  assumes ok: "pmm_ok s" and a: "in_uso s a" "a \<noteq> 0" "byte_rif s a = 255"
    and f: "oltre_aggiungi mem a (g_oltre s) = (t, o1)"
  shows "pmm_ok (s\<lparr>g_oltre := o1\<rparr>)" "proprietari (s\<lparr>g_oltre := o1\<rparr>) = (if t then (proprietari s)(a := proprietari s a + 1) else proprietari s)"
    "\<not> t \<Longrightarrow> o1 = g_oltre s" "mem \<Longrightarrow> proprietari s a < 2 ^ 32 \<Longrightarrow> t"
proof -
  let ?p = "peso (fst (g_oltre s))"
  note ok2 = tavola_di [OF ok]
  have o: "oltre_ok o1" "t \<Longrightarrow> peso (fst o1) = ?p(a := Suc (?p a))" "mem \<Longrightarrow> ?p a < 2 ^ 32 - 1 \<Longrightarrow> t"
    using oltre.agg_ok [OF ok2 a(2), of mem] oltre.agg_si [OF ok2 a(2), of mem] oltre.agg_mem [OF ok2 a(2)] f by auto
  show n: "\<not> t \<Longrightarrow> o1 = g_oltre s" using oltre.agg_no [OF ok2 a(2), of mem] f by simp
  show "mem \<Longrightarrow> proprietari s a < 2 ^ 32 \<Longrightarrow> t" using o(3) a by (simp add: proprietari_def)
  obtain r where b: "basso_ok s r" and al: "alto_ok s" using ok by (auto simp: pmm_ok_def)
  show "pmm_ok (s\<lparr>g_oltre := o1\<rparr>)" "proprietari (s\<lparr>g_oltre := o1\<rparr>) = (if t then (proprietari s)(a := proprietari s a + 1) else proprietari s)"
  proof (atomize (full), cases t)
    case True
    note c = cambia_rif [OF ok a(1), where s' = "s\<lparr>g_oltre := o1\<rparr>" and r = r and v = 255 and w = "Suc (?p a)"]
    have "pmm_ok (s\<lparr>g_oltre := o1\<rparr>)" "proprietari (s\<lparr>g_oltre := o1\<rparr>) = (proprietari s)(a := 1 + 255 + Suc (?p a))"
      by (rule c; use b al o True a(3) in \<open>simp add: oltre_sel\<close>)+
    moreover have e: "1 + 255 + Suc (?p a) = proprietari s a + 1" using a by (simp add: proprietari_def)
    ultimately show "pmm_ok (s\<lparr>g_oltre := o1\<rparr>) \<and> proprietari (s\<lparr>g_oltre := o1\<rparr>) = (if t then (proprietari s)(a := proprietari s a + 1) else proprietari s)"
      using True unfolding e by simp
  qed (use n ok in simp)
qed

text \<open>The whole of \<^verbatim>\<open>pmm_ref_inc\<close>: it adds an owner to a page that has some, or changes nothing. It is not refused when the
  heap has memory for the table, the page can be counted and has less than \<open>2 ^ 32\<close> owners.\<close>

definition contabile :: "pmm \<Rightarrow> nat \<Rightarrow> bool" where
  "contabile s a \<longleftrightarrow> a < GB4 \<or> g_alta_rif s \<noteq> None"

lemma byte_inc: "(b :: u8) < 255 \<Longrightarrow> unat (b + 1) = unat b + 1"
  by (simp add: word_less_nat_alt unat_word_ariths)

lemma byte_pieno: "\<not> (b :: u8) < 255 \<Longrightarrow> unat b = 255"
proof -
  assume "\<not> b < 255"
  moreover have "unat b < 2 ^ LENGTH(8)" by (rule unsigned_less)
  ultimately show ?thesis by (simp add: word_less_nat_alt)
qed

lemma ref_inc_alta:
  assumes ok: "pmm_ok s" and f: "pmm_ref_inc mem (alta_addr k) s = (t, s')"
  defines "a \<equiv> alta_addr k"
  shows "pmm_ok s' \<and> (if t then in_uso s a \<and> proprietari s' = (proprietari s)(a := proprietari s a + 1) else s' = s) \<and>
    (mem \<and> in_uso s a \<and> contabile s a \<and> proprietari s a < 2 ^ 32 \<longrightarrow> t)"
proof -
  obtain r where al: "alto_ok s" and b: "basso_ok s r" using ok by (auto simp: pmm_ok_def)
  have a: "a \<noteq> 0" "a \<ge> GB4" by (simp_all add: a_def)
  have ra: "rif_alto s a = (if in_uso s a \<and> g_alta_rif s \<noteq> None then Some k else None)" unfolding a_def by (rule rif_alto_Some [OF al])
  show ?thesis
  proof (cases "in_uso s a \<and> g_alta_rif s \<noteq> None")
    case False
    then have "t = False" "s' = s" using f a ra by (simp_all add: pmm_ref_inc_def a_def Let_def split: if_splits)
    then show ?thesis using ok False a by (auto simp: contabile_def)
  next
    case True
    then obtain rs where rs: "g_alta_rif s = Some rs" and u: "in_uso s a" by auto
    obtain m where m: "g_alta s = Some m" "k < g_alta_pagine s" "alta_test s k"
      by (rule in_uso_alto_Some [OF al u [unfolded a_def]])
    have y: "byte_rif s a = unat (rs ! k)" using rs alta_addr_sel(2) [of k] by (simp add: byte_rif_def a_def)
    obtain t1 o1 where o1: "oltre_aggiungi mem a (g_oltre s) = (t1, o1)" by (cases "oltre_aggiungi mem a (g_oltre s)")
    have e: "(t, s') = (if rs ! k < 255 then (True, metti_alto k (rs ! k + 1) s) else (t1, s\<lparr>g_oltre := o1\<rparr>))"
      using f ra u rs a o1 unfolding a_def by (simp add: pmm_ref_inc_def Let_def)
    show ?thesis
    proof (cases "rs ! k < 255")
      case l: True
      note h = metti_alto_ok [OF al m(1) rs m(2,3), where v = "rs ! k + 1"]
      have n: "unat (rs ! k + 1) = unat (rs ! k) + 1" using l by (rule byte_inc)
      have nf: "byte_rif s a \<noteq> 255" using l y by (simp add: word_less_nat_alt)
      have bs: "basso_ok (metti_alto k (rs ! k + 1) s) r"
        using b stesso_basso_ok [of s "metti_alto k (rs ! k + 1) s" r] by (simp add: stesso_basso_def)
      have "pmm_ok (metti_alto k (rs ! k + 1) s) \<and> proprietari (metti_alto k (rs ! k + 1) s) = (proprietari s)(a := proprietari s a + 1)"
        using h n y bs by (intro conjI un_proprietario_piu [OF ok u a(1) nf, where r = r]) (auto simp: a_def)
      then show ?thesis using e l u by simp
    next
      case ge: False
      have "byte_rif s a = 255" using ge y byte_pieno by simp
      note h = un_proprietario_oltre [OF ok u a(1) this o1]
      show ?thesis using e ge h u by auto
    qed
  qed
qed

lemma ref_inc_bassa:
  assumes ok: "pmm_ok s" and q: "q * PAGE_SIZE < GB4" "q \<noteq> 0" and f: "pmm_ref_inc mem (q * PAGE_SIZE) s = (t, s')"
  defines "a \<equiv> q * PAGE_SIZE"
  shows "pmm_ok s' \<and> (if t then in_uso s a \<and> proprietari s' = (proprietari s)(a := proprietari s a + 1) else s' = s) \<and>
    (mem \<and> in_uso s a \<and> contabile s a \<and> proprietari s a < 2 ^ 32 \<longrightarrow> t)"
proof -
  obtain r where al: "alto_ok s" and b: "basso_ok s r" using ok by (auto simp: pmm_ok_def)
  have a: "a \<noteq> 0" "a < GB4" using q by (simp_all add: a_def)
  have rif: "g_rif s = Some r" by (rule basso_okD(1) [OF b])
  have pg: "addr_to_page a = q" using q(1) by (simp add: addr_to_page_eq a_def)
  obtain t1 o1 where o1: "oltre_aggiungi mem a (g_oltre s) = (t1, o1)" by (cases "oltre_aggiungi mem a (g_oltre s)")
  have e: "(t, s') = (if q \<ge> g_total_pages s \<or> \<not> page_used s q then (False, s)
      else if rif_basso s r q < 255 then (True, metti_basso r q (rif_basso s r q + 1) s) else (t1, s\<lparr>g_oltre := o1\<rparr>))"
    using f a(2) rif pg o1 unfolding a_def pmm_ref_inc_def Let_def by (auto split: if_splits)
  show ?thesis
  proof (cases "in_uso s a")
    case False
    then have "q \<ge> g_total_pages s \<or> \<not> page_used s q" using in_uso_basso [OF q(1)] by (auto simp: a_def)
    then show ?thesis using e ok False by simp
  next
    case u: True
    then have k: "q < g_total_pages s" "page_used s q" using in_uso_basso [OF q(1)] by (auto simp: a_def)
    have y: "byte_rif s a = unat (rif_basso s r q)" using q(1) rif by (simp add: byte_rif_def a_def)
    show ?thesis
    proof (cases "rif_basso s r q < 255")
      case l: True
      let ?s = "metti_basso r q (rif_basso s r q + 1) s"
      note h = metti_basso_uso [OF b k, where v = "rif_basso s r q + 1"] metti_basso_ok(1) [OF b k, where v = "rif_basso s r q + 1"]
      have nf: "byte_rif s a \<noteq> 255" using l y by (simp add: word_less_nat_alt)
      have "pmm_ok ?s \<and> proprietari ?s = (proprietari s)(a := proprietari s a + 1)"
        using h byte_inc [OF l] y al by (intro conjI un_proprietario_piu [OF ok u a(1) nf, where r = r]) (auto simp: a_def)
      then show ?thesis using e l u k by simp
    next
      case ge: False
      have "byte_rif s a = 255" using ge y byte_pieno by simp
      note h = un_proprietario_oltre [OF ok u a(1) this o1]
      show ?thesis using e ge h u k by auto
    qed
  qed
qed

lemma pmm_ref_inc_spec:
  assumes ok: "pmm_ok s" and a: "a \<noteq> 0" and f: "pmm_ref_inc mem a s = (t, s')"
  shows "pmm_ok s' \<and> (if t then in_uso s a \<and> proprietari s' = (proprietari s)(a := proprietari s a + 1) else s' = s) \<and>
    (mem \<and> in_uso s a \<and> contabile s a \<and> proprietari s a < 2 ^ 32 \<longrightarrow> t)"
proof (cases "a mod PAGE_SIZE = 0")
  case False
  then have "t = False" "s' = s" "\<not> in_uso s a"
    using f by (auto simp: pmm_ref_inc_def rif_alto_def in_uso_def Let_def split: if_splits option.splits)
  then show ?thesis using ok by simp
next
  case True
  show ?thesis
  proof (cases "a \<ge> GB4")
    case h: True
    then obtain k where k: "a = alta_addr k" using alta_aligned [OF h True] by auto
    show ?thesis using ref_inc_alta [OF ok f [unfolded k]] unfolding k .
  next
    case False
    obtain q where q: "a = q * PAGE_SIZE" using True by (metis mod_0_imp_dvd dvd_def mult.commute)
    then have "q * PAGE_SIZE < GB4" "q \<noteq> 0" using a False by simp_all
    then show ?thesis using ref_inc_bassa [OF ok _ _ f [unfolded q]] unfolding q by blast
  qed
qed

section \<open>How many owners\<close>

lemma in_tavola_peso:
  assumes "pmm_ok s"
  shows "in_tavola a s = peso (fst (g_oltre s)) a"
proof (cases "a = 0")
  case True
  have "trova_da f t 0 i = None" for f t i by (induction f arbitrary: i) auto
  then have "oltre_trova (fst (g_oltre s)) 0 = None" by (simp add: oltre_trova_def)
  then show ?thesis using True by (simp add: in_tavola_def)
next
  case False
  then show ?thesis using oltre_trova_peso [of "fst (g_oltre s)" "snd (g_oltre s)" a] tavola_di [OF assms]
    by (auto simp: in_tavola_def split: option.splits)
qed

lemma pmm_ref_count_spec:
  assumes ok: "pmm_ok s" and a: "a mod PAGE_SIZE = 0"
  shows "pmm_ref_count a s = proprietari s a mod 2 ^ 32"
proof -
  obtain r where al: "alto_ok s" and b: "basso_ok s r" using ok by (auto simp: pmm_ok_def)
  have tab: "(if unat y = 255 then in_tavola a s else 0) = peso (fst (g_oltre s)) a" if "byte_rif s a = unat y" for y :: u8
    using in_tavola_peso [OF ok] tavola_piena [OF ok, of a] that by auto
  have full: "y = 255 \<longleftrightarrow> unat y = 255" for y :: u8 by (simp add: word_unat_eq_iff)
  show ?thesis
  proof (cases "a \<ge> GB4")
    case True
    then obtain k where k: "a = alta_addr k" using alta_aligned [OF True a] by auto
    have ra: "rif_alto s a = (if in_uso s a \<and> g_alta_rif s \<noteq> None then Some k else None)" unfolding k by (rule rif_alto_Some [OF al])
    show ?thesis
    proof (cases "in_uso s a \<and> g_alta_rif s \<noteq> None")
      case False
      have "peso (fst (g_oltre s)) a = 0" if "g_alta_rif s = None"
        using tavola_piena [OF ok, of a] that True by (auto simp: byte_rif_def)
      then show ?thesis using False True a ra unfolding pmm_ref_count_def proprietari_def
        by (auto simp: in_uso_def byte_rif_def)
    next
      case u: True
      then obtain rs where rs: "g_alta_rif s = Some rs" by auto
      have y: "byte_rif s a = unat (rs ! k)" using rs alta_addr_sel(2) [of k] k by (simp add: byte_rif_def)
      show ?thesis using True u ra rs y tab [OF y] unfolding pmm_ref_count_def proprietari_def by (simp add: full Let_def)
    qed
  next
    case False
    obtain q where q: "a = q * PAGE_SIZE" using a by (metis mod_0_imp_dvd dvd_def mult.commute)
    have lt: "q * PAGE_SIZE < GB4" using False q by simp
    have pg: "addr_to_page a = q" using lt by (simp add: addr_to_page_eq q)
    have y: "byte_rif s a = unat (rif_basso s r q)" using lt basso_okD(1) [OF b] q by (simp add: byte_rif_def)
    have u: "in_uso s a \<longleftrightarrow> q < g_total_pages s \<and> page_used s q" using in_uso_basso [OF lt] q by simp
    show ?thesis using False pg basso_okD(1) [OF b] u y tab [OF y] unfolding pmm_ref_count_def proprietari_def by (simp add: full Let_def)
  qed
qed

end
