(* ===== verification/Pmm_Alloc.thy ===== *)
theory Pmm_Alloc
  imports Pmm_Ops
begin

text \<open>
  Allocation of physical pages: first fit, next fit, the band of the kernel kept for last, contiguous blocks, high pages
  for programs.
\<close>

section \<open>One page\<close>

lemma prima_libera_Some:
  assumes "prima_libera s a b = Some i"
  shows "a \<le> i" "i < b" "\<not> page_used s i"
  using assms by (auto simp: prima_libera_def find_Some_iff nth_append)

lemma prima_libera_None: "prima_libera s a b = None \<longleftrightarrow> (\<forall>i. a \<le> i \<and> i < b \<longrightarrow> page_used s i)"
  by (auto simp: prima_libera_def find_None_iff)

lemma suggerimento_ok:
  assumes "pmm_ok s" "n \<le> g_total_pages s"
  shows "pmm_ok (s\<lparr>g_last_alloc := n\<rparr>)" "proprietari (s\<lparr>g_last_alloc := n\<rparr>) = proprietari s"
    "pmm_ok (s\<lparr>g_last_alloc_k := k\<rparr>)" "proprietari (s\<lparr>g_last_alloc_k := k\<rparr>) = proprietari s"
proof -
  have e: "alto_ok (s\<lparr>g_last_alloc := n\<rparr>) = alto_ok s" "alto_ok (s\<lparr>g_last_alloc_k := k\<rparr>) = alto_ok s"
    "in_uso (s\<lparr>g_last_alloc := n\<rparr>) = in_uso s" "in_uso (s\<lparr>g_last_alloc_k := k\<rparr>) = in_uso s"
    "byte_rif (s\<lparr>g_last_alloc := n\<rparr>) = byte_rif s" "byte_rif (s\<lparr>g_last_alloc_k := k\<rparr>) = byte_rif s"
    by (simp_all add: fun_eq_iff alto_ok_def alte_libere_def in_uso_def alta_dentro_def alta_usata_def byte_rif_def split: option.split)
  have "basso_ok (s\<lparr>g_last_alloc := n\<rparr>) r" "basso_ok (s\<lparr>g_last_alloc_k := k\<rparr>) r" if "basso_ok s r" for r
    using basso_okD [OF that] assms(2) by (intro basso_cambia [OF that]; simp add: libere_def)+
  then show "pmm_ok (s\<lparr>g_last_alloc := n\<rparr>)" "pmm_ok (s\<lparr>g_last_alloc_k := k\<rparr>)"
    using assms(1) e unfolding pmm_ok_def tavola_sana_def by auto
  show "proprietari (s\<lparr>g_last_alloc := n\<rparr>) = proprietari s" "proprietari (s\<lparr>g_last_alloc_k := k\<rparr>) = proprietari s"
    by (simp_all add: fun_eq_iff proprietari_def e)
qed

text \<open>A page was handed out: nobody owned it, now it has one owner and nothing else changed hands.\<close>

definition consegnata :: "pmm \<Rightarrow> nat \<Rightarrow> pmm \<Rightarrow> bool" where
  "consegnata s a s' \<longleftrightarrow> pmm_ok s' \<and> a \<noteq> 0 \<and> a mod PAGE_SIZE = 0 \<and> pmm_e_ram s a \<and> proprietari s a = 0 \<and>
     proprietari s' = (proprietari s)(a := 1)"

lemma prendi_consegnata:
  assumes ok: "pmm_ok s" and k: "k < g_total_pages s" "\<not> page_used s k"
  shows "consegnata s (page_to_addr k) (prendi_pagina k s)"
    "consegnata s (page_to_addr k) ((prendi_pagina k s)\<lparr>g_last_alloc := k + 1\<rparr>)"
    "consegnata s (page_to_addr k) ((prendi_pagina k s)\<lparr>g_last_alloc_k := n\<rparr>)"
proof -
  obtain r where "basso_ok s r" using ok by (auto simp: pmm_ok_def)
  then have lt: "k * PAGE_SIZE < GB4" by (rule basso_lt [OF _ k(1)])
  note p = prendi_pagina_ok [OF ok k]
  then show c: "consegnata s (page_to_addr k) (prendi_pagina k s)"
    using k(1) lt by (simp add: consegnata_def pmm_e_ram_def)
  then have "pmm_ok (prendi_pagina k s)" by (simp add: consegnata_def)
  note s = suggerimento_ok [OF this, where n = "k + 1"]
  show "consegnata s (page_to_addr k) ((prendi_pagina k s)\<lparr>g_last_alloc := k + 1\<rparr>)"
    "consegnata s (page_to_addr k) ((prendi_pagina k s)\<lparr>g_last_alloc_k := n\<rparr>)"
    using c s k(1) by (simp_all add: consegnata_def)
qed

lemma limite_le: "pmm_limite_kernel s \<le> g_total_pages s"
  by (simp add: pmm_limite_kernel_def Let_def)

lemma libere_unat: "basso_ok s r \<Longrightarrow> unat (g_free_pages s) = libere s"
  using basso_okD(8) [of s r] libere_lt [of s r] by (simp add: unsigned_of_nat take_bit_nat_eq_self)

lemma libere_zero:
  assumes "pmm_ok s"
  shows "g_free_pages s = 0 \<longleftrightarrow> (\<forall>k < g_total_pages s. page_used s k)"
proof -
  obtain r where b: "basso_ok s r" using assms by (auto simp: pmm_ok_def)
  have "g_free_pages s = 0 \<longleftrightarrow> libere s = 0" using libere_unat [OF b] unat_eq_zero by metis
  also have "\<dots> \<longleftrightarrow> (\<forall>k < g_total_pages s. page_used s k)" by (auto simp: libere_def)
  finally show ?thesis .
qed

text \<open>The page comes from above the band as long as there is one free there.\<close>

lemma pmm_alloc_page_spec:
  assumes ok: "pmm_ok s" and f: "pmm_alloc_page s = (a, s')"
  shows "if a = 0 then s' = s \<and> (\<forall>k < g_total_pages s. page_used s k)
    else consegnata s a s' \<and> a < GB4 \<and> (a < pmm_limite_kernel s * PAGE_SIZE \<longrightarrow> (\<forall>k. pmm_limite_kernel s \<le> k \<and> k < g_total_pages s \<longrightarrow> page_used s k))"
proof -
  obtain r where b: "basso_ok s r" using ok by (auto simp: pmm_ok_def)
  define fa where "fa = pmm_limite_kernel s"
  define st where "st = (if g_last_alloc s < fa then fa else g_last_alloc s)"
  have le: "fa \<le> g_total_pages s" "fa \<le> st" "st \<le> g_total_pages s"
    using limite_le basso_okD(7) [OF b] by (simp_all add: fa_def st_def)
  have dato: ?thesis if k: "k < g_total_pages s" "\<not> page_used s k" "a = page_to_addr k" "s' = prendi_pagina k s \<or> s' = (prendi_pagina k s)\<lparr>g_last_alloc := k + 1\<rparr>"
    and w: "k < fa \<Longrightarrow> \<forall>j. fa \<le> j \<and> j < g_total_pages s \<longrightarrow> page_used s j" for k
  proof -
    have c: "consegnata s a s'" using prendi_consegnata [OF ok k(1,2)] k(3,4) by auto
    have e: "a = k * PAGE_SIZE" using prendi_pagina_ok(5) [OF ok k(1,2)] k(3) by simp
    have "a < GB4" using basso_lt [OF b k(1)] e by simp
    moreover have "a < fa * PAGE_SIZE \<Longrightarrow> k < fa" using e by simp
    ultimately show ?thesis using c w unfolding consegnata_def fa_def by auto
  qed
  show ?thesis
  proof (cases "g_free_pages s = 0")
    case True
    then show ?thesis using f libere_zero [OF ok] by (simp add: pmm_alloc_page_def)
  next
    case False
    have f': "(case prima_libera s st (g_total_pages s) of
           Some i \<Rightarrow> (page_to_addr i, (prendi_pagina i s)\<lparr>g_last_alloc := i + 1\<rparr>)
         | None \<Rightarrow> (case prima_libera s fa st of
                Some i \<Rightarrow> (page_to_addr i, (prendi_pagina i s)\<lparr>g_last_alloc := i + 1\<rparr>)
              | None \<Rightarrow> (case prima_libera s 0 fa of Some i \<Rightarrow> (page_to_addr i, prendi_pagina i s) | None \<Rightarrow> (0, s)))) = (a, s')"
      using f False unfolding pmm_alloc_page_def Let_def fa_def st_def by simp
    show ?thesis
    proof (cases "prima_libera s st (g_total_pages s)")
      case (Some k)
      note p = prima_libera_Some [OF Some]
      show ?thesis by (rule dato [of k]) (use p f' Some le in auto)
    next
      case n1: None
      show ?thesis
      proof (cases "prima_libera s fa st")
        case (Some k)
        note p = prima_libera_Some [OF Some]
        show ?thesis by (rule dato [of k]) (use p f' Some n1 le in auto)
      next
        case n2: None
        have u: "\<forall>j. fa \<le> j \<and> j < g_total_pages s \<longrightarrow> page_used s j"
          using n1 n2 unfolding prima_libera_None by (metis not_le)
        show ?thesis
        proof (cases "prima_libera s 0 fa")
          case (Some k)
          note p = prima_libera_Some [OF Some]
          show ?thesis by (rule dato [of k]) (use p f' Some n1 n2 le u in auto)
        next
          case n3: None
          then have "\<forall>k < g_total_pages s. page_used s k" using u unfolding prima_libera_None by (metis not_le zero_le)
          then show ?thesis using f' n1 n2 n3 by simp
        qed
      qed
    qed
  qed
qed

lemma pmm_alloc_page_kernel_spec:
  assumes ok: "pmm_ok s" and f: "pmm_alloc_page_kernel s = (a, s')"
  shows "if a = 0 then s' = s \<and> (\<forall>k < pmm_limite_kernel s. page_used s k)
    else consegnata s a s' \<and> a < pmm_limite_kernel s * PAGE_SIZE"
proof -
  define li where "li = pmm_limite_kernel s"
  have le: "li \<le> g_total_pages s" using limite_le by (simp add: li_def)
  have dato: ?thesis if k: "k < li" "\<not> page_used s k" "a = page_to_addr k" "s' = (prendi_pagina k s)\<lparr>g_last_alloc_k := k + 1\<rparr>" for k
  proof -
    have kt: "k < g_total_pages s" using k(1) le by simp
    have c: "consegnata s a s'" using prendi_consegnata(3) [OF ok kt k(2)] k(3,4) by simp
    have "a = k * PAGE_SIZE" using prendi_pagina_ok(5) [OF ok kt k(2)] k(3) by simp
    then show ?thesis using c k(1) by (auto simp: consegnata_def li_def)
  qed
  have f': "(case prima_libera s (g_last_alloc_k s) li of
        Some i \<Rightarrow> (page_to_addr i, (prendi_pagina i s)\<lparr>g_last_alloc_k := i + 1\<rparr>)
      | None \<Rightarrow> (case prima_libera s 0 (min (g_last_alloc_k s) li) of
             Some i \<Rightarrow> (page_to_addr i, (prendi_pagina i s)\<lparr>g_last_alloc_k := i + 1\<rparr>) | None \<Rightarrow> (0, s))) = (a, s')"
    using f unfolding pmm_alloc_page_kernel_def Let_def li_def .
  show ?thesis
  proof (cases "prima_libera s (g_last_alloc_k s) li")
    case (Some k)
    show ?thesis by (rule dato [of k]) (use prima_libera_Some [OF Some] f' Some in auto)
  next
    case n1: None
    show ?thesis
    proof (cases "prima_libera s 0 (min (g_last_alloc_k s) li)")
      case (Some k)
      show ?thesis by (rule dato [of k]) (use prima_libera_Some [OF Some] f' Some n1 in auto)
    next
      case n2: None
      have "page_used s k" if "k < li" for k
        using n1 n2 that unfolding prima_libera_None by (cases "k < g_last_alloc_k s") auto
      then show ?thesis using f' n1 n2 by (simp add: li_def)
    qed
  qed
qed

section \<open>First fit\<close>

definition blocco :: "pmm \<Rightarrow> nat \<Rightarrow> nat \<Rightarrow> nat \<Rightarrow> bool" where
  "blocco s a count i \<longleftrightarrow> i + count \<le> a \<and> (\<forall>j. i \<le> j \<and> j < i + count \<longrightarrow> \<not> page_used s j)"

lemma libere_dopo_spec:
  assumes "i + count \<le> a" "0 < count" and k0: "k = libere_dopo s i a count"
  shows "k < count" "i < j \<Longrightarrow> j \<le> i + k \<Longrightarrow> \<not> page_used s j" "1 + k \<noteq> count \<Longrightarrow> page_used s (i + 1 + k)"
proof -
  let ?xs = "[i + 1..<i + count]"
  have k: "k = length (takeWhile (\<lambda>j. \<not> page_used s j) ?xs)" using assms(1) unfolding k0 by (simp add: libere_dopo_def min_absorb1)
  have "k \<le> length ?xs" unfolding k by (rule length_takeWhile_le)
  then show lt: "k < count" using assms(2) by simp
  show "\<not> page_used s j" if "i < j" "j \<le> i + k" for j
  proof -
    have l: "j - (i + 1) < length (takeWhile (\<lambda>j. \<not> page_used s j) ?xs)" using that k by simp
    have "\<not> page_used s (takeWhile (\<lambda>j. \<not> page_used s j) ?xs ! (j - (i + 1)))" using nth_mem [OF l] set_takeWhileD by fast
    moreover have "takeWhile (\<lambda>j. \<not> page_used s j) ?xs ! (j - (i + 1)) = ?xs ! (j - (i + 1))" by (rule takeWhile_nth [OF l])
    ultimately show ?thesis using that lt by (simp add: nth_append)
  qed
  assume "1 + k \<noteq> count"
  then have l: "k < length ?xs" using lt by simp
  then have "page_used s (?xs ! k)" using nth_length_takeWhile [of "\<lambda>j. \<not> page_used s j" ?xs] k by simp
  then show "page_used s (i + 1 + k)" using l by simp
qed

lemma cerca_da_spec:
  assumes "0 < count" "count \<le> a"
  shows "(cerca_da s i a count = a \<and> (\<forall>p \<ge> i. \<not> blocco s a count p)) \<or>
    (i \<le> cerca_da s i a count \<and> blocco s a count (cerca_da s i a count) \<and> (\<forall>p. i \<le> p \<and> p < cerca_da s i a count \<longrightarrow> \<not> blocco s a count p))"
  using assms
proof (induction s i a count rule: cerca_da.induct)
  case (1 s i a count)
  note prem = "1.prems"
  show ?case
  proof (cases "i > a - count")
    case True
    then have "\<forall>p \<ge> i. \<not> blocco s a count p" using prem by (auto simp: blocco_def)
    then show ?thesis using True by (simp add: cerca_da.simps)
  next
    case le: False
    show ?thesis
    proof (cases "page_used s i")
      case True
      have e: "cerca_da s i a count = cerca_da s (i + 1) a count" using le True by (simp add: cerca_da.simps [of s i])
      have ni: "\<not> blocco s a count i" using True prem by (auto simp: blocco_def)
      have sp: "p \<ge> i \<longleftrightarrow> p = i \<or> p \<ge> i + 1" for p by auto
      from "1.IH"(1) [OF le True prem] show ?thesis unfolding e using ni sp by (metis Suc_leD Suc_eq_plus1)
    next
      case free: False
      define k where "k = libere_dopo s i a count"
      have il: "i + count \<le> a" using le prem by simp
      note l = libere_dopo_spec [OF il prem(1) k_def]
      show ?thesis
      proof (cases "1 + k = count")
        case True
        then have e: "cerca_da s i a count = i" using le free by (simp add: cerca_da.simps [of s i] k_def [symmetric])
        have "\<not> page_used s j" if "i \<le> j" "j < i + count" for j using l(2) [of j] free that True by (cases "j = i") auto
        then show ?thesis unfolding e using il by (simp add: blocco_def)
      next
        case False
        have e: "cerca_da s i a count = cerca_da s (i + 1 + k + 1) a count" using le free False by (simp add: cerca_da.simps [of s i] k_def [symmetric])
        have nb: "\<not> blocco s a count p" if "i \<le> p" "p < i + 1 + k + 1" for p
        proof
          assume "blocco s a count p"
          moreover have "p \<le> i + 1 + k" "i + 1 + k < p + count" using that l(1) False by linarith+
          ultimately show False using l(3) [OF False] unfolding blocco_def by blast
        qed
        have "(cerca_da s (i + 1 + k + 1) a count = a \<and> (\<forall>p \<ge> i + 1 + k + 1. \<not> blocco s a count p)) \<or>
          (i + 1 + k + 1 \<le> cerca_da s (i + 1 + k + 1) a count \<and> blocco s a count (cerca_da s (i + 1 + k + 1) a count) \<and>
           (\<forall>p. i + 1 + k + 1 \<le> p \<and> p < cerca_da s (i + 1 + k + 1) a count \<longrightarrow> \<not> blocco s a count p))"
          using "1.IH"(2) [OF le free k_def False prem] .
        then show ?thesis
        proof
          assume h: "cerca_da s (i + 1 + k + 1) a count = a \<and> (\<forall>p \<ge> i + 1 + k + 1. \<not> blocco s a count p)"
          then have "\<not> blocco s a count p" if "i \<le> p" for p using nb that by (cases "p < i + 1 + k + 1") simp_all
          then show ?thesis unfolding e using h by blast
        next
          let ?c = "cerca_da s (i + 1 + k + 1) a count"
          assume h: "i + 1 + k + 1 \<le> ?c \<and> blocco s a count ?c \<and> (\<forall>p. i + 1 + k + 1 \<le> p \<and> p < ?c \<longrightarrow> \<not> blocco s a count p)"
          then have "\<not> blocco s a count p" if "i \<le> p" "p < ?c" for p using nb that by (cases "p < i + 1 + k + 1") simp_all
          moreover have "i \<le> ?c" using h by simp
          ultimately show ?thesis unfolding e using h by blast
        qed
      qed
    qed
  qed
qed

section \<open>Contiguous blocks\<close>

text \<open>A block of \<open>count\<close> pages from \<open>i\<close> on was handed out.\<close>

definition pagine :: "nat \<Rightarrow> nat \<Rightarrow> nat set" where
  "pagine i count = (\<lambda>j. j * PAGE_SIZE) ` {i..<i + count}"

definition consegnate :: "pmm \<Rightarrow> nat \<Rightarrow> nat \<Rightarrow> pmm \<Rightarrow> bool" where
  "consegnate s a count s' \<longleftrightarrow> pmm_ok s' \<and> a \<noteq> 0 \<and>
     (\<exists>i. a = i * PAGE_SIZE \<and> i + count \<le> g_total_pages s \<and> (\<forall>b \<in> pagine i count. proprietari s b = 0) \<and>
        proprietari s' = (\<lambda>b. if b \<in> pagine i count then 1 else proprietari s b))"

lemma pagine_Suc: "pagine i (Suc c) = insert ((i + c) * PAGE_SIZE) (pagine i c)"
proof -
  have "{i..<i + Suc c} = insert (i + c) {i..<i + c}" by auto
  then show ?thesis by (simp only: pagine_def image_insert)
qed

lemma prendi_pagine_ok:
  assumes ok: "pmm_ok s" and b: "blocco s (g_total_pages s) count i"
  shows "pmm_ok (prendi_pagine i count s) \<and> g_total_pages (prendi_pagine i count s) = g_total_pages s \<and>
    (\<forall>j. page_used (prendi_pagine i count s) j \<longleftrightarrow> i \<le> j \<and> j < i + count \<or> page_used s j) \<and>
    (\<forall>b \<in> pagine i count. proprietari s b = 0) \<and>
    proprietari (prendi_pagine i count s) = (\<lambda>b. if b \<in> pagine i count then 1 else proprietari s b)"
  using b
proof (induction count)
  case 0
  then show ?case using ok by (auto simp: prendi_pagine_def pagine_def)
next
  case (Suc c)
  have "blocco s (g_total_pages s) c i" using Suc.prems by (simp add: blocco_def)
  note ih = Suc.IH [OF this]
  let ?s = "prendi_pagine i c s" and ?k = "i + c"
  have e: "prendi_pagine i (Suc c) s = prendi_pagina ?k ?s" by (simp add: prendi_pagine_def)
  have k: "?k < g_total_pages ?s" "\<not> page_used ?s ?k" using Suc.prems ih by (auto simp: blocco_def)
  have o: "pmm_ok ?s" using ih by simp
  then obtain r where bs: "basso_ok ?s r" by (auto simp: pmm_ok_def)
  note p = prendi_pagina_ok [OF o k] and u = prendi_basso(2) [OF bs k]
  have n: "?k * PAGE_SIZE \<notin> pagine i c" by (auto simp: pagine_def)
  then have z: "proprietari s (?k * PAGE_SIZE) = 0" using p(3) ih by simp
  show ?case unfolding e
  proof (intro conjI)
    show "\<forall>j. page_used (prendi_pagina ?k ?s) j \<longleftrightarrow> i \<le> j \<and> j < i + Suc c \<or> page_used s j" using ih u by auto
    show "\<forall>b \<in> pagine i (Suc c). proprietari s b = 0" using ih z by (simp add: pagine_Suc)
    show "proprietari (prendi_pagina ?k ?s) = (\<lambda>b. if b \<in> pagine i (Suc c) then 1 else proprietari s b)"
      using p(2) ih by (auto simp: pagine_Suc fun_eq_iff)
  qed (use p ih in simp_all)
qed

lemma blocco_consegnato:
  assumes ok: "pmm_ok s" and b: "blocco s m count i" "m \<le> g_total_pages s" and c: "0 < count"
  shows "consegnate s (page_to_addr i) count (prendi_pagine i count s)" "page_to_addr i = i * PAGE_SIZE" "i \<noteq> 0"
proof -
  have k: "i < g_total_pages s" "\<not> page_used s i" using b c by (auto simp: blocco_def)
  have b': "blocco s (g_total_pages s) count i" using b by (auto simp: blocco_def)
  note p = prendi_pagina_ok(4,5) [OF ok k]
  show "page_to_addr i = i * PAGE_SIZE" "i \<noteq> 0" using p by simp_all
  then show "consegnate s (page_to_addr i) count (prendi_pagine i count s)"
    using prendi_pagine_ok [OF ok b'] b b' unfolding consegnate_def by (auto simp: blocco_def)
qed

lemma consegnata_una: "consegnata s a s' \<Longrightarrow> a < GB4 \<Longrightarrow> consegnate s a 1 s'"
proof -
  assume c: "consegnata s a s'" and lt: "a < GB4"
  then have m: "a mod PAGE_SIZE = 0" and "a < g_total_pages s * PAGE_SIZE" by (auto simp: consegnata_def pmm_e_ram_def)
  then obtain q where q: "a = q * PAGE_SIZE" "q < g_total_pages s" by (metis mod_0_imp_dvd dvd_def mult.commute mult_less_cancel2)
  then show ?thesis using c unfolding consegnate_def consegnata_def by (intro conjI exI [of _ q]) (auto simp: pagine_def fun_eq_iff)
qed

text \<open>\<^verbatim>\<open>pmm_alloc_pages_kernel\<close>: a block inside the band, refused only when there is none.\<close>

lemma pmm_alloc_pages_kernel_spec:
  assumes ok: "pmm_ok s" and c: "0 < count" and f: "pmm_alloc_pages_kernel count s = (a, s')"
  shows "if a = 0 then s' = s \<and> (\<forall>i. \<not> blocco s (pmm_limite_kernel s) count i)
    else consegnate s a count s' \<and> a + count * PAGE_SIZE \<le> pmm_limite_kernel s * PAGE_SIZE"
proof (cases "count = 1")
  case True
  then have "pmm_alloc_page_kernel s = (a, s')" using f by (simp add: pmm_alloc_pages_kernel_def Let_def)
  note h = pmm_alloc_page_kernel_spec [OF ok this]
  show ?thesis
  proof (cases "a = 0")
    case z: True
    then show ?thesis using h True by (auto simp: blocco_def)
  next
    case nz: False
    obtain r where "basso_ok s r" using ok by (auto simp: pmm_ok_def)
    then have "pmm_limite_kernel s * PAGE_SIZE \<le> GB4" using limite_le [of s] basso_okD(4) [of s r] by simp
    moreover have "consegnata s a s'" "a < pmm_limite_kernel s * PAGE_SIZE" "a mod PAGE_SIZE = 0" using h nz by (auto simp: consegnata_def)
    moreover then obtain q where "a = q * PAGE_SIZE" by (metis mod_0_imp_dvd dvd_def mult.commute)
    ultimately show ?thesis using consegnata_una True nz by auto
  qed
next
  case False
  define li where "li = pmm_limite_kernel s"
  have le: "li \<le> g_total_pages s" using limite_le by (simp add: li_def)
  show ?thesis
  proof (cases "li < count")
    case True
    then have "a = 0" "s' = s" using f c False by (simp_all add: pmm_alloc_pages_kernel_def li_def Let_def)
    then show ?thesis using True by (auto simp: blocco_def li_def)
  next
    case False2: False
    define i where "i = cerca_da s 0 li count"
    have f': "(a, s') = (if i = li then (0, s) else (page_to_addr i, prendi_pagine i count s))"
      using f c False False2 unfolding pmm_alloc_pages_kernel_def Let_def li_def i_def by simp
    have "(i = li \<and> (\<forall>p \<ge> 0. \<not> blocco s li count p)) \<or> (0 \<le> i \<and> blocco s li count i \<and> (\<forall>p. 0 \<le> p \<and> p < i \<longrightarrow> \<not> blocco s li count p))"
      unfolding i_def by (rule cerca_da_spec) (use c False2 in simp_all)
    then show ?thesis
    proof
      assume "i = li \<and> (\<forall>p \<ge> 0. \<not> blocco s li count p)"
      then show ?thesis using f' by (simp add: li_def)
    next
      assume h: "0 \<le> i \<and> blocco s li count i \<and> (\<forall>p. 0 \<le> p \<and> p < i \<longrightarrow> \<not> blocco s li count p)"
      then have bl: "blocco s li count i" by blast
      have ne: "i \<noteq> li" using bl c by (auto simp: blocco_def)
      note p = blocco_consegnato [OF ok bl le c]
      have "(i + count) * PAGE_SIZE \<le> li * PAGE_SIZE" using bl by (simp add: blocco_def)
      then show ?thesis using f' ne p by (simp add: li_def add_mult_distrib)
    qed
  qed
qed

text \<open>The exact meaning of \<^verbatim>\<open>pmm_cerca_contigue\<close>: the first block, or the end of the range.\<close>

lemma cerca_contigue_spec:
  assumes "0 < count"
  shows "(pmm_cerca_contigue da a count s = a \<and> (\<forall>p \<ge> da. \<not> blocco s a count p)) \<or>
    (da \<le> pmm_cerca_contigue da a count s \<and> blocco s a count (pmm_cerca_contigue da a count s) \<and> pmm_cerca_contigue da a count s < a \<and>
     (\<forall>p. da \<le> p \<and> p < pmm_cerca_contigue da a count s \<longrightarrow> \<not> blocco s a count p))"
proof (cases "a < count \<or> da > a - count")
  case True
  then have "\<forall>p \<ge> da. \<not> blocco s a count p" by (auto simp: blocco_def)
  then show ?thesis using True by (simp add: pmm_cerca_contigue_def)
next
  case False
  then have e: "pmm_cerca_contigue da a count s = cerca_da s da a count" by (simp add: pmm_cerca_contigue_def)
  have "blocco s a count (cerca_da s da a count) \<Longrightarrow> cerca_da s da a count < a" using assms by (auto simp: blocco_def)
  then show ?thesis unfolding e using cerca_da_spec [OF assms, of a s da] False by auto
qed

lemma blocco_libere:
  assumes "blocco s (g_total_pages s) count i"
  shows "count \<le> libere s"
proof -
  have "{i..<i + count} \<subseteq> {k. k < g_total_pages s \<and> \<not> page_used s k}" using assms by (auto simp: blocco_def)
  then have "card {i..<i + count} \<le> libere s" unfolding libere_def by (rule card_mono [rotated]) simp
  then show ?thesis by simp
qed

text \<open>\<^verbatim>\<open>pmm_alloc_pages\<close> prefers a block above the band; it is refused only when neither part has one.\<close>

lemma pmm_alloc_pages_spec:
  assumes ok: "pmm_ok s" and c: "1 < count" and f: "pmm_alloc_pages count s = (a, s')"
  shows "if a = 0 then s' = s \<and> (\<forall>i. \<not> blocco s (pmm_limite_kernel s) count i) \<and> (\<forall>i \<ge> pmm_limite_kernel s. \<not> blocco s (g_total_pages s) count i)
    else consegnate s a count s' \<and>
      (a < pmm_limite_kernel s * PAGE_SIZE \<longrightarrow> (\<forall>i \<ge> pmm_limite_kernel s. \<not> blocco s (g_total_pages s) count i))"
proof -
  obtain r where b: "basso_ok s r" using ok by (auto simp: pmm_ok_def)
  define fa where "fa = pmm_limite_kernel s"
  define i where "i = pmm_cerca_contigue fa (g_total_pages s) count s"
  define j where "j = pmm_cerca_contigue 0 fa count s"
  have le: "fa \<le> g_total_pages s" using limite_le by (simp add: fa_def)
  have c0: "0 < count" using c by simp
  show ?thesis
  proof (cases "unat (g_free_pages s) < count")
    case True
    then have n: "\<not> blocco s (g_total_pages s) count p" for p using blocco_libere [of s count p] libere_unat [OF b] by auto
    moreover have "\<not> blocco s fa count p" for p using n [of p] le by (auto simp: blocco_def)
    moreover have "a = 0" "s' = s" using f c True by (simp_all add: pmm_alloc_pages_def Let_def)
    ultimately show ?thesis by (simp add: fa_def)
  next
    case False
    have f': "(a, s') = (if i \<noteq> g_total_pages s then (page_to_addr i, prendi_pagine i count s)
        else if j = fa then (0, s) else (page_to_addr j, prendi_pagine j count s))"
      using f c False basso_okD(4) [OF b] unfolding pmm_alloc_pages_def Let_def fa_def i_def j_def by (simp split: if_splits)
    consider (su) "fa \<le> i" "blocco s (g_total_pages s) count i" "i < g_total_pages s"
      | (no) "i = g_total_pages s" "\<forall>p \<ge> fa. \<not> blocco s (g_total_pages s) count p"
      using cerca_contigue_spec [OF c0, of fa "g_total_pages s" s] unfolding i_def by blast
    then show ?thesis
    proof cases
      case su
      note p = blocco_consegnato [OF ok su(2) order_refl c0]
      then show ?thesis using f' su by (simp add: fa_def consegnate_def)
    next
      case no
      consider (giu) "blocco s fa count j" "j < fa" | (nulla) "j = fa" "\<forall>p. \<not> blocco s fa count p"
        using cerca_contigue_spec [OF c0, of 0 fa s] unfolding j_def by blast
      then show ?thesis
      proof cases
        case giu
        note p = blocco_consegnato [OF ok giu(1) le c0]
        then show ?thesis using f' no giu by (simp add: fa_def consegnate_def)
      next
        case nulla
        then show ?thesis using f' no by (simp add: fa_def)
      qed
    qed
  qed
qed

section \<open>Pages for programs\<close>

definition cursore :: "nat \<Rightarrow> pmm \<Rightarrow> pmm" where
  "cursore c s = s\<lparr>g_alta_cursore := c\<rparr>"

lemma cursore_ok:
  assumes ok: "pmm_ok s" and m: "g_alta s = Some m" and c: "c < g_alta_pagine s"
  shows "pmm_ok (cursore c s)" "proprietari (cursore c s) = proprietari s"
proof -
  have al: "alto_ok s" using ok by (simp add: pmm_ok_def)
  have "alto_ok (cursore c s)" by (rule alto_okI [where m = m]) (use alto_okD [OF al m] m c in \<open>auto simp: cursore_def alte_libere_def\<close>)
  moreover have st: "stesso_basso s (cursore c s)" by (simp add: stesso_basso_def cursore_def)
  moreover have u: "in_uso (cursore c s) = in_uso s" "byte_rif (cursore c s) = byte_rif s"
    by (simp_all add: fun_eq_iff cursore_def in_uso_def alta_dentro_def alta_usata_def byte_rif_def)
  ultimately show "pmm_ok (cursore c s)" using ok stesso_basso_ok [OF st] by (auto simp: pmm_ok_def tavola_sana_def cursore_def)
  show "proprietari (cursore c s) = proprietari s" by (simp add: fun_eq_iff proprietari_def u) (simp add: cursore_def)
qed

lemma alta_cerca_Suc:
  "alta_cerca (Suc n) s =
     (let k = g_alta_cursore s; s1 = cursore (if k + 1 \<ge> g_alta_pagine s then 0 else k + 1) s
      in if \<not> alta_test s k then (Some k, alta_prendi k s1) else alta_cerca n s1)"
  by (simp add: cursore_def alta_prendi_def Let_def)

declare alta_cerca.simps(2) [simp del]

text \<open>What is found was free; and a free page at most \<open>n\<close> places behind the cursor is found.\<close>

lemma alta_cerca_spec:
  assumes "pmm_ok s" "g_alta s = Some m" "alta_cerca n s = (x, s')"
  shows "(case x of
      Some k \<Rightarrow> consegnata s (alta_addr k) s'
    | None \<Rightarrow> pmm_ok s' \<and> proprietari s' = proprietari s \<and> g_bitmap s' = g_bitmap s \<and> g_alta s' = g_alta s \<and> g_alta_pagine s' = g_alta_pagine s) \<and>
    (\<forall>k < g_alta_pagine s. giro_dist (g_alta_pagine s) (g_alta_cursore s) k < n \<and> \<not> alta_test s k \<longrightarrow> x \<noteq> None)"
  using assms
proof (induction n arbitrary: s)
  case 0
  then show ?case by auto
next
  case (Suc n)
  have al: "alto_ok s" using Suc.prems(1) by (simp add: pmm_ok_def)
  note d = alto_okD [OF al Suc.prems(2)]
  define k where "k = g_alta_cursore s"
  define c where "c = (if k + 1 \<ge> g_alta_pagine s then 0 else k + 1)"
  have kc: "k < g_alta_pagine s" "c < g_alta_pagine s" using d(2) by (auto simp: k_def c_def)
  note co = cursore_ok [OF Suc.prems(1,2) kc(2)]
  have m: "g_alta (cursore c s) = Some m" "g_alta_pagine (cursore c s) = g_alta_pagine s" "g_alta_cursore (cursore c s) = c"
    "g_bitmap (cursore c s) = g_bitmap s" using Suc.prems(2) by (simp_all add: cursore_def)
  have e: "alta_cerca (Suc n) s = (if \<not> alta_test s k then (Some k, alta_prendi k (cursore c s)) else alta_cerca n (cursore c s))"
    unfolding alta_cerca_Suc k_def c_def Let_def by simp
  show ?case
  proof (cases "alta_test s k")
    case False
    then have x: "x = Some k" "s' = alta_prendi k (cursore c s)" using Suc.prems(3) e by auto
    have t: "\<not> alta_test (cursore c s) k" using False by (simp add: cursore_def)
    note p = alta_prendi_ok [OF co(1) m(1) _ t]
    have "alta_dentro s (alta_addr k)" using Suc.prems(2) kc(1) by (simp add: alta_dentro_def)
    then have "consegnata s (alta_addr k) s'" using p kc(1) m(2) co(2) x(2) alta_addr_sel(3) [of k]
      by (simp add: consegnata_def pmm_e_ram_def)
    then show ?thesis using x(1) by simp
  next
    case True
    then have f: "alta_cerca n (cursore c s) = (x, s')" using Suc.prems(3) e by simp
    note ih = Suc.IH [OF co(1) m(1) f]
    have "giro_dist (g_alta_pagine s) c j < n" if "j < g_alta_pagine s" "giro_dist (g_alta_pagine s) k j < Suc n" "\<not> alta_test s j" for j
    proof -
      have "j \<noteq> k" using that(3) True by auto
      then have "giro_dist (g_alta_pagine s) k j = Suc (giro_dist (g_alta_pagine s) c j)"
        using kc that(1) by (auto simp: giro_dist_def c_def split: if_splits)
      then show ?thesis using that(2) by simp
    qed
    moreover have "alta_test (cursore c s) j = alta_test s j" for j by (simp add: cursore_def)
    moreover have "consegnata s a s'" if "consegnata (cursore c s) a s'" for a
    proof -
      have "pmm_e_ram (cursore c s) a \<longleftrightarrow> pmm_e_ram s a" by (simp add: pmm_e_ram_def alta_dentro_def cursore_def)
      then show ?thesis using that co(2) by (simp add: consegnata_def)
    qed
    ultimately show ?thesis using ih m co(2) unfolding k_def [symmetric] by (auto split: option.splits simp: Suc.prems(2))
  qed
qed

lemma alta_cerca_tutte:
  assumes ok: "pmm_ok s" and n: "g_alta_libere s \<noteq> 0"
  obtains k s' where "alta_cerca (g_alta_pagine s) s = (Some k, s')" "consegnata s (alta_addr k) s'"
proof -
  have al: "alto_ok s" using ok by (simp add: pmm_ok_def)
  then obtain m where m: "g_alta s = Some m" using n by (cases "g_alta s") (simp_all add: alto_ok_def)
  note d = alto_okD [OF al m]
  have "\<exists>k < g_alta_pagine s. \<not> alta_test s k"
  proof (rule ccontr)
    assume "\<not> ?thesis"
    then have "{k. k < g_alta_pagine s \<and> \<not> alta_test s k} = {}" by blast
    then have "alte_libere s = 0" unfolding alte_libere_def by simp
    then show False using n d(4) by simp
  qed
  then obtain k where k: "k < g_alta_pagine s" "\<not> alta_test s k" by blast
  obtain x s' where e: "alta_cerca (g_alta_pagine s) s = (x, s')" by (cases "alta_cerca (g_alta_pagine s) s")
  note h = alta_cerca_spec [OF ok m e]
  have "giro_dist (g_alta_pagine s) (g_alta_cursore s) k < g_alta_pagine s" by (rule giro_dist_lt [OF d(2) k(1)])
  then have "x \<noteq> None" using h k by blast
  then show ?thesis using that e h by auto
qed

text \<open>A page for a program: from above 4 GB while there is one free, else as \<^verbatim>\<open>pmm_alloc_page\<close>.\<close>

lemma pmm_alloc_page_utente_spec:
  assumes ok: "pmm_ok s" and f: "pmm_alloc_page_utente s = (a, s')"
  shows "if a = 0 then s' = s \<and> (\<forall>k < g_total_pages s. page_used s k) \<and> g_alta_libere s = 0
    else consegnata s a s' \<and> (a < GB4 \<longrightarrow> g_alta_libere s = 0)"
proof (cases "g_alta_libere s = 0")
  case True
  then have "pmm_alloc_page s = (a, s')" using f by (simp add: pmm_alloc_page_utente_def)
  then show ?thesis using pmm_alloc_page_spec [OF ok] True by (auto split: if_splits)
next
  case False
  obtain k s1 where k: "alta_cerca (g_alta_pagine s) s = (Some k, s1)" "consegnata s (alta_addr k) s1"
    by (rule alta_cerca_tutte [OF ok False])
  then have "a = alta_addr k" "s' = s1" using f False by (auto simp: pmm_alloc_page_utente_def)
  then show ?thesis using k(2) False by simp
qed

end
