(* ===== verification/Pmm_Avvio.thy ===== *)
theory Pmm_Avvio
  imports Pmm_Alloc
begin

text \<open>
  The start of the page allocator (\<^verbatim>\<open>pmm_init\<close>, \<^verbatim>\<open>alta_init\<close>): it establishes the invariant, gives out only memory the
  firmware calls usable, and keeps what must not be given out.
\<close>

section \<open>Marking\<close>

text \<open>While the ranges are marked page 0 may be free for a moment: the invariant without it.\<close>

definition basso0 :: "pmm \<Rightarrow> nat \<Rightarrow> bool" where
  "basso0 s r \<longleftrightarrow> g_rif s = Some r \<and> g_total_pages s \<le> 8 * r \<and> r + g_total_pages s \<le> length (g_bitmap s) \<and>
     g_total_pages s \<le> 2 ^ 20 \<and> g_free_pages s = of_nat (libere s) \<and> g_used_pages s + g_free_pages s = of_nat (g_total_pages s) \<and>
     (\<forall>k < g_total_pages s. rif_basso s r k = 0)"

lemma basso0D:
  assumes "basso0 s r"
  shows "g_rif s = Some r" "g_total_pages s \<le> 8 * r" "r + g_total_pages s \<le> length (g_bitmap s)" "g_total_pages s \<le> 2 ^ 20"
    "g_free_pages s = of_nat (libere s)" "g_used_pages s + g_free_pages s = of_nat (g_total_pages s)"
    "k < g_total_pages s \<Longrightarrow> rif_basso s r k = 0"
    "k < g_total_pages s \<Longrightarrow> k div 8 < r" "k < g_total_pages s \<Longrightarrow> k div 8 < length (g_bitmap s)"
proof -
  show a: "g_rif s = Some r" "g_total_pages s \<le> 8 * r" "r + g_total_pages s \<le> length (g_bitmap s)" "g_total_pages s \<le> 2 ^ 20"
    "g_free_pages s = of_nat (libere s)" "g_used_pages s + g_free_pages s = of_nat (g_total_pages s)"
    "k < g_total_pages s \<Longrightarrow> rif_basso s r k = 0"
    using assms unfolding basso0_def by blast+
  show b: "k < g_total_pages s \<Longrightarrow> k div 8 < r" using a(2) by (intro less_mult_imp_div_less) simp
  then show "k < g_total_pages s \<Longrightarrow> k div 8 < length (g_bitmap s)" using a(3) by simp
qed

lemma libere_le: "libere s \<le> g_total_pages s"
proof -
  have "card {k. k < g_total_pages s \<and> \<not> page_used s k} \<le> card {..<g_total_pages s}" by (rule card_mono) auto
  then show ?thesis by (simp add: libere_def)
qed

lemma libere_usata: "k < g_total_pages s \<Longrightarrow> page_used s k \<Longrightarrow> libere s < g_total_pages s"
proof -
  assume k: "k < g_total_pages s" "page_used s k"
  have "card {j. j < g_total_pages s \<and> \<not> page_used s j} < card {..<g_total_pages s}" by (rule psubset_card_mono) (use k in auto)
  then show ?thesis by (simp add: libere_def)
qed

lemma word_pos: "n \<noteq> 0 \<Longrightarrow> n < 2 ^ 32 \<Longrightarrow> 0 < (of_nat n :: u32)"
  by (simp add: word_less_nat_alt unsigned_of_nat take_bit_nat_eq_self)

lemma segna_usata_ok:
  assumes b: "basso0 s r" and k: "k < g_total_pages s"
  shows "basso0 (segna_usata k s) r" "page_used (segna_usata k s) j \<longleftrightarrow> j = k \<or> page_used s j" "g_total_pages (segna_usata k s) = g_total_pages s"
proof -
  note d = basso0D [OF b]
  note l = d(9) [OF k]
  show u: "page_used (segna_usata k s) j \<longleftrightarrow> j = k \<or> page_used s j" for j
    using bitmap_test_set [OF l] by (auto simp: segna_usata_def)
  show t: "g_total_pages (segna_usata k s) = g_total_pages s" by (simp add: segna_usata_def)
  show "basso0 (segna_usata k s) r"
  proof (cases "page_used s k")
    case False
    have c: "libere s = Suc (libere (segna_usata k s))" using bm.libere_prendi [OF l k False] False by (simp add: libere_def segna_usata_def)
    have "libere s < 2 ^ 32" using libere_le [of s] d(4) by simp
    then have "0 < g_free_pages s" using d(5) c word_pos [of "libere s"] by simp
    then have f: "g_free_pages (segna_usata k s) = g_free_pages s - 1" "g_used_pages (segna_usata k s) = g_used_pages s + 1"
      using False by (simp_all add: segna_usata_def)
    have e: "rif_basso (segna_usata k s) r j = rif_basso s r j" for j
      using bitmap_dietro(1) [of k "r + j"] d(8) [OF k] by (simp add: segna_usata_def)
    have "g_rif (segna_usata k s) = g_rif s" "length (g_bitmap (segna_usata k s)) = length (g_bitmap s)" by (simp_all add: segna_usata_def)
    then show ?thesis unfolding basso0_def t f e using d c by (simp add: algebra_simps)
  qed (use b in \<open>simp add: segna_usata_def\<close>)
qed

lemma segna_libera_ok:
  assumes b: "basso0 s r" and k: "k < g_total_pages s"
  shows "basso0 (segna_libera k s) r" "page_used (segna_libera k s) j \<longleftrightarrow> j \<noteq> k \<and> page_used s j" "g_total_pages (segna_libera k s) = g_total_pages s"
proof -
  note d = basso0D [OF b]
  note l = d(9) [OF k]
  show u: "page_used (segna_libera k s) j \<longleftrightarrow> j \<noteq> k \<and> page_used s j" for j
    using bitmap_test_clr [OF l] by (auto simp: segna_libera_def)
  show t: "g_total_pages (segna_libera k s) = g_total_pages s" by (simp add: segna_libera_def)
  show "basso0 (segna_libera k s) r"
  proof (cases "page_used s k")
    case True
    have c: "libere (segna_libera k s) = Suc (libere s)" using bm.libere_lascia [OF l k True] True by (simp add: libere_def segna_libera_def)
    have lt: "libere s < g_total_pages s" by (rule libere_usata [OF k True])
    have "g_used_pages s = of_nat (g_total_pages s) - of_nat (libere s)" using d(5,6) by (simp add: eq_diff_eq)
    then have "g_used_pages s = of_nat (g_total_pages s - libere s)" using lt by (simp add: of_nat_diff)
    then have "0 < g_used_pages s" using word_pos [of "g_total_pages s - libere s"] lt d(4) by simp
    then have f: "g_free_pages (segna_libera k s) = g_free_pages s + 1" "g_used_pages (segna_libera k s) = g_used_pages s - 1"
      using True by (simp_all add: segna_libera_def)
    have e: "rif_basso (segna_libera k s) r j = rif_basso s r j" for j
      using bitmap_dietro(2) [of k "r + j"] d(8) [OF k] by (simp add: segna_libera_def)
    have "g_rif (segna_libera k s) = g_rif s" "length (g_bitmap (segna_libera k s)) = length (g_bitmap s)" by (simp_all add: segna_libera_def)
    then show ?thesis unfolding basso0_def t f e using d c by (simp add: algebra_simps)
  qed (use b in \<open>simp add: segna_libera_def\<close>)
qed

lemma segna_fold:
  assumes b: "basso0 s r" and ks: "\<forall>k \<in> set ks. k < g_total_pages s"
  shows "basso0 (fold segna_usata ks s) r \<and> g_total_pages (fold segna_usata ks s) = g_total_pages s \<and>
      (\<forall>j. page_used (fold segna_usata ks s) j \<longleftrightarrow> j \<in> set ks \<or> page_used s j)"
    "basso0 (fold segna_libera ks s) r \<and> g_total_pages (fold segna_libera ks s) = g_total_pages s \<and>
      (\<forall>j. page_used (fold segna_libera ks s) j \<longleftrightarrow> j \<notin> set ks \<and> page_used s j)"
proof -
  show "basso0 (fold segna_usata ks s) r \<and> g_total_pages (fold segna_usata ks s) = g_total_pages s \<and>
      (\<forall>j. page_used (fold segna_usata ks s) j \<longleftrightarrow> j \<in> set ks \<or> page_used s j)"
    using assms
  proof (induction ks arbitrary: s)
    case (Cons k ks)
    have "k < g_total_pages s" using Cons.prems by simp
    note p = segna_usata_ok [OF Cons.prems(1) this]
    have "\<forall>k \<in> set ks. k < g_total_pages (segna_usata k0 s)" for k0 using Cons.prems by (simp add: segna_usata_def)
    from Cons.IH [OF p(1) this] show ?case using p(2,3) by auto
  qed simp
  show "basso0 (fold segna_libera ks s) r \<and> g_total_pages (fold segna_libera ks s) = g_total_pages s \<and>
      (\<forall>j. page_used (fold segna_libera ks s) j \<longleftrightarrow> j \<notin> set ks \<and> page_used s j)"
    using assms
  proof (induction ks arbitrary: s)
    case (Cons k ks)
    have "k < g_total_pages s" using Cons.prems by simp
    note p = segna_libera_ok [OF Cons.prems(1) this]
    have "\<forall>k \<in> set ks. k < g_total_pages (segna_libera k0 s)" for k0 using Cons.prems by (simp add: segna_libera_def)
    from Cons.IH [OF p(1) this] show ?case using p(2,3) by auto
  qed simp
qed

text \<open>The pages a call covers.\<close>

definition coperte_libere :: "nat \<Rightarrow> nat \<Rightarrow> nat set" where
  "coperte_libere base len = {k. addr_to_page base \<le> k \<and> k < addr_to_page (base + len)}"

definition coperte_usate :: "nat \<Rightarrow> nat \<Rightarrow> nat set" where
  "coperte_usate base len = {k. addr_to_page base \<le> k \<and> k < addr_to_page (base + len + PAGE_SIZE - 1)}"

lemma pmm_mark_ok:
  assumes b: "basso0 s r"
  shows "basso0 (pmm_mark_used base len s) r \<and> g_total_pages (pmm_mark_used base len s) = g_total_pages s \<and>
      (\<forall>j < g_total_pages s. page_used (pmm_mark_used base len s) j \<longleftrightarrow> j \<in> coperte_usate base len \<or> page_used s j)"
    "basso0 (pmm_mark_free base len s) r \<and> g_total_pages (pmm_mark_free base len s) = g_total_pages s \<and>
      (\<forall>j < g_total_pages s. page_used (pmm_mark_free base len s) j \<longleftrightarrow> j \<notin> coperte_libere base len \<and> page_used s j)"
proof -
  have l: "\<forall>k \<in> set [a..<if e > g_total_pages s then g_total_pages s else e]. k < g_total_pages s" for a e by simp
  note f = segna_fold [OF b l]
  show "basso0 (pmm_mark_used base len s) r \<and> g_total_pages (pmm_mark_used base len s) = g_total_pages s \<and>
      (\<forall>j < g_total_pages s. page_used (pmm_mark_used base len s) j \<longleftrightarrow> j \<in> coperte_usate base len \<or> page_used s j)"
    using f(1) [of "addr_to_page base" "addr_to_page (base + len + PAGE_SIZE - 1)"]
    unfolding pmm_mark_used_def Let_def coperte_usate_def by auto
  show "basso0 (pmm_mark_free base len s) r \<and> g_total_pages (pmm_mark_free base len s) = g_total_pages s \<and>
      (\<forall>j < g_total_pages s. page_used (pmm_mark_free base len s) j \<longleftrightarrow> j \<notin> coperte_libere base len \<and> page_used s j)"
    using f(2) [of "addr_to_page base" "addr_to_page (base + len)"]
    unfolding pmm_mark_free_def Let_def coperte_libere_def by auto
qed

section \<open>The map of the firmware\<close>

lemma ALIGN_UP_ge: "v + PAGE_SIZE \<le> 2 ^ 32 \<Longrightarrow> v \<le> ALIGN_UP v"
proof -
  assume "v + PAGE_SIZE \<le> 2 ^ 32"
  then have "ALIGN_UP v = (v + (PAGE_SIZE - 1)) div PAGE_SIZE * PAGE_SIZE" by (simp add: ALIGN_UP_def)
  moreover have "(v + (PAGE_SIZE - 1)) div PAGE_SIZE * PAGE_SIZE = v + (PAGE_SIZE - 1) - (v + (PAGE_SIZE - 1)) mod PAGE_SIZE"
    by (rule minus_mod_eq_div_mult [symmetric])
  moreover have "(v + (PAGE_SIZE - 1)) mod PAGE_SIZE \<le> PAGE_SIZE - 1" by simp
  ultimately show ?thesis by linarith
qed

lemma vuota_ok:
  assumes t: "tot \<le> 2 ^ 20" "tot \<le> 8 * bitmap_size_di tot"
  shows "basso0 (pmm_vuota tot) (bitmap_size_di tot)" "k < tot \<Longrightarrow> page_used (pmm_vuota tot) k"
proof -
  have u: "page_used (pmm_vuota tot) k" if "k < tot" for k
  proof -
    have "k div 8 < bitmap_size_di tot" using that t(2) by (intro less_mult_imp_div_less) simp
    moreover have "bit (255 :: u8) n" if "n < 8" for n
    proof -
      have e: "(255 :: u8) = mask 8" by (simp add: mask_eq_exp_minus_1)
      show ?thesis unfolding e using that by (simp add: bit_mask_iff)
    qed
    ultimately show ?thesis by (simp add: bitmap_test_bit pmm_vuota_def nth_append)
  qed
  then show "k < tot \<Longrightarrow> page_used (pmm_vuota tot) k" .
  have "libere (pmm_vuota tot) = 0" using u by (simp add: libere_def pmm_vuota_def)
  moreover have "tot \<le> ALIGN_UP tot" using t(1) by (intro ALIGN_UP_ge) simp
  ultimately show "basso0 (pmm_vuota tot) (bitmap_size_di tot)" using t by (auto simp: basso0_def pmm_vuota_def nth_append)
qed

text \<open>The pages the start frees, with the rounding of \<^verbatim>\<open>pmm_mark_free\<close>. What they have to do with the memory the firmware calls usable
  is shown in \<open>Pmm_Props\<close>.\<close>

definition regioni :: "boot_info \<Rightarrow> nat set" where
  "regioni info =
     (case e820 info of
        Some es \<Rightarrow> (\<Union>e \<in> {e \<in> set es. usabile e \<and> length_low e \<noteq> 0}. coperte_libere (base_low e) (length_low e))
      | None \<Rightarrow> coperte_libere 0x1000 0x9F000 \<union>
          (if mem_upper info > 0 then coperte_libere 0x100000 ((mem_upper info * 1024) mod 2 ^ 32) else {}))"

lemma segna_regioni_ok:
  assumes b: "basso0 s r"
  shows "basso0 (segna_regioni info s) r \<and> g_total_pages (segna_regioni info s) = g_total_pages s \<and>
    (\<forall>j < g_total_pages s. page_used (segna_regioni info s) j \<longleftrightarrow> j \<notin> regioni info \<and> page_used s j)"
proof (cases "e820 info")
  case None
  define s1 where "s1 = pmm_mark_free 0x1000 0x9F000 s"
  note p = pmm_mark_ok(2) [OF b, of "0x1000" "0x9F000", folded s1_def]
  then have "basso0 s1 r" by simp
  note q = pmm_mark_ok(2) [OF this, of "0x100000" "(mem_upper info * 1024) mod 2 ^ 32"]
  show ?thesis using p q None unfolding segna_regioni_def regioni_def s1_def [symmetric] by auto
next
  case (Some es)
  define f where "f = (\<lambda>e s. if \<not> usabile e \<or> length_low e = 0 then s else pmm_mark_free (base_low e) (length_low e) s)"
  have "basso0 (fold f es s) r \<and> g_total_pages (fold f es s) = g_total_pages s \<and>
    (\<forall>j < g_total_pages s. page_used (fold f es s) j \<longleftrightarrow>
       j \<notin> (\<Union>e \<in> {e \<in> set es. usabile e \<and> length_low e \<noteq> 0}. coperte_libere (base_low e) (length_low e)) \<and> page_used s j)"
    using b
  proof (induction es arbitrary: s)
    case (Cons e es)
    have p: "basso0 (f e s) r" "g_total_pages (f e s) = g_total_pages s"
      "\<forall>j < g_total_pages s. page_used (f e s) j \<longleftrightarrow> (usabile e \<and> length_low e \<noteq> 0 \<longrightarrow> j \<notin> coperte_libere (base_low e) (length_low e)) \<and> page_used s j"
      using pmm_mark_ok(2) [OF Cons.prems, of "base_low e" "length_low e"] Cons.prems by (auto simp: f_def)
    from Cons.IH [OF p(1)] show ?case using p(2,3) by auto
  qed simp
  then show ?thesis using Some by (simp add: segna_regioni_def regioni_def f_def)
qed

text \<open>The ranges kept.\<close>

definition riservate :: "boot_info \<Rightarrow> nat \<Rightarrow> nat \<Rightarrow> (nat \<times> nat) list" where
  "riservate info ks fine =
     [(0, PAGE_SIZE), (0x9FC00, 0x60400), (ks, (fine + 2 ^ 32 - ks) mod 2 ^ 32), (0x500, 0x7B00), (0x7E00, 0x4300), (0xC000, PAGE_SIZE)] @
     (if rd_addr info \<noteq> 0 \<and> rd_byte info \<noteq> 0 then [(rd_addr info, rd_byte info)] else []) @
     (if rb_valida info \<and> rb_addr info \<noteq> 0 \<and> rb_byte info \<noteq> 0 then [(rb_addr info, rb_byte info)] else []) @ [(0x3FF000, PAGE_SIZE)]"

definition riserva :: "boot_info \<Rightarrow> nat \<Rightarrow> nat \<Rightarrow> nat set" where
  "riserva info ks fine = (\<Union>(b, l) \<in> set (riservate info ks fine). coperte_usate b l)"

lemma proteggi_fold: "proteggi info ks fine s = fold (\<lambda>(b, l). pmm_mark_used b l) (riservate info ks fine) s"
  by (simp add: proteggi_def riservate_def Let_def)

lemma proteggi_ok:
  assumes b: "basso0 s r"
  shows "basso0 (proteggi info ks fine s) r \<and> g_total_pages (proteggi info ks fine s) = g_total_pages s \<and>
    (\<forall>j < g_total_pages s. page_used (proteggi info ks fine s) j \<longleftrightarrow> j \<in> riserva info ks fine \<or> page_used s j)"
proof -
  have "basso0 (fold (\<lambda>(b, l). pmm_mark_used b l) xs s) r \<and> g_total_pages (fold (\<lambda>(b, l). pmm_mark_used b l) xs s) = g_total_pages s \<and>
    (\<forall>j < g_total_pages s. page_used (fold (\<lambda>(b, l). pmm_mark_used b l) xs s) j \<longleftrightarrow> j \<in> (\<Union>(b, l) \<in> set xs. coperte_usate b l) \<or> page_used s j)" for xs
    using b
  proof (induction xs arbitrary: s)
    case (Cons x xs)
    obtain c l where x: "x = (c, l)" by (cases x)
    note p = pmm_mark_ok(1) [OF Cons.prems, of c l]
    then have "basso0 (pmm_mark_used c l s) r" by simp
    from Cons.IH [OF this] show ?case using p x by auto
  qed simp
  then show ?thesis unfolding proteggi_fold riserva_def by blast
qed

text \<open>Page 0 is kept, so what comes out of the marking is a good low pool.\<close>

lemma basso0_basso:
  assumes b: "basso0 s r" and "page_used s 0" "0 < g_total_pages s" "n \<le> g_total_pages s"
  shows "basso_ok (s\<lparr>g_last_alloc := n, g_last_alloc_k := k\<rparr>) r"
proof -
  have "libere (s\<lparr>g_last_alloc := n, g_last_alloc_k := k\<rparr>) = libere s" by (simp add: libere_def)
  then show ?thesis unfolding basso_ok_def using basso0D [OF b] assms by simp
qed

section \<open>The RAM above 4 GB\<close>

lemma fold_clr:
  assumes "\<forall>k \<in> set ps. k div 8 < length m"
  shows "length (fold bitmap_clr ps m) = length m \<and> (\<forall>j. bitmap_test (fold bitmap_clr ps m) j \<longleftrightarrow> j \<notin> set ps \<and> bitmap_test m j)"
  using assms by (induction ps arbitrary: m) (auto simp: bitmap_test_clr)

lemma stato_prendi_pagine:
  "stessa_alta s (prendi_pagine i c s)" "g_oltre (prendi_pagine i c s) = g_oltre s" "g_total_pages (prendi_pagine i c s) = g_total_pages s"
proof -
  have "stessa_alta s (fold prendi_pagina ks s) \<and> g_oltre (fold prendi_pagina ks s) = g_oltre s \<and> g_total_pages (fold prendi_pagina ks s) = g_total_pages s" for ks
    by (induction ks arbitrary: s) (auto simp: stessa_alta_def)
  then show "stessa_alta s (prendi_pagine i c s)" "g_oltre (prendi_pagine i c s) = g_oltre s" "g_total_pages (prendi_pagine i c s) = g_total_pages s"
    by (simp_all add: prendi_pagine_def)
qed

lemma stato_alloc_kernel:
  assumes "pmm_alloc_pages_kernel c s = (a, s')"
  shows "stessa_alta s s'" "g_oltre s' = g_oltre s" "g_total_pages s' = g_total_pages s"
proof -
  have "stessa_alta s s' \<and> g_oltre s' = g_oltre s \<and> g_total_pages s' = g_total_pages s"
    using assms stato_prendi_pagine unfolding pmm_alloc_pages_kernel_def pmm_alloc_page_kernel_def Let_def
    by (auto simp: stessa_alta_def split: if_splits option.splits)
  then show "stessa_alta s s'" "g_oltre s' = g_oltre s" "g_total_pages s' = g_total_pages s" by simp_all
qed

text \<open>Taking pages never frees one.\<close>

lemma alloc_kernel_usate:
  assumes ok: "pmm_ok s" and f: "pmm_alloc_pages_kernel c s = (a, s')" and j: "j < g_total_pages s" "page_used s j"
  shows "pmm_ok s' \<and> page_used s' j"
proof (cases "c = 0")
  case True
  then show ?thesis using f ok j by (simp add: pmm_alloc_pages_kernel_def)
next
  case False
  note h = pmm_alloc_pages_kernel_spec [OF ok _ f]
  obtain r where b: "basso_ok s r" using ok by (auto simp: pmm_ok_def)
  have lt: "j * PAGE_SIZE < GB4" by (rule basso_lt [OF b j(1)])
  show ?thesis
  proof (cases "a = 0")
    case True
    then show ?thesis using h False ok j by simp
  next
    case a: False
    then have co: "consegnate s a c s'" using h False by simp
    have "in_uso s (j * PAGE_SIZE)" using in_uso_basso [OF lt] j by simp
    then have "0 < proprietari s (j * PAGE_SIZE)" by (simp add: proprietari_def)
    then have "0 < proprietari s' (j * PAGE_SIZE)" using co by (auto simp: consegnate_def)
    then have "in_uso s' (j * PAGE_SIZE)" by (simp add: proprietari_def split: if_splits)
    then show ?thesis using in_uso_basso [OF lt] co by (simp add: consegnate_def)
  qed
qed

lemma alta_pagine_lt:
  assumes "k \<in> set (alta_pagine_di fine (b, e))" "b \<ge> GB4" "b + PAGE_SIZE \<le> 2 ^ 64"
  shows "k < (fine - GB4) div PAGE_SIZE"
proof -
  define b' where "b' = (b + (PAGE_SIZE - 1)) mod 2 ^ 64 div PAGE_SIZE * PAGE_SIZE"
  define e' where "e' = (if e > fine then fine else e)"
  have "k \<in> (\<lambda>j. (b' - GB4) div PAGE_SIZE + j) ` {0..<(e' - b') div PAGE_SIZE}"
    using assms(1) by (simp only: alta_pagine_di_def Let_def b'_def e'_def prod.case set_map set_upt)
  then obtain j where j: "k = (b' - GB4) div PAGE_SIZE + j" "j < (e' - b') div PAGE_SIZE" by (auto simp only: image_iff atLeastLessThan_iff)
  define q where "q = (b + (PAGE_SIZE - 1)) div PAGE_SIZE"
  have bq: "b' = q * PAGE_SIZE" using assms(3) by (simp add: b'_def q_def)
  have q1: "1048576 \<le> q" using assms(2) by (simp add: q_def)
  have "(b' - GB4) div PAGE_SIZE = q - 1048576" using bq by (simp add: diff_mult_distrib [symmetric] del: diff_mult_distrib)
  moreover have "j + 1 \<le> (e' - b') div PAGE_SIZE" using j(2) by simp
  then have "(j + 1) * PAGE_SIZE \<le> e' - b'" by (simp add: less_eq_div_iff_mult_less_eq)
  then have "(q + j + 1) * PAGE_SIZE \<le> fine" using bq by (simp add: e'_def algebra_simps split: if_splits)
  then have "(q - 1048576 + j + 1) * PAGE_SIZE \<le> fine - GB4" using q1 by (simp add: algebra_simps)
  then have "q - 1048576 + j + 1 \<le> (fine - GB4) div PAGE_SIZE" by (simp add: less_eq_div_iff_mult_less_eq)
  ultimately show ?thesis using j(1) by simp
qed

text \<open>The regions above 4 GB do not overlap and do not reach the end of the 64 bit addresses.\<close>

definition regioni_alte_sane :: "boot_info \<Rightarrow> bool" where
  "regioni_alte_sane info \<longleftrightarrow>
     (case e820 info of None \<Rightarrow> True
      | Some es \<Rightarrow> list_all (\<lambda>(b, e). b + PAGE_SIZE \<le> 2 ^ 64) (alta_regioni es) \<and>
          distinct (concat (map (alta_pagine_di (alta_fine (alta_regioni es))) (alta_regioni es))))"

lemma alta_regioni_ge: "(b, e) \<in> set (alta_regioni es) \<Longrightarrow> b \<ge> GB4"
  unfolding alta_regioni_def by (drule in_set_takeD) (auto simp: Let_def split: if_splits)

lemma alta_pool_ok:
  assumes ok: "pmm_ok s" and o: "fst (g_oltre s) = []" and r: "g_alta_rif s = None"
    and ps: "distinct ps" "\<forall>k \<in> set ps. k < n" and n: "0 < n" "n < 2 ^ 32" "n \<le> 8 * (pb * PAGE_SIZE)"
  defines "s' \<equiv> alta_pool n pb ps s"
  assumes c: "g_alta_cursore s = 0"
  shows "pmm_ok s'" "page_used s' j \<longleftrightarrow> page_used s j" "g_total_pages s' = g_total_pages s" "g_oltre s' = g_oltre s"
    "g_alta s' \<noteq> None" "g_alta_pagine s' = n"
proof -
  define d where "d = pb * PAGE_SIZE"
  note n = n [folded d_def]
  have s': "s' = s\<lparr>g_alta_pagine := n, g_alta := Some (fold bitmap_clr ps (replicate d 0xFF)),
      g_alta_libere := of_nat (length ps), g_alta_ram := of_nat (length ps)\<rparr>" by (simp only: s'_def alta_pool_def d_def)
  let ?m = "fold bitmap_clr ps (replicate d 0xFF :: u8 list)"
  have "k div 8 < d" if "k < n" for k using that n(3) by (intro less_mult_imp_div_less) simp
  then have "\<forall>k \<in> set ps. k div 8 < length (replicate d 0xFF :: u8 list)" using ps(2) by simp
  note f = fold_clr [OF this]
  have e: "(255 :: u8) = mask 8" by (simp add: mask_eq_exp_minus_1)
  have t: "bitmap_test ?m k \<longleftrightarrow> k \<notin> set ps" if "k < n" for k
  proof -
    have "k div 8 < d" using that n(3) by (intro less_mult_imp_div_less) simp
    then have "bitmap_test (replicate d 0xFF) k" unfolding bitmap_test_bit by (simp add: e bit_mask_iff)
    then show ?thesis using f by simp
  qed
  have "{k. k < n \<and> \<not> bitmap_test ?m k} = set ps" using t ps(2) by auto
  then have l: "alte_libere s' = length ps" using distinct_card [OF ps(1)] by (simp add: alte_libere_def s')
  have al: "alto_ok s'"
    by (rule alto_okI [where m = ?m]) (use f n c l r in \<open>simp_all add: s'\<close>)
  obtain q where b: "basso_ok s q" using ok by (auto simp: pmm_ok_def)
  have st: "stesso_basso s s'" by (simp add: stesso_basso_def s')
  have "tavola_sana s'" using tavola_di [OF ok] o by (simp add: tavola_sana_def s' peso_def)
  then show "pmm_ok s'" using al b stesso_basso_ok [OF st] by (auto simp: pmm_ok_def)
  show "page_used s' j \<longleftrightarrow> page_used s j" "g_total_pages s' = g_total_pages s" "g_oltre s' = g_oltre s"
    "g_alta s' \<noteq> None" "g_alta_pagine s' = n" by (simp_all add: s')
qed

lemma alta_rif_ok:
  assumes ok: "pmm_ok s" and o: "fst (g_oltre s) = []" and m: "g_alta s = Some m" and d: "g_alta_pagine s \<le> d"
  shows "pmm_ok (s\<lparr>g_alta_rif := Some (replicate d 0)\<rparr>)"
proof -
  let ?s = "s\<lparr>g_alta_rif := Some (replicate d 0)\<rparr>"
  have al: "alto_ok s" using ok by (simp add: pmm_ok_def)
  note a = alto_okD [OF al m]
  have "alte_libere ?s = alte_libere s" by (simp add: alte_libere_def)
  then have "alto_ok ?s" by (intro alto_okI [where m = m]) (use a m d in auto)
  moreover have st: "stesso_basso s ?s" by (simp add: stesso_basso_def)
  moreover have "tavola_sana ?s" using tavola_di [OF ok] o by (simp add: tavola_sana_def peso_def)
  ultimately show ?thesis using ok stesso_basso_ok [OF st] by (auto simp: pmm_ok_def)
qed

lemma alta_riferimenti_ok:
  assumes ok: "pmm_ok s" and o: "fst (g_oltre s) = []" and m: "g_alta s \<noteq> None" and n: "g_alta_pagine s = n" "n < 2 ^ 31"
  shows "pmm_ok (alta_riferimenti n s) \<and> g_total_pages (alta_riferimenti n s) = g_total_pages s \<and>
    (\<forall>j < g_total_pages s. page_used s j \<longrightarrow> page_used (alta_riferimenti n s) j)"
proof -
  define pr where "pr = (n + PAGE_SIZE - 1) div PAGE_SIZE"
  obtain fr s1 where f: "pmm_alloc_pages_kernel pr s = (fr, s1)" by (cases "pmm_alloc_pages_kernel pr s")
  have e: "alta_riferimenti n s = (if fr = 0 then s1 else s1\<lparr>g_alta_rif := Some (replicate (pr * PAGE_SIZE) 0)\<rparr>)"
    unfolding alta_riferimenti_def Let_def pr_def [symmetric] f by simp
  obtain r where b: "basso_ok s r" using ok by (auto simp: pmm_ok_def)
  have u1: "pmm_ok s1 \<and> page_used s1 j" if "j < g_total_pages s" "page_used s j" for j by (rule alloc_kernel_usate [OF ok f that])
  have ok1: "pmm_ok s1" using u1 [of 0] basso_okD(5,6) [OF b] by simp
  note st = stato_alloc_kernel [OF f]
  obtain m' where m': "g_alta s1 = Some m'" using m st(1) by (auto simp: stessa_alta_def)
  have "n \<le> pr * PAGE_SIZE" using ALIGN_UP_ge [of n] n(2) by (simp add: ALIGN_UP_def pr_def)
  then have "pmm_ok (s1\<lparr>g_alta_rif := Some (replicate (pr * PAGE_SIZE) 0)\<rparr>)"
    using st o n(1) by (intro alta_rif_ok [OF ok1 _ m']) (simp_all add: stessa_alta_def)
  then show ?thesis unfolding e using ok1 u1 st(3) by simp
qed

lemma alta_init_ok:
  assumes ok: "pmm_ok s" and z: "g_alta s = None" "g_alta_cursore s = 0" "fst (g_oltre s) = []" and sane: "regioni_alte_sane info"
  shows "pmm_ok (alta_init info s) \<and> g_total_pages (alta_init info s) = g_total_pages s \<and>
    (\<forall>j < g_total_pages s. page_used s j \<longrightarrow> page_used (alta_init info s) j)"
proof (cases "\<exists>es. e820 info = Some es \<and> alta_regioni es \<noteq> []")
  case False
  then have "alta_init info s = s" by (auto simp: alta_init_def Let_def split: option.splits)
  then show ?thesis using ok by simp
next
  case True
  then obtain es where es: "e820 info = Some es" "alta_regioni es \<noteq> []" by blast
  define rs where "rs = alta_regioni es"
  define n where "n = (alta_fine rs - GB4) div PAGE_SIZE"
  define pb where "pb = ((n + 7) div 8 + PAGE_SIZE - 1) div PAGE_SIZE"
  define ps where "ps = concat (map (alta_pagine_di (alta_fine rs)) rs)"
  obtain f s1 where f: "pmm_alloc_pages_kernel pb s = (f, s1)" by (cases "pmm_alloc_pages_kernel pb s")
  have init: "alta_init info s = (if f = 0 then s1 else alta_riferimenti n (alta_pool n pb ps s1))"
    using es(2) unfolding alta_init_def es(1) option.case Let_def rs_def [symmetric] n_def [symmetric] pb_def [symmetric] ps_def [symmetric] f by simp
  obtain r where b: "basso_ok s r" using ok by (auto simp: pmm_ok_def)
  have u1: "pmm_ok s1 \<and> page_used s1 j" if "j < g_total_pages s" "page_used s j" for j by (rule alloc_kernel_usate [OF ok f that])
  have ok1: "pmm_ok s1" using u1 [of 0] basso_okD(5,6) [OF b] by simp
  note st1 = stato_alloc_kernel [OF f]
  show ?thesis
  proof (cases "f = 0")
    case True
    then show ?thesis using init u1 ok1 st1 by simp
  next
    case f0: False
    have pb: "pb \<noteq> 0" using f0 f by (cases "pb = 0") (simp_all add: pmm_alloc_pages_kernel_def)
    have "alta_fine rs - GB4 \<le> 60 * 0x40000000" unfolding alta_fine_def by simp
    then have "n \<le> 60 * 0x40000000 div PAGE_SIZE" unfolding n_def by (rule div_le_mono)
    then have nlt: "n < 2 ^ 31" by simp
    have n0: "0 < n" using pb by (cases "n = 0") (simp_all add: pb_def)
    have "(n + 7) div 8 \<le> pb * PAGE_SIZE" using ALIGN_UP_ge [of "(n + 7) div 8"] nlt by (simp add: ALIGN_UP_def pb_def)
    then have n8: "n \<le> 8 * (pb * PAGE_SIZE)" by linarith
    have big: "list_all (\<lambda>(b, e). b + PAGE_SIZE \<le> 2 ^ 64) rs" and dist: "distinct ps" using sane es(1) by (simp_all add: regioni_alte_sane_def rs_def ps_def)
    have lt: "k < n" if k: "k \<in> set ps" for k
    proof -
      obtain c e where c: "(c, e) \<in> set rs" "k \<in> set (alta_pagine_di (alta_fine rs) (c, e))" using k by (auto simp: ps_def)
      then show ?thesis using alta_pagine_lt [OF c(2)] alta_regioni_ge [of c e es] big unfolding n_def rs_def list_all_iff by blast
    qed
    have z1: "fst (g_oltre s1) = []" "g_alta_rif s1 = None" "g_alta_cursore s1 = 0"
      using z st1 ok by (auto simp: stessa_alta_def pmm_ok_def alto_ok_def)
    have "n < 2 ^ 32" using nlt by simp
    note p = alta_pool_ok [OF ok1 z1(1,2) dist _ n0 this n8 z1(3)]
    then have "pmm_ok (alta_pool n pb ps s1)" using lt by blast
    note q = alta_riferimenti_ok [OF this _ _ _ nlt]
    show ?thesis using q p z1(1) lt u1 st1(3) f0 unfolding init by simp
  qed
qed

end
