(* ===== verification/Pmm_Props.thy ===== *)
theory Pmm_Props
  imports Pmm_Avvio
begin

text \<open>
  The properties of the page allocator.
\<close>

section \<open>Owners\<close>

datatype pmm_op = Alloca | Alloca_kernel | Alloca_utente | Alloca_blocco nat | Alloca_blocco_kernel nat
  | Condividi bool nat | Libera nat

fun pmm_passo :: "pmm_op \<Rightarrow> pmm \<Rightarrow> nat \<times> pmm" where
  "pmm_passo Alloca s = pmm_alloc_page s"
| "pmm_passo Alloca_kernel s = pmm_alloc_page_kernel s"
| "pmm_passo Alloca_utente s = pmm_alloc_page_utente s"
| "pmm_passo (Alloca_blocco c) s = pmm_alloc_pages c s"
| "pmm_passo (Alloca_blocco_kernel c) s = pmm_alloc_pages_kernel c s"
| "pmm_passo (Condividi mem a) s = (case pmm_ref_inc mem a s of (t, s') \<Rightarrow> (of_bool t, s'))"
| "pmm_passo (Libera a) s = (0, pmm_free_page a s)"

text \<open>The specification: a map from addresses to the number of owners. \<open>r\<close> is the answer.\<close>

definition una_pagina :: "(nat \<Rightarrow> nat) \<Rightarrow> nat \<Rightarrow> (nat \<Rightarrow> nat) \<Rightarrow> bool" where
  "una_pagina m r m' \<longleftrightarrow> (if r = 0 then m' = m else m r = 0 \<and> r mod PAGE_SIZE = 0 \<and> m' = m(r := 1))"

definition un_blocco :: "nat \<Rightarrow> (nat \<Rightarrow> nat) \<Rightarrow> nat \<Rightarrow> (nat \<Rightarrow> nat) \<Rightarrow> bool" where
  "un_blocco c m r m' \<longleftrightarrow>
     (if r = 0 then m' = m
      else (\<exists>i. r = i * PAGE_SIZE \<and> (\<forall>b \<in> pagine i c. m b = 0) \<and> m' = (\<lambda>b. if b \<in> pagine i c then 1 else m b)))"

fun prop_passo :: "pmm_op \<Rightarrow> (nat \<Rightarrow> nat) \<Rightarrow> nat \<Rightarrow> (nat \<Rightarrow> nat) \<Rightarrow> bool" where
  "prop_passo Alloca m r m' \<longleftrightarrow> una_pagina m r m'"
| "prop_passo Alloca_kernel m r m' \<longleftrightarrow> una_pagina m r m' \<and> r < USER_SPACE_BASE"
| "prop_passo Alloca_utente m r m' \<longleftrightarrow> una_pagina m r m'"
| "prop_passo (Alloca_blocco c) m r m' \<longleftrightarrow> un_blocco c m r m'"
| "prop_passo (Alloca_blocco_kernel c) m r m' \<longleftrightarrow> un_blocco c m r m' \<and> (r = 0 \<or> r + c * PAGE_SIZE \<le> USER_SPACE_BASE)"
| "prop_passo (Condividi mem a) m r m' \<longleftrightarrow> (if r = 0 then m' = m else 0 < m a \<and> m' = m(a := m a + 1))"
| "prop_passo (Libera a) m r m' \<longleftrightarrow> m' = m(a := m a - 1)"

fun op_lecita :: "pmm_op \<Rightarrow> bool" where
  "op_lecita (Condividi mem a) \<longleftrightarrow> a \<noteq> 0"
| "op_lecita (Libera a) \<longleftrightarrow> a \<noteq> 0 \<and> a mod PAGE_SIZE = 0"
| "op_lecita _ \<longleftrightarrow> True"

lemma una_pagina_di: "consegnata s a s' \<Longrightarrow> una_pagina (proprietari s) a (proprietari s') \<and> pmm_ok s'"
  by (simp add: consegnata_def una_pagina_def)

lemma un_blocco_di: "consegnate s a c s' \<Longrightarrow> un_blocco c (proprietari s) a (proprietari s') \<and> pmm_ok s'"
  unfolding consegnate_def un_blocco_def by auto

lemma limite_base: "pmm_limite_kernel s * PAGE_SIZE \<le> USER_SPACE_BASE"
  by (simp add: pmm_limite_kernel_def addr_to_page_def Let_def)

lemma pmm_passo_ok:
  assumes ok: "pmm_ok s" and op: "op_lecita x" and f: "pmm_passo x s = (r, s')"
  shows "pmm_ok s' \<and> prop_passo x (proprietari s) r (proprietari s')"
proof (cases x)
  case Alloca
  then show ?thesis using pmm_alloc_page_spec [OF ok] f ok una_pagina_di by (auto simp: una_pagina_def split: if_splits)
next
  case Alloca_kernel
  then show ?thesis using pmm_alloc_page_kernel_spec [OF ok] f ok una_pagina_di limite_base [of s]
    by (auto simp: una_pagina_def split: if_splits)
next
  case Alloca_utente
  then show ?thesis using pmm_alloc_page_utente_spec [OF ok] f ok una_pagina_di by (auto simp: una_pagina_def split: if_splits)
next
  case (Alloca_blocco c)
  then have e: "pmm_alloc_pages c s = (r, s')" using f by simp
  consider "c = 0" | "c = 1" | "1 < c" by linarith
  then show ?thesis
  proof cases
    case 1
    then show ?thesis using e Alloca_blocco ok by (simp add: pmm_alloc_pages_def un_blocco_def Let_def)
  next
    case 2
    then have "pmm_alloc_page s = (r, s')" using e by (simp add: pmm_alloc_pages_def Let_def)
    note h = pmm_alloc_page_spec [OF ok this]
    then show ?thesis using Alloca_blocco 2 ok un_blocco_di [OF consegnata_una, of s r s'] by (cases "r = 0") (simp_all add: un_blocco_def)
  next
    case 3
    then show ?thesis using pmm_alloc_pages_spec [OF ok 3 e] Alloca_blocco ok un_blocco_di [of s r c s'] by (cases "r = 0") (simp_all add: un_blocco_def)
  qed
next
  case (Alloca_blocco_kernel c)
  then have e: "pmm_alloc_pages_kernel c s = (r, s')" using f by simp
  show ?thesis
  proof (cases "c = 0")
    case True
    then show ?thesis using e Alloca_blocco_kernel ok by (simp add: pmm_alloc_pages_kernel_def un_blocco_def Let_def)
  next
    case False
    then show ?thesis using pmm_alloc_pages_kernel_spec [OF ok _ e] Alloca_blocco_kernel ok un_blocco_di [of s r c s'] limite_base [of s]
      by (cases "r = 0") (simp_all add: un_blocco_def)
  qed
next
  case (Condividi mem a)
  then obtain t where t: "pmm_ref_inc mem a s = (t, s')" "r = of_bool t" using f by (auto split: prod.splits)
  have "0 < proprietari s a" if "in_uso s a" using that by (simp add: proprietari_def)
  then show ?thesis using pmm_ref_inc_spec [OF ok _ t(1)] Condividi op t(2) by (cases t) auto
next
  case (Libera a)
  then show ?thesis using pmm_free_page_spec [OF ok, of a] op f by auto
qed

text \<open>Runs, with the answers.\<close>

inductive pmm_run :: "pmm \<Rightarrow> (pmm_op \<times> nat) list \<Rightarrow> pmm \<Rightarrow> bool" where
  run_fine: "pmm_run s [] s"
| run_passo: "op_lecita x \<Longrightarrow> pmm_passo x s = (r, s1) \<Longrightarrow> pmm_run s1 tr s' \<Longrightarrow> pmm_run s ((x, r) # tr) s'"

inductive prop_run :: "(nat \<Rightarrow> nat) \<Rightarrow> (pmm_op \<times> nat) list \<Rightarrow> (nat \<Rightarrow> nat) \<Rightarrow> bool" where
  prop_fine: "prop_run m [] m"
| prop_uno: "prop_passo x m r m1 \<Longrightarrow> prop_run m1 tr m' \<Longrightarrow> prop_run m ((x, r) # tr) m'"

lemma pmm_run_sim:
  assumes "pmm_run s tr s'" "pmm_ok s"
  shows "pmm_ok s' \<and> prop_run (proprietari s) tr (proprietari s')"
  using assms
proof (induction rule: pmm_run.induct)
  case (run_fine s)
  then show ?case by (simp add: prop_run.prop_fine)
next
  case (run_passo x s r s1 tr s')
  note p = pmm_passo_ok [OF run_passo.prems run_passo.hyps(1,2)]
  then show ?case using run_passo.IH by (auto intro: prop_run.prop_uno)
qed

text \<open>A small machine: four low pages of which three are free, two high ones of which one is free.\<close>

definition macchina :: pmm where
  "macchina = \<lparr>g_bitmap = [1, 0, 0, 0, 0], g_rif = Some 1, g_total_pages = 4, g_free_pages = 3, g_used_pages = 1, g_last_alloc = 0,
     g_last_alloc_k = 0, g_oltre = ([], 0), g_alta = Some [2], g_alta_rif = Some [0, 7], g_alta_pagine = 2, g_alta_libere = 1, g_alta_ram = 1,
     g_alta_cursore = 0\<rparr>"

lemma macchina_bit: "k < 4 \<Longrightarrow> page_used macchina k \<longleftrightarrow> k = 0" "k < 2 \<Longrightarrow> alta_test macchina k \<longleftrightarrow> k = 1"
proof -
  assume "k < 4"
  then consider "k = 0" | "k = 1" | "k = 2" | "k = 3" by linarith
  then show "page_used macchina k \<longleftrightarrow> k = 0" by cases (simp_all add: macchina_def bitmap_test_def)
next
  assume "k < 2"
  then consider "k = 0" | "k = 1" by linarith
  then show "alta_test macchina k \<longleftrightarrow> k = 1" by cases (simp_all add: macchina_def bitmap_test_def)
qed

lemma macchina_rif: "k < 4 \<Longrightarrow> rif_basso macchina 1 k = 0" "k < 2 \<Longrightarrow> k \<noteq> 1 \<Longrightarrow> [0, 7 :: u8] ! k = 0"
proof -
  assume "k < 4"
  then consider "k = 0" | "k = 1" | "k = 2" | "k = 3" by linarith
  then show "rif_basso macchina 1 k = 0" by cases (simp_all add: macchina_def)
next
  assume "k < 2" "k \<noteq> 1"
  then have "k = 0" by linarith
  then show "[0, 7 :: u8] ! k = 0" by simp
qed

lemma macchina_ok: "pmm_ok macchina"
proof -
  have "{k. k < 4 \<and> \<not> page_used macchina k} = {1, 2, 3}" using macchina_bit(1) by auto
  then have l: "libere macchina = 3" by (simp add: libere_def macchina_def)
  have "{k. k < 2 \<and> \<not> alta_test macchina k} = {0}" using macchina_bit(2) by auto
  then have h: "alte_libere macchina = 1" by (simp add: alte_libere_def macchina_def)
  have t: "g_total_pages macchina = 4" "g_alta_pagine macchina = 2" "g_alta_rif macchina = Some [0, 7]" by (simp_all add: macchina_def)
  have "page_used macchina 0" using macchina_bit(1) [of 0] by simp
  then have "basso_ok macchina 1" unfolding basso_ok_def l t using macchina_rif(1) by (intro conjI) (simp_all add: macchina_def)
  moreover have "alto_ok macchina"
  proof (rule alto_okI [where m = "[2]"])
    show "g_alta_pagine macchina \<le> length rs \<and> (\<forall>k < g_alta_pagine macchina. \<not> alta_test macchina k \<longrightarrow> rs ! k = 0)"
      if "g_alta_rif macchina = Some rs" for rs using that macchina_bit(2) macchina_rif(2) unfolding t by auto
  qed (use h in \<open>simp_all add: macchina_def\<close>)
  moreover have "tavola_sana macchina" by (simp add: tavola_sana_def oltre_ok_def macchina_def usati_di_def peso_def)
  ultimately show ?thesis by (auto simp: pmm_ok_def)
qed

text \<open>C31. The page allocator (\<^verbatim>\<open>kernel/mm/pmm.c\<close>) implements a map from pages to numbers of owners. Along any run of
  allocations of every kind, of \<^verbatim>\<open>pmm_ref_inc\<close> and of \<^verbatim>\<open>pmm_free_page\<close>, below and above 4 GB: what is handed out had no owner
  and has one afterwards; sharing adds an owner to a page that has some; freeing takes one off; nothing else changes hands; and
  \<^verbatim>\<open>pmm_ref_count\<close> tells the number (on 32 bits).\<close>

theorem pmm_owners_refine:
  assumes "pmm_ok s" and "pmm_run s tr s'"
  shows "pmm_ok s' \<and> prop_run (proprietari s) tr (proprietari s') \<and>
    (\<forall>a. a mod PAGE_SIZE = 0 \<longrightarrow> pmm_ref_count a s' = proprietari s' a mod 2 ^ 32)"
proof (intro conjI allI impI)
  note r = pmm_run_sim [OF assms(2,1)]
  then show "pmm_ok s'" "prop_run (proprietari s) tr (proprietari s')" by simp_all
  fix a :: nat assume "a mod PAGE_SIZE = 0"
  then show "pmm_ref_count a s' = proprietari s' a mod 2 ^ 32" using r by (intro pmm_ref_count_spec) simp_all
qed

inductive_cases prop_run_Cons: "prop_run m ((x, r) # tr) m'"
inductive_cases prop_run_Nil: "prop_run m [] m'"

theorem pmm_owners_refine_witness:
  "\<exists>r s'. r \<noteq> 0 \<and> pmm_run macchina [(Alloca, r), (Condividi True r, 1), (Libera r, 0)] s' \<and> proprietari s' r = 1"
proof -
  obtain r s1 where a: "pmm_alloc_page macchina = (r, s1)" by (cases "pmm_alloc_page macchina")
  have "\<not> page_used macchina 1" "1 < g_total_pages macchina" using macchina_bit(1) [of 1] by (simp_all add: macchina_def)
  then have r: "r \<noteq> 0" "consegnata macchina r s1" "r < GB4" using pmm_alloc_page_spec [OF macchina_ok a] by (auto split: if_splits)
  then have p: "proprietari s1 r = 1" "in_uso s1 r" by (auto simp: consegnata_def proprietari_def fun_eq_iff split: if_splits)
  obtain t s2 where i: "pmm_ref_inc True r s1 = (t, s2)" by (cases "pmm_ref_inc True r s1")
  have t: t using pmm_ref_inc_spec [OF _ r(1) i] r(2,3) p by (auto simp: consegnata_def contabile_def)
  let ?tr = "[(Alloca, r), (Condividi True r, 1), (Libera r, 0)]" and ?s = "pmm_free_page r s2"
  have run: "pmm_run macchina ?tr ?s"
    using a i t r by (intro pmm_run.intros) (auto simp: consegnata_def intro: pmm_run.run_fine)
  have "prop_run (proprietari macchina) ?tr (proprietari ?s)" using pmm_owners_refine [OF macchina_ok run] by blast
  then have "proprietari ?s r = 1" using r(1) by (auto elim!: prop_run_Cons prop_run_Nil simp: una_pagina_def)
  then show ?thesis using run r(1) by blast
qed

text \<open>C32. A page is back in the pool exactly when its last owner has freed it: of a page with \<open>n\<close> owners, however they are split
  between the byte and the table, the first \<open>n - 1\<close> calls of \<^verbatim>\<open>pmm_free_page\<close> leave it in use and the last frees it; more calls and
  the other pages change nothing.\<close>

theorem pmm_last_owner:
  assumes "pmm_ok s" and "a \<noteq> 0" "a mod PAGE_SIZE = 0"
  shows "pmm_ok ((pmm_free_page a ^^ n) s) \<and> (in_uso ((pmm_free_page a ^^ n) s) a \<longleftrightarrow> n < proprietari s a) \<and>
    (\<forall>b. b \<noteq> a \<longrightarrow> proprietari ((pmm_free_page a ^^ n) s) b = proprietari s b)"
proof -
  have "pmm_ok ((pmm_free_page a ^^ n) s) \<and> proprietari ((pmm_free_page a ^^ n) s) = (proprietari s)(a := proprietari s a - n)"
  proof (induction n)
    case (Suc n)
    then show ?case using pmm_free_page_spec [OF _ assms(2,3), of "(pmm_free_page a ^^ n) s"] by (simp add: fun_eq_iff)
  qed (simp add: assms(1))
  moreover have "in_uso t a \<longleftrightarrow> 0 < proprietari t a" for t by (simp add: proprietari_def)
  ultimately show ?thesis by simp
qed

theorem pmm_last_owner_witness:
  "proprietari macchina (alta_addr 1) = 8 \<and> in_uso ((pmm_free_page (alta_addr 1) ^^ 7) macchina) (alta_addr 1) \<and>
   \<not> in_uso ((pmm_free_page (alta_addr 1) ^^ 8) macchina) (alta_addr 1)"
proof -
  have al: "alto_ok macchina" using macchina_ok by (simp add: pmm_ok_def)
  have "in_uso macchina (alta_addr 1)" using in_uso_alto [OF al, of 1] macchina_bit(2) [of 1] by (simp add: macchina_def)
  then have "proprietari macchina (alta_addr 1) = 8"
    using alta_addr_sel(2) [of 1] by (simp add: proprietari_def byte_rif_def macchina_def peso_def)
  moreover have "alta_addr 1 mod PAGE_SIZE = 0" by (rule alta_addr_sel(3))
  ultimately show ?thesis using pmm_last_owner [OF macchina_ok, of "alta_addr 1" 7] pmm_last_owner [OF macchina_ok, of "alta_addr 1" 8] by simp
qed

section \<open>Which page\<close>

text \<open>C33. Where a page for a program comes from (\<^verbatim>\<open>pmm_alloc_page_utente\<close>, \<^verbatim>\<open>pmm_alloc_page\<close>): from above 4 GB while one is free
  there; else from below 4 GB above the band of the kernel while one is free there; the band is used last; and the answer is 0 exactly
  when no page is free at all.\<close>

theorem pmm_alloc_order:
  assumes "pmm_ok s" and "pmm_alloc_page_utente s = (a, s')"
  shows "(a = 0 \<longleftrightarrow> (\<forall>k < g_total_pages s. page_used s k) \<and> g_alta_libere s = 0) \<and>
    (a \<noteq> 0 \<longrightarrow> pmm_e_ram s a \<and> proprietari s a = 0 \<and> (a < GB4 \<longrightarrow> g_alta_libere s = 0) \<and>
      (a < pmm_limite_kernel s * PAGE_SIZE \<longrightarrow> (\<forall>k. pmm_limite_kernel s \<le> k \<and> k < g_total_pages s \<longrightarrow> page_used s k)))"
proof -
  note u = pmm_alloc_page_utente_spec [OF assms]
  obtain r where b: "basso_ok s r" using assms(1) by (auto simp: pmm_ok_def)
  have lim: "pmm_limite_kernel s * PAGE_SIZE \<le> GB4" using limite_base [of s] by simp
  have l: "a < GB4 \<Longrightarrow> a \<noteq> 0 \<Longrightarrow> pmm_alloc_page s = (a, s')" using u assms(2) by (simp add: pmm_alloc_page_utente_def)
  have no: "a = 0" if all: "\<forall>k < g_total_pages s. page_used s k" "g_alta_libere s = 0"
  proof (rule ccontr)
    assume "a \<noteq> 0"
    moreover have "pmm_alloc_page s = (a, s')" using assms(2) all(2) by (simp add: pmm_alloc_page_utente_def)
    ultimately show False using all(1) libere_zero [OF assms(1)] by (simp add: pmm_alloc_page_def)
  qed
  show ?thesis
  proof (cases "a = 0")
    case True
    then show ?thesis using u by simp
  next
    case False
    then have c: "consegnata s a s'" "a < GB4 \<longrightarrow> g_alta_libere s = 0" using u by auto
    have "a < pmm_limite_kernel s * PAGE_SIZE \<longrightarrow> (\<forall>k. pmm_limite_kernel s \<le> k \<and> k < g_total_pages s \<longrightarrow> page_used s k)"
      using pmm_alloc_page_spec [OF assms(1) l] False lim by auto
    then show ?thesis using False c no by (auto simp: consegnata_def)
  qed
qed

theorem pmm_alloc_order_witness: "\<exists>a s'. pmm_alloc_page_utente macchina = (a, s') \<and> GB4 \<le> a"
proof -
  obtain a s' where e: "pmm_alloc_page_utente macchina = (a, s')" by (cases "pmm_alloc_page_utente macchina")
  have "g_alta_libere macchina \<noteq> 0" by (simp add: macchina_def)
  then have "GB4 \<le> a" using pmm_alloc_order [OF macchina_ok e] by (meson not_le)
  then show ?thesis using e by blast
qed

text \<open>C34. The search for contiguous pages (\<^verbatim>\<open>pmm_cerca_contigue\<close>, which skips ahead behind the page that broke a run) is first fit: it
  returns the first page of the first free block of that length that lies in the range, and the end of the range when there is none.\<close>

theorem pmm_cerca_contigue_exact:
  assumes "0 < count"
  shows "pmm_cerca_contigue da a count s = (case find (\<lambda>i. list_all (\<lambda>j. \<not> page_used s j) [i..<i + count] \<and> i + count \<le> a) [da..<a] of None \<Rightarrow> a | Some i \<Rightarrow> i)"
proof -
  have bl: "(list_all (\<lambda>j. \<not> page_used s j) [i..<i + count] \<and> i + count \<le> a) \<longleftrightarrow> blocco s a count i" for i
    by (auto simp: blocco_def list_all_iff)
  show ?thesis unfolding bl
  proof (cases "\<exists>p \<ge> da. blocco s a count p")
    case False
    then have "find (blocco s a count) [da..<a] = None" by (auto simp: find_None_iff)
    moreover have "pmm_cerca_contigue da a count s = a" using cerca_contigue_spec [OF assms, of da a s] False by auto
    ultimately show "pmm_cerca_contigue da a count s = (case find (blocco s a count) [da..<a] of None \<Rightarrow> a | Some i \<Rightarrow> i)" by simp
  next
    case True
    define i where "i = pmm_cerca_contigue da a count s"
    have i: "da \<le> i" "blocco s a count i" "i < a" "\<And>p. da \<le> p \<Longrightarrow> p < i \<Longrightarrow> \<not> blocco s a count p"
      using cerca_contigue_spec [OF assms, of da a s] True unfolding i_def by auto
    have "find (blocco s a count) [da..<a] = Some i"
      unfolding find_Some_iff by (rule exI [of _ "i - da"]) (use i in auto)
    then show "pmm_cerca_contigue da a count s = (case find (blocco s a count) [da..<a] of None \<Rightarrow> a | Some i \<Rightarrow> i)" by (simp add: i_def)
  qed
qed

theorem pmm_cerca_contigue_exact_witness: "pmm_cerca_contigue 0 4 2 macchina = 1"
proof -
  have u: "page_used macchina 0" "\<not> page_used macchina (Suc 0)" "\<not> page_used macchina (Suc (Suc 0))" "\<not> page_used macchina 3"
    using macchina_bit(1) [of 0] macchina_bit(1) [of 1] macchina_bit(1) [of "Suc (Suc 0)"] macchina_bit(1) [of 3] by simp_all
  have "[0..<4] = [0, 1, 2, 3 :: nat]" "[0..<0 + 2] = [0, Suc 0]" "[1..<1 + 2] = [Suc 0, 2]" by (simp_all add: upt_rec)
  then show ?thesis using pmm_cerca_contigue_exact [of 2 0 4 macchina] u by simp
qed

section \<open>Start-up\<close>

lemma max_addr_lt: "max_addr_di info < 2 ^ 32"
proof (cases "e820 info")
  case (Some es)
  define g where "g = (\<lambda>e m. if \<not> usabile e then m else (let fine = (base_low e + length_low e) mod 2 ^ 32 in if fine > m then fine else m))"
  have "m < 2 ^ 32 \<Longrightarrow> fold g es m < 2 ^ 32" for m
  proof (induction es arbitrary: m)
    case (Cons e es)
    have "g e m < 2 ^ 32" using Cons.prems by (simp add: g_def Let_def)
    then show ?case using Cons.IH by simp
  qed simp
  from this [of 0] show ?thesis using Some by (simp add: max_addr_di_def g_def)
qed (simp add: max_addr_di_def)

lemma totale_le: "ALIGN_UP v div PAGE_SIZE \<le> 2 ^ 20"
proof -
  have "(v + (PAGE_SIZE - 1)) mod 2 ^ 32 < 2 ^ 32" by simp
  then show ?thesis unfolding ALIGN_UP_def by (simp add: div_le_mono)
qed

text \<open>Marking touches the low pool only.\<close>

definition resto :: "pmm \<Rightarrow> pmm \<Rightarrow> bool" where
  "resto s s' \<longleftrightarrow> stessa_alta s s' \<and> g_oltre s' = g_oltre s"

lemma resto_trans: "resto s s1 \<Longrightarrow> resto s1 s2 \<Longrightarrow> resto s s2"
  by (simp add: resto_def stessa_alta_def)

lemma resto_fold: "(\<And>x s. resto s (f x s)) \<Longrightarrow> resto s (fold f xs s)"
proof (induction xs arbitrary: s)
  case (Cons x xs)
  then show ?case using resto_trans [of s "f x s"] by simp
qed (simp add: resto_def stessa_alta_def)

lemma resto_avvio: "resto s (pmm_mark_used b l s)" "resto s (pmm_mark_free b l s)" "resto s (segna_regioni info s)" "resto s (proteggi info ks fine s)"
proof -
  show u: "resto s (pmm_mark_used b l s)" for b l s
    unfolding pmm_mark_used_def Let_def by (rule resto_fold) (simp add: resto_def stessa_alta_def segna_usata_def)
  show f: "resto s (pmm_mark_free b l s)" for b l s
    unfolding pmm_mark_free_def Let_def by (rule resto_fold) (simp add: resto_def stessa_alta_def segna_libera_def)
  have i: "resto s s" for s by (simp add: resto_def stessa_alta_def)
  show "resto s (segna_regioni info s)"
  proof (cases "e820 info")
    case None
    show ?thesis unfolding segna_regioni_def None option.case Let_def using f resto_trans [OF f f] by simp
  next
    case (Some es)
    show ?thesis unfolding segna_regioni_def Some option.case by (rule resto_fold) (simp add: f i)
  qed
  show "resto s (proteggi info ks fine s)" unfolding proteggi_fold by (rule resto_fold) (simp add: u split: prod.split)
qed

lemma pmm_init_riserve:
  assumes "pmm_init ks ke info = Some (info', s)" and "regioni_alte_sane info"
  defines "tot \<equiv> ALIGN_UP (max_addr_di info) div PAGE_SIZE"
  assumes "256 \<le> tot" and "tot \<le> 8 * bitmap_size_di tot"
  shows "pmm_ok s \<and> g_total_pages s = tot \<and>
    (\<forall>k < tot. \<not> page_used s k \<longrightarrow> k \<in> regioni info \<and> k \<notin> riserva info' ks ((ALIGN_UP ke + bitmap_size_di tot + ALIGN_UP tot) mod 2 ^ 32))"
proof -
  define fine where "fine = (ALIGN_UP ke + bitmap_size_di tot + ALIGN_UP tot) mod 2 ^ 32"
  define s1 where "s1 = segna_regioni info' (pmm_vuota tot)"
  define s2 where "s2 = proteggi info' ks fine s1"
  define s3 where "s3 = s2\<lparr>g_last_alloc := addr_to_page 0x100000, g_last_alloc_k := addr_to_page 0x100000\<rparr>"
  let ?r = "bitmap_size_di tot"
  have i': "info' = (if rb_valida info \<and> rb_addr info \<noteq> 0 \<and> fine > rb_addr info then info\<lparr>rb_addr := 0, rb_byte := 0\<rparr> else info)"
    and s: "s = alta_init info' s3"
    using assms(1) unfolding pmm_init_def Let_def tot_def [symmetric] fine_def [symmetric] by (auto simp: s1_def s2_def s3_def split: if_splits)
  have e: "e820 info' = e820 info" "mem_upper info' = mem_upper info" by (simp_all add: i')
  then have reg: "regioni info' = regioni info" and sane: "regioni_alte_sane info'" using assms(2) unfolding regioni_def regioni_alte_sane_def e by simp_all
  have tl: "tot \<le> 2 ^ 20" unfolding tot_def by (rule totale_le)
  note v = vuota_ok [OF tl assms(5)]
  have vt: "g_total_pages (pmm_vuota tot) = tot" by (simp add: pmm_vuota_def)
  have p1: "basso0 s1 ?r" "g_total_pages s1 = tot" "\<And>j. j < tot \<Longrightarrow> page_used s1 j \<longleftrightarrow> j \<notin> regioni info"
    using segna_regioni_ok [OF v(1), of info'] v(2) vt reg unfolding s1_def by auto
  have p2: "basso0 s2 ?r" "g_total_pages s2 = tot" "\<And>j. j < tot \<Longrightarrow> page_used s2 j \<longleftrightarrow> j \<in> riserva info' ks fine \<or> j \<notin> regioni info"
    using proteggi_ok [OF p1(1), of info' ks fine] p1(2,3) unfolding s2_def by auto
  have "0 \<in> riserva info' ks fine" unfolding riserva_def riservate_def by (simp add: coperte_usate_def addr_to_page_def)
  then have u0: "page_used s2 0" using p2(3) [of 0] assms(4) by simp
  have "resto (pmm_vuota tot) s2" unfolding s2_def s1_def using resto_trans [OF resto_avvio(3,4)] .
  then have f: "g_alta s2 = None" "g_alta_rif s2 = None" "g_alta_libere s2 = 0" "g_alta_cursore s2 = 0" "g_oltre s2 = ([], 0)"
    by (simp_all add: resto_def stessa_alta_def pmm_vuota_def)
  have n: "addr_to_page 0x100000 \<le> g_total_pages s2" using assms(4) p2(2) by (simp add: addr_to_page_def)
  have "basso_ok s3 ?r" unfolding s3_def using basso0_basso [OF p2(1) u0 _ n] assms(4) p2(2) by simp
  moreover have "alto_ok s3" using f by (simp add: alto_ok_def s3_def)
  moreover have "tavola_sana s3" using f by (simp add: tavola_sana_def oltre_ok_def s3_def usati_di_def peso_def)
  ultimately have "pmm_ok s3" by (auto simp: pmm_ok_def)
  note a = alta_init_ok [OF this _ _ _ sane]
  have u3: "page_used s3 j \<longleftrightarrow> page_used s2 j" "g_total_pages s3 = tot" for j using p2(2) by (simp_all add: s3_def)
  have "pmm_ok s \<and> g_total_pages s = tot \<and> (\<forall>j < tot. page_used s3 j \<longrightarrow> page_used s j)"
    using a f u3 unfolding s by (simp add: s3_def)
  then show ?thesis using p2(3) u3 unfolding fine_def [symmetric] by auto
qed

text \<open>The memory the firmware calls usable, byte by byte: the regions of type 1 of the map with their 64 bit ends, or without a
  map the conventional memory and what is declared above 1 MB.\<close>

definition ram_usabile :: "boot_info \<Rightarrow> nat set" where
  "ram_usabile info =
     (case e820 info of
        Some es \<Rightarrow> (\<Union>e \<in> {e \<in> set es. e_type e = 1}.
          {base_high e * 2 ^ 32 + base_low e ..< base_high e * 2 ^ 32 + base_low e + (length_high e * 2 ^ 32 + length_low e)})
      | None \<Rightarrow> {0x1000 ..< 0xA0000} \<union> {0x100000 ..< 0x100000 + mem_upper info * 1024})"

definition byte_di :: "nat \<Rightarrow> nat set" where
  "byte_di k = {k * PAGE_SIZE ..< (k + 1) * PAGE_SIZE}"

text \<open>The fields of a region are 32 bits wide; and the regions \<^verbatim>\<open>pmm_init\<close> looks at below 4 GB begin with a page.\<close>

definition campi_32 :: "boot_info \<Rightarrow> bool" where
  "campi_32 info \<longleftrightarrow> (case e820 info of None \<Rightarrow> True | Some es \<Rightarrow> \<forall>e \<in> set es. base_low e < 2 ^ 32)"

definition inizi_allineati :: "boot_info \<Rightarrow> bool" where
  "inizi_allineati info \<longleftrightarrow> (case e820 info of None \<Rightarrow> True | Some es \<Rightarrow> \<forall>e \<in> set es. usabile e \<longrightarrow> base_low e mod PAGE_SIZE = 0)"

lemma coperte_libere_byte:
  assumes "k \<in> coperte_libere b l" "b < 2 ^ 32"
  shows "b < (k + 1) * PAGE_SIZE" "(k + 1) * PAGE_SIZE \<le> b + l" "b mod PAGE_SIZE = 0 \<Longrightarrow> b \<le> k * PAGE_SIZE"
proof -
  have k: "b div PAGE_SIZE \<le> k" "k < (b + l) mod 2 ^ 32 div PAGE_SIZE" using assms by (simp_all add: coperte_libere_def addr_to_page_def)
  then show "b < (k + 1) * PAGE_SIZE" by (simp add: div_less_iff_less_mult)
  have "(k + 1) * PAGE_SIZE \<le> (b + l) mod 2 ^ 32" using k(2) by (simp add: less_eq_div_iff_mult_less_eq Suc_le_eq)
  also have "\<dots> \<le> b + l" by (rule mod_less_eq_dividend)
  finally show "(k + 1) * PAGE_SIZE \<le> b + l" .
  show "b \<le> k * PAGE_SIZE" if "b mod PAGE_SIZE = 0" using k(1) that by (metis add_0_right div_mult_mod_eq mult_le_mono1)
qed

lemma regioni_ram:
  assumes "k \<in> regioni info" "campi_32 info"
  shows "(k + 1) * PAGE_SIZE - 1 \<in> ram_usabile info \<and> (inizi_allineati info \<longrightarrow> byte_di k \<subseteq> ram_usabile info)"
proof -
  obtain b l where r: "k \<in> coperte_libere b l" "b < 2 ^ 32" "{b ..< b + l} \<subseteq> ram_usabile info"
    "inizi_allineati info \<Longrightarrow> b mod PAGE_SIZE = 0"
  proof (cases "e820 info")
    case (Some es)
    then obtain e where e: "e \<in> set es" "usabile e" "k \<in> coperte_libere (base_low e) (length_low e)"
      using assms(1) by (auto simp: regioni_def)
    show thesis
      by (rule that [OF e(3)]) (use e assms(2) Some in \<open>auto simp: campi_32_def ram_usabile_def usabile_def inizi_allineati_def\<close>)
  next
    case None
    then consider "k \<in> coperte_libere 0x1000 0x9F000" | "k \<in> coperte_libere 0x100000 ((mem_upper info * 1024) mod 2 ^ 32)"
      using assms(1) by (auto simp: regioni_def split: if_splits)
    then show thesis
    proof cases
      case 1
      show thesis by (rule that [OF 1]) (use None in \<open>simp_all add: ram_usabile_def\<close>)
    next
      case 2
      have "(mem_upper info * 1024) mod 2 ^ 32 \<le> mem_upper info * 1024" by (rule mod_less_eq_dividend)
      then show thesis by (intro that [OF 2]) (use None in \<open>auto simp: ram_usabile_def\<close>)
    qed
  qed
  note c = coperte_libere_byte [OF r(1,2)]
  have "(k + 1) * PAGE_SIZE - 1 \<in> {b ..< b + l}" using c(1,2) by auto
  moreover have "byte_di k \<subseteq> {b ..< b + l}" if "inizi_allineati info" using c(2) c(3) [OF r(4) [OF that]] by (auto simp: byte_di_def)
  ultimately show ?thesis using r(3) by blast
qed

lemma coperte_usate_byte:
  assumes "k \<notin> coperte_usate b l" "b + l + PAGE_SIZE \<le> 2 ^ 32"
  shows "byte_di k \<inter> {b ..< b + l} = {}"
proof -
  have "b mod 2 ^ 32 = b" "(b + l + PAGE_SIZE - 1) mod 2 ^ 32 = b + l + PAGE_SIZE - 1" using assms(2) by simp_all
  then have "k < b div PAGE_SIZE \<or> (b + l + PAGE_SIZE - 1) div PAGE_SIZE \<le> k"
    using assms(1) by (auto simp: coperte_usate_def addr_to_page_def)
  then consider "k + 1 \<le> b div PAGE_SIZE" | "(b + l + PAGE_SIZE - 1) div PAGE_SIZE < k + 1" by linarith
  then have "(k + 1) * PAGE_SIZE \<le> b \<or> b + l + PAGE_SIZE - 1 < (k + 1) * PAGE_SIZE"
    by cases (simp_all only: less_eq_div_iff_mult_less_eq div_less_iff_less_mult zero_less_numeral simp_thms)
  then have "(k + 1) * PAGE_SIZE \<le> b \<or> b + l \<le> k * PAGE_SIZE" by auto
  then show ?thesis by (auto simp: byte_di_def)
qed


definition firmware :: boot_info where
  "firmware = \<lparr>e820 = Some [\<lparr>base_low = 0, base_high = 0, length_low = 0x9F000, length_high = 0, e_type = 1\<rparr>,
      \<lparr>base_low = 0x100000, base_high = 0, length_low = 0x1F00000, length_high = 0, e_type = 1\<rparr>,
      \<lparr>base_low = 0, base_high = 1, length_low = 0x3000, length_high = 0, e_type = 1\<rparr>],
    mem_lower = 0, mem_upper = 0, rb_valida = False, rb_addr = 0, rb_byte = 0, rd_addr = 0, rd_byte = 0\<rparr>"

lemma firmware_max: "max_addr_di firmware = 0x2000000"
  by (simp add: max_addr_di_def firmware_def usabile_def Let_def)

lemma firmware_sane: "regioni_alte_sane firmware"
proof -
  have r: "alta_regioni (the (e820 firmware)) = [(GB4, 0x100003000)]" by (simp add: alta_regioni_def firmware_def)
  have fine: "alta_fine [(GB4, 0x100003000)] = 0x100003000" by (simp add: alta_fine_def)
  have ps: "alta_pagine_di (0x100003000) (GB4, 0x100003000) = [0, 1, 2]" by (simp add: alta_pagine_di_def Let_def upt_rec)
  have e: "e820 firmware = Some (the (e820 firmware))" by (simp add: firmware_def)
  show ?thesis unfolding regioni_alte_sane_def by (subst e) (simp add: r fine ps)
qed

lemma firmware_32: "campi_32 firmware" "inizi_allineati firmware"
  by (simp_all add: campi_32_def inizi_allineati_def firmware_def)


text \<open>C36. The size \<^verbatim>\<open>pmm_init\<close> computes for the bitmap, \<^verbatim>\<open>ALIGN_UP(g_total_pages / 8, PAGE_SIZE)\<close>, is enough for the pages of the machine
  except when their number is 1 to 7 more than a multiple of 32768: then the bits of the last pages lie in the references behind the bitmap. The
  last pages then look free although everything was marked in use, and taking one of them adds references to page 0 or to a page after it.\<close>

theorem bitmap_size_short:
  assumes "tot \<le> 2 ^ 20"
  shows "(tot \<le> 8 * bitmap_size_di tot \<longleftrightarrow> tot mod 32768 = 0 \<or> 7 < tot mod 32768) \<and>
    (\<not> tot \<le> 8 * bitmap_size_di tot \<longrightarrow>
       \<not> page_used (pmm_vuota tot) (tot - tot mod 32768) \<and>
       rif_basso (pmm_vuota tot) (bitmap_size_di tot) 0 = 0 \<and>
       rif_basso (prendi_pagina (tot - tot mod 32768) (pmm_vuota tot)) (bitmap_size_di tot) 0 = 1)"
proof -
  define q where "q = tot div 32768"
  define p where "p = tot mod 32768"
  have tot: "tot = 32768 * q + p" "p < 32768" by (simp_all add: q_def p_def)
  have "tot div 8 = 4096 * q + p div 8" unfolding tot by simp
  then have "bitmap_size_di tot = (4096 * q + p div 8 + 4095) div 4096 * 4096"
    using assms by (simp add: bitmap_size_di_def ALIGN_UP_def add.assoc)
  also have "(4096 * q + p div 8 + 4095) div 4096 = q + (p div 8 + 4095) div 4096" by (simp add: add.assoc)
  finally have b: "bitmap_size_di tot = (q + (p div 8 + 4095) div 4096) * 4096" .
  show ?thesis
  proof (cases "p div 8 = 0")
    case True
    then have bs: "bitmap_size_di tot = 4096 * q" unfolding b by simp
    have p8: "p < 8" using True by (simp add: div_eq_0_iff)
    have k: "tot - tot mod 32768 = 32768 * q" using tot p_def by simp
    have i: "(32768 * q) div 8 = 4096 * q" "(32768 * q) mod 8 = 0" by simp_all
    show ?thesis
    proof (cases "p = 0")
      case p0: True
      then show ?thesis using bs tot by (simp add: p_def [symmetric])
    next
      case p0: False
      have "4096 * q < length (g_bitmap (pmm_vuota tot))" "g_bitmap (pmm_vuota tot) ! (4096 * q) = 0"
      proof -
        have "tot \<le> ALIGN_UP tot" using assms by (intro ALIGN_UP_ge) simp
        then have "0 < ALIGN_UP tot" using tot(1) p0 by simp
        then show "4096 * q < length (g_bitmap (pmm_vuota tot))" "g_bitmap (pmm_vuota tot) ! (4096 * q) = 0"
          using bs by (simp_all add: pmm_vuota_def nth_append)
      qed
      then show ?thesis using bs tot p0 p8 k i unfolding k by (simp add: p_def [symmetric] bitmap_test_def prendi_pagina_def bitmap_set_def)
    qed
  next
    case False
    then have "1 \<le> p div 8" by simp
    then have "1 \<le> (p div 8 + 4095) div 4096" by simp
    then have "32768 * (q + 1) \<le> 8 * bitmap_size_di tot" unfolding b by simp
    moreover have "tot < 32768 * (q + 1)" unfolding q_def using dividend_less_times_div [of 32768 tot] by simp
    ultimately have "tot \<le> 8 * bitmap_size_di tot" by (rule order_less_imp_le [OF order_less_le_trans, rotated])
    moreover have "7 < tot mod 32768" using False unfolding p_def [symmetric] by (simp add: div_eq_0_iff)
    ultimately show ?thesis by blast
  qed
qed

theorem bitmap_size_short_witness:
  "rif_basso (prendi_pagina 32768 (pmm_vuota 32769)) (bitmap_size_di 32769) 0 = 1 \<and> rif_basso (pmm_vuota 32769) (bitmap_size_di 32769) 0 = 0"
  using bitmap_size_short [of 32769] by simp

text \<open>Freeing an address above 4 GB that is not the start of a page is not refused, as it is below 4 GB: the reference byte is not looked
  for, and the page goes back to the pool while its owners still have it.\<close>

theorem pmm_free_unaligned_high:
  assumes "pmm_ok s" and "a \<ge> GB4" "a mod PAGE_SIZE = 0" "1 < proprietari s a" and "0 < d" "d < PAGE_SIZE"
  shows "\<not> in_uso (pmm_free_page (a + d) s) a"
proof -
  have al: "alto_ok s" using assms(1) by (simp add: pmm_ok_def)
  obtain k where k: "a = alta_addr k" using alta_aligned [OF assms(2,3)] by auto
  have u: "in_uso s (alta_addr k)" using assms(4) k by (simp add: proprietari_def split: if_splits)
  then obtain m where m: "g_alta s = Some m" "k < g_alta_pagine s" "alta_test s k" "alta_pagina (alta_addr k) = k"
    by (rule in_uso_alto_Some [OF al])
  have nd: "(a + d) mod PAGE_SIZE \<noteq> 0" using assms(3,5,6) by (metis mod_add_left_eq add_0 mod_less neq0_conv)
  have pg: "alta_pagina (a + d) = k"
  proof -
    have "(a + d - GB4) div PAGE_SIZE = k" using k assms(6) by simp
    then show ?thesis using alto_okD(3) [OF al m(1)] m(2) by (simp only: alta_pagina_def mod_less)
  qed
  have "a + d < GB4 + g_alta_pagine s * PAGE_SIZE" using k m(2) assms(6) by (simp add: less_eq_Suc_le [symmetric])
  then have "alta_dentro s (a + d)" using m(1) assms(2) by (simp add: alta_dentro_def)
  moreover have "rif_alto s (a + d) = None" using nd by (simp add: rif_alto_def)
  ultimately have "pmm_free_page (a + d) s = alta_lascia k s"
    using assms(2) pg m by (simp add: pmm_free_page_def alta_libera_def alta_lascia_def)
  moreover have "\<not> alta_test (alta_lascia k s) k"
    using bitmap_test_clr [of k m] alto_okD(7) [OF al m(1) m(2)] m(1) by (simp add: alta_lascia_def)
  ultimately show ?thesis using k m(4) by (simp add: in_uso_def alta_usata_def)
qed

theorem pmm_free_unaligned_high_witness: "\<not> in_uso (pmm_free_page (alta_addr 1 + 8) macchina) (alta_addr 1)"
proof -
  have al: "alto_ok macchina" using macchina_ok by (simp add: pmm_ok_def)
  have "in_uso macchina (alta_addr 1)" using in_uso_alto [OF al, of 1] macchina_bit(2) [of 1] by (simp add: macchina_def)
  then have "proprietari macchina (alta_addr 1) = 8"
    using alta_addr_sel(2) [of 1] by (simp add: proprietari_def byte_rif_def macchina_def peso_def)
  then show ?thesis using alta_addr_sel(3) [of 1] by (intro pmm_free_unaligned_high [OF macchina_ok]) simp_all
qed

end
