(* ===== verification/Sha256.thy ===== *)
theory Sha256
  imports Bytes Complex_Main
begin

text \<open>
  SHA-256 of the kernel (\<^verbatim>\<open>kernel/crypto/sha256.c\<close>), with which \<^verbatim>\<open>su\<close> checks a password, against the Secure Hash
  Standard (FIPS 180-4): the code works block by block and composes the padding on the last one or two blocks; the standard
  pads the whole message first.
\<close>

section \<open>The code\<close>

definition sha_ruotad :: "u32 \<Rightarrow> nat \<Rightarrow> u32" where
  "sha_ruotad x n = drop_bit n x OR push_bit (32 - n) x"

text \<open>The table of constants, row by row as the source lays it out.\<close>

definition sha_K :: "u32 list" where
  "sha_K = concat
    [[0x428a2f98,0x71374491,0xb5c0fbcf,0xe9b5dba5,0x3956c25b,0x59f111f1],
     [0x923f82a4,0xab1c5ed5,0xd807aa98,0x12835b01,0x243185be,0x550c7dc3],
     [0x72be5d74,0x80deb1fe,0x9bdc06a7,0xc19bf174,0xe49b69c1,0xefbe4786],
     [0x0fc19dc6,0x240ca1cc,0x2de92c6f,0x4a7484aa,0x5cb0a9dc,0x76f988da],
     [0x983e5152,0xa831c66d,0xb00327c8,0xbf597fc7,0xc6e00bf3,0xd5a79147],
     [0x06ca6351,0x14292967,0x27b70a85,0x2e1b2138,0x4d2c6dfc,0x53380d13],
     [0x650a7354,0x766a0abb,0x81c2c92e,0x92722c85,0xa2bfe8a1,0xa81a664b],
     [0xc24b8b70,0xc76c51a3,0xd192e819,0xd6990624,0xf40e3585,0x106aa070],
     [0x19a4c116,0x1e376c08,0x2748774c,0x34b0bcb5,0x391c0cb3,0x4ed8aa4a],
     [0x5b9cca4f,0x682e6ff3,0x748f82ee,0x78a5636f,0x84c87814,0x8cc70208],
     [0x90befffa,0xa4506ceb,0xbef9a3f7,0xc67178f2]]"

type_synonym otto = "u32 \<times> u32 \<times> u32 \<times> u32 \<times> u32 \<times> u32 \<times> u32 \<times> u32"

definition sha_inizio :: otto where
  "sha_inizio = (0x6a09e667,0xbb67ae85,0x3c6ef372,0xa54ff53a,0x510e527f,0x9b05688c,0x1f83d9ab,0x5be0cd19)"

text \<open>The words of a block, and their extension to 64: \<open>w\<close> grows by one word per turn.\<close>

definition be32 :: "u8 list \<Rightarrow> u32" where
  "be32 p = push_bit 24 (ucast (p ! 0)) OR push_bit 16 (ucast (p ! 1)) OR push_bit 8 (ucast (p ! 2)) OR ucast (p ! 3)"

definition sha_parole :: "u8 list \<Rightarrow> u32 list" where
  "sha_parole blocco = map (\<lambda>t. be32 (drop (t * 4) blocco)) [0..<16]"

definition sha_estendi :: "nat \<Rightarrow> u32 list \<Rightarrow> u32 list" where
  "sha_estendi t w =
     (let s0 = sha_ruotad (w ! (t - 15)) 7 XOR sha_ruotad (w ! (t - 15)) 18 XOR drop_bit 3 (w ! (t - 15));
          s1 = sha_ruotad (w ! (t - 2)) 17 XOR sha_ruotad (w ! (t - 2)) 19 XOR drop_bit 10 (w ! (t - 2))
      in w @ [w ! (t - 16) + s0 + w ! (t - 7) + s1])"

definition sha_giro :: "u32 list \<Rightarrow> nat \<Rightarrow> otto \<Rightarrow> otto" where
  "sha_giro w t = (\<lambda>(a, b, c, d, e, f, g, hh).
     (let S1 = sha_ruotad e 6 XOR sha_ruotad e 11 XOR sha_ruotad e 25;
          ch = (e AND f) XOR (NOT e AND g);
          S0 = sha_ruotad a 2 XOR sha_ruotad a 13 XOR sha_ruotad a 22;
          mj = (a AND b) XOR (a AND c) XOR (b AND c);
          t1 = hh + S1 + ch + sha_K ! t + w ! t;
          t2 = S0 + mj
      in (t1 + t2, a, b, c, d + t1, e, f, g)))"

definition otto_somma :: "otto \<Rightarrow> otto \<Rightarrow> otto" where
  "otto_somma = (\<lambda>(a, b, c, d, e, f, g, h) (a', b', c', d', e', f', g', h').
     (a + a', b + b', c + c', d + d', e + e', f + f', g + g', h + h'))"

text \<open>The body that stands twice in the loop: one block into the eight words.\<close>

definition sha_blocco :: "otto \<Rightarrow> u8 list \<Rightarrow> otto" where
  "sha_blocco h blocco =
     (let w = fold sha_estendi [16..<64] (sha_parole blocco) in otto_somma h (fold (sha_giro w) [0..<64] h))"

definition sha_lunghezza :: "u64 \<Rightarrow> u8 list" where
  "sha_lunghezza bits = map (\<lambda>i. ucast (drop_bit (56 - 8 * i) bits)) [0..<8]"

text \<open>The loop over the blocks. The argument is what \<^verbatim>\<open>p\<close> still has to read, its length is \<^verbatim>\<open>resta\<close>; the value
  \<^verbatim>\<open>(size_t)-1\<close> of \<^verbatim>\<open>resta\<close> is the branch that compresses twice.\<close>

function sha_da :: "u64 \<Rightarrow> u8 list \<Rightarrow> otto \<Rightarrow> otto" where
  "sha_da bits p h =
     (if length p \<ge> 64 then sha_da bits (drop 64 p) (sha_blocco h (take 64 p))
      else
        (let n = length p + 1; q = p @ [0x80] in
         if n > 56
         then sha_blocco (sha_blocco h (q @ replicate (64 - n) 0)) (replicate 56 0 @ sha_lunghezza bits)
         else sha_blocco h (q @ replicate (56 - n) 0 @ sha_lunghezza bits)))"
  by pat_completeness auto
termination by (relation "measure (\<lambda>(bits, p, h). length p)") auto

declare sha_da.simps [simp del]

definition be32_metti :: "u32 \<Rightarrow> u8 list" where
  "be32_metti v = [ucast (drop_bit 24 v), ucast (drop_bit 16 v), ucast (drop_bit 8 v), ucast v]"

definition sha_uscita :: "otto \<Rightarrow> u8 list" where
  "sha_uscita = (\<lambda>(a, b, c, d, e, f, g, h). concat (map be32_metti [a, b, c, d, e, f, g, h]))"

text \<open>The length is an argument of its own in the source, 32 bits wide; \<open>dati\<close> are the bytes it names.\<close>

definition sha256 :: "u8 list \<Rightarrow> u8 list" where
  "sha256 dati = sha_uscita (sha_da (of_nat (length dati) * 8) dati sha_inizio)"

definition cifre :: string where
  "cifre = ''0123456789abcdef''"

definition sha256_esa :: "u8 list \<Rightarrow> string" where
  "sha256_esa dati =
     concat (map (\<lambda>d. [cifre ! unat (drop_bit 4 d), cifre ! unat (d AND 0x0F)]) (sha256 dati)) @ [CHR 0x00]"

section \<open>The standard\<close>

text \<open>The constants of the standard are the first 32 bits of the fractional parts of roots of the first primes: the
  conversion to a word drops the integral part.\<close>

definition primi :: "nat list" where
  "primi =
    [2, 3, 5, 7, 11, 13, 17, 19, 23, 29, 31, 37, 41, 43, 47, 53,
     59, 61, 67, 71, 73, 79, 83, 89, 97, 101, 103, 107, 109, 113, 127, 131,
     137, 139, 149, 151, 157, 163, 167, 173, 179, 181, 191, 193, 197, 199, 211, 223,
     227, 229, 233, 239, 241, 251, 257, 263, 269, 271, 277, 281, 283, 293, 307, 311]"

definition fips_K :: "u32 list" where
  "fips_K = map (\<lambda>p. word_of_int \<lfloor>2 ^ 32 * root 3 (real p)\<rfloor>) primi"

definition fips_H0 :: "u32 list" where
  "fips_H0 = map (\<lambda>p. word_of_int \<lfloor>2 ^ 32 * root 2 (real p)\<rfloor>) (take 8 primi)"

definition fips_Ch :: "u32 \<Rightarrow> u32 \<Rightarrow> u32 \<Rightarrow> u32" where
  "fips_Ch x y z = (x AND y) XOR (NOT x AND z)"

definition fips_Maj :: "u32 \<Rightarrow> u32 \<Rightarrow> u32 \<Rightarrow> u32" where
  "fips_Maj x y z = (x AND y) XOR (x AND z) XOR (y AND z)"

definition fips_Sigma :: "nat \<Rightarrow> nat \<Rightarrow> nat \<Rightarrow> u32 \<Rightarrow> u32" where
  "fips_Sigma i j k x = word_rotr i x XOR word_rotr j x XOR word_rotr k x"

definition fips_sigma :: "nat \<Rightarrow> nat \<Rightarrow> nat \<Rightarrow> u32 \<Rightarrow> u32" where
  "fips_sigma i j k x = word_rotr i x XOR word_rotr j x XOR drop_bit k x"

fun fips_W :: "u32 list \<Rightarrow> nat \<Rightarrow> u32" where
  "fips_W M t =
     (if t < 16 then M ! t
      else fips_sigma 17 19 10 (fips_W M (t - 2)) + fips_W M (t - 7) + fips_sigma 7 18 3 (fips_W M (t - 15)) + fips_W M (t - 16))"

declare fips_W.simps [simp del]

definition fips_round :: "(nat \<Rightarrow> u32) \<Rightarrow> nat \<Rightarrow> otto \<Rightarrow> otto" where
  "fips_round W t = (\<lambda>(a, b, c, d, e, f, g, h).
     (let T1 = h + fips_Sigma 6 11 25 e + fips_Ch e f g + fips_K ! t + W t;
          T2 = fips_Sigma 2 13 22 a + fips_Maj a b c
      in (T1 + T2, a, b, c, d + T1, e, f, g)))"

text \<open>Words are read from and written to bytes as numbers, the most significant byte first.\<close>

definition fips_word :: "u8 list \<Rightarrow> u32" where
  "fips_word B = word_of_nat (256 ^ 3 * unat (B ! 0) + 256 ^ 2 * unat (B ! 1) + 256 * unat (B ! 2) + unat (B ! 3))"

definition fips_bytes :: "u32 \<Rightarrow> u8 list" where
  "fips_bytes w = map (\<lambda>i. word_of_nat (unat w div 256 ^ (3 - i))) [0..<4]"

definition fips_block :: "otto \<Rightarrow> u8 list \<Rightarrow> otto" where
  "fips_block H B =
     (case (fold (fips_round (fips_W (map (\<lambda>i. fips_word (drop (4 * i) B)) [0..<16]))) [0..<64] H, H) of
        ((a, b, c, d, e, f, g, h), (H0, H1, H2, H3, H4, H5, H6, H7)) \<Rightarrow>
          (a + H0, b + H1, c + H2, d + H3, e + H4, f + H5, g + H6, h + H7))"

text \<open>The padding: a bit one, zeros up to 448 modulo 512 bits, the length in bits as a 64 bit number.\<close>

definition fips_pad :: "u8 list \<Rightarrow> u8 list" where
  "fips_pad M = M @ [0x80] @ replicate ((119 - length M mod 64) mod 64) 0
                 @ map (\<lambda>i. word_of_nat (8 * length M div 256 ^ (7 - i))) [0..<8]"

fun fips_blocks :: "u8 list \<Rightarrow> u8 list list" where
  "fips_blocks M = (if M = [] then [] else take 64 M # fips_blocks (drop 64 M))"

declare fips_blocks.simps [simp del]

definition fips_sha256 :: "u8 list \<Rightarrow> u8 list" where
  "fips_sha256 M =
     (let H0 = (case fips_H0 of [a, b, c, d, e, f, g, h] \<Rightarrow> (a, b, c, d, e, f, g, h))
      in (case fold (\<lambda>B H. fips_block H B) (fips_blocks (fips_pad M)) H0 of
            (a, b, c, d, e, f, g, h) \<Rightarrow> concat (map fips_bytes [a, b, c, d, e, f, g, h])))"

section \<open>The constants\<close>

lemma radice_intera:
  assumes "0 < k" "x ^ k \<le> 2 ^ (32 * k) * int p" "2 ^ (32 * k) * int p < (x + 1) ^ k" "0 \<le> x"
  shows "\<lfloor>2 ^ 32 * root k (real p)\<rfloor> = x"
proof -
  let ?y = "2 ^ 32 * root k (real p) :: real"
  have y: "?y ^ k = real_of_int (2 ^ (32 * k) * int p)" "0 \<le> ?y"
    using assms(1) by (simp_all add: power_mult_distrib power_mult real_root_pow_pos2)
  have "real_of_int x ^ k \<le> ?y ^ k" unfolding y of_int_power [symmetric] of_int_le_iff by (rule assms(2))
  then have "real_of_int x \<le> ?y" using power_mono_iff [OF _ y(2) assms(1), of "real_of_int x"] assms(4) by (metis of_int_0_le_iff)
  moreover have "?y ^ k < real_of_int (x + 1) ^ k" unfolding y of_int_power [symmetric] of_int_less_iff by (rule assms(3))
  then have "?y < real_of_int (x + 1)" by (rule power_less_imp_less_base) (use assms(4) in simp)
  ultimately show ?thesis by (simp add: floor_eq_iff)
qed

lemma radici:
  assumes "0 < k" "list_all2 (\<lambda>p x. 0 \<le> x \<and> x ^ k \<le> 2 ^ (32 * k) * int p \<and> 2 ^ (32 * k) * int p < (x + 1) ^ k) ps xs"
  shows "map (\<lambda>p. word_of_int \<lfloor>2 ^ 32 * root k (real p)\<rfloor>) ps = (map word_of_int xs :: u32 list)"
  using assms(2)
proof (induction rule: list_all2_induct)
  case (Cons p ps x xs)
  then have "\<lfloor>2 ^ 32 * root k (real p)\<rfloor> = x" using radice_intera [OF assms(1)] by blast
  then show ?case using Cons by (simp only: list.map)
qed simp

lemma fips_K_code: "fips_K = sha_K"
  unfolding fips_K_def
  by (subst radici [of 3 _
    "[5411319704, 6194414737, 7344290767, 8215976869, 9551921755, 10098905585,
     11043570340, 11460697813, 12214315672, 13195500289, 13492127166, 14311783875,
     14809980276, 15046980094, 15499789991, 16133124468, 16720292289, 16907126662,
     17444216262, 17784676812, 17950125167, 18429019306, 18734950876, 19175934170,
     19734090066, 20001703533, 20132865992, 20390182855, 20516441075, 20764397895,
     21588763473, 21813078375, 22141143685, 22248366392, 22769593852, 22871018771,
     23170020180, 23461497531, 23651862830, 23931792517, 24205322401, 24295138891,
     24734567280, 24820601251, 24990902297, 25075189284, 25569408389, 26045227120,
     26200031510, 26276752392, 26428864332, 26653801653, 26727943347, 27092625994,
     27306805839, 27517677555, 27725365998, 27793908591, 27997534228, 28131656200,
     28198240250, 28526537963, 28973835255, 29099129074]"])
    (simp_all add: primi_def sha_K_def)

lemma fips_H0_code:
  "fips_H0 = [0x6a09e667,0xbb67ae85,0x3c6ef372,0xa54ff53a,0x510e527f,0x9b05688c,0x1f83d9ab,0x5be0cd19]"
  unfolding fips_H0_def
  by (subst radici [of 2 _
    "[6074000999, 7439101573, 9603838834, 11363415354,
     14244795007, 15485724812, 17708603819, 18721328409]"])
    (simp_all add: primi_def)

section \<open>One block\<close>

lemma sha_ruotad_rotr:
  assumes "0 < n" "n < 32"
  shows "sha_ruotad x n = word_rotr n x"
proof (rule bit_word_eqI)
  fix i assume "i < LENGTH(32)"
  then have i: "i < 32" by simp
  show "bit (sha_ruotad x n) i = bit (word_rotr n x) i"
  proof (cases "i + n < 32")
    case True
    then have "\<not> 32 - n \<le> i" by simp
    then show ?thesis using assms i True by (simp add: sha_ruotad_def bit_simps add.commute)
  next
    case False
    then have "(i + n) mod 32 = i + n - 32" "\<not> bit x (n + i)"
      using assms i by (simp_all add: le_mod_geq bit_word.rep_eq impossible_bit)
    then show ?thesis using assms i False by (auto simp: sha_ruotad_def bit_simps)
  qed
qed

lemma sha_schedule:
  assumes "length M = 16"
  shows "fold sha_estendi [16..<16 + k] M = map (fips_W M) [0..<16 + k]"
proof (induction k)
  case 0
  show ?case by (rule nth_equalityI) (auto simp: assms fips_W.simps)
next
  case (Suc k)
  have "fips_W M (16 + k) = fips_W M k + fips_sigma 7 18 3 (fips_W M (1 + k)) + fips_W M (9 + k)
      + fips_sigma 17 19 10 (fips_W M (14 + k))"
    by (subst fips_W.simps) (simp add: add_ac)
  then have "sha_estendi (16 + k) (map (fips_W M) [0..<16 + k]) = map (fips_W M) ([0..<16 + k] @ [16 + k])"
    by (simp add: sha_estendi_def Let_def sha_ruotad_rotr fips_sigma_def add_ac)
  moreover have "[16..<16 + Suc k] = [16..<16 + k] @ [16 + k]" "[0..<16 + Suc k] = [0..<16 + k] @ [16 + k]"
    by (simp_all add: upt_Suc_append [symmetric])
  ultimately show ?case by (simp only: fold_append fold.simps o_apply id_apply Suc)
qed

lemma be32_fips: "be32 p = fips_word p"
proof -
  have e: "push_bit 24 (ucast a) OR push_bit 16 (ucast b) OR push_bit 8 (ucast c) OR ucast d
      = (push_bit 24 (ucast a) + (push_bit 16 (ucast b) + (push_bit 8 (ucast c) + ucast d)) :: u32)" for a b c d :: u8
  proof -
    have "push_bit 8 (ucast c) + ucast d = (push_bit 8 (ucast c) OR ucast d :: u32)"
      by (rule disjunctive_add_eq_or, rule bit_word_eqI) (auto simp: bit_simps dest: bit_imp_le_length)
    moreover have "push_bit 16 (ucast b) + (push_bit 8 (ucast c) OR ucast d) = (push_bit 16 (ucast b) OR (push_bit 8 (ucast c) OR ucast d) :: u32)"
      by (rule disjunctive_add_eq_or, rule bit_word_eqI) (auto simp: bit_simps dest: bit_imp_le_length)
    moreover have "push_bit 24 (ucast a) + (push_bit 16 (ucast b) OR (push_bit 8 (ucast c) OR ucast d))
        = (push_bit 24 (ucast a) OR (push_bit 16 (ucast b) OR (push_bit 8 (ucast c) OR ucast d)) :: u32)"
      by (rule disjunctive_add_eq_or, rule bit_word_eqI) (auto simp: bit_simps dest: bit_imp_le_length)
    ultimately show ?thesis by simp
  qed
  show ?thesis unfolding be32_def e by (simp add: fips_word_def push_bit_eq_mult algebra_simps)
qed

lemma be32_metti_fips: "be32_metti v = fips_bytes v"
proof -
  have "(ucast (drop_bit (8 * k) v) :: u8) = word_of_nat (unat v div 256 ^ k)" for k
  proof -
    have "unat (drop_bit (8 * k) v) = unat v div 256 ^ k"
      unfolding unat_drop_bit_eq by (simp add: drop_bit_eq_div power_mult)
    then show ?thesis by (metis of_nat_unat)
  qed
  from this [of 3] this [of 2] this [of 1] this [of 0] show ?thesis by (simp add: be32_metti_def fips_bytes_def upt_rec)
qed

lemma sha_blocco_fips: "sha_blocco h b = fips_block h b"
proof -
  let ?W = "fips_W (sha_parole b)"
  have w: "fold sha_estendi [16..<64] (sha_parole b) = map ?W [0..<64]"
    using sha_schedule [of "sha_parole b" 48] by (simp add: sha_parole_def)
  have "fold (sha_giro (map ?W [0..<64])) [0..<64] h = fold (fips_round ?W) [0..<64] h"
    by (rule fold_cong)
      (auto simp: sha_giro_def fips_round_def fips_Sigma_def fips_Ch_def fips_Maj_def fips_K_code sha_ruotad_rotr Let_def fun_eq_iff)
  then show ?thesis
    unfolding sha_blocco_def w fips_block_def Let_def
    by (simp add: sha_parole_def be32_fips otto_somma_def mult.commute add.commute split: prod.split)
qed

section \<open>The padding\<close>

lemma fips_blocks_append:
  assumes "length B = 64"
  shows "fips_blocks (B @ M) = B # fips_blocks M"
  using assms by (subst fips_blocks.simps) auto

lemma fips_blocks_Nil [simp]: "fips_blocks [] = []"
  by (simp add: fips_blocks.simps)

lemma length_sha_lunghezza [simp]: "length (sha_lunghezza b) = 8"
  by (simp add: sha_lunghezza_def)

lemma sha_da_blocks:
  "sha_da bits p h = fold (\<lambda>B H. sha_blocco H B)
     (fips_blocks (p @ [0x80] @ replicate ((119 - length p mod 64) mod 64) 0 @ sha_lunghezza bits)) h"
proof (induction bits p h rule: sha_da.induct)
  case (1 bits p h)
  show ?case
  proof (cases "length p \<ge> 64")
    case True
    let ?R = "[0x80] @ replicate ((119 - length p mod 64) mod 64) 0 @ sha_lunghezza bits"
    have "fips_blocks (p @ ?R) = take 64 p # fips_blocks (drop 64 p @ ?R)"
      using fips_blocks_append [of "take 64 p" "drop 64 p @ ?R"] True by (simp flip: append_assoc)
    moreover have "length (drop 64 p) mod 64 = length p mod 64" using True by (simp add: le_mod_geq)
    ultimately show ?thesis using 1 [OF True] True by (subst sha_da.simps) simp
  next
    case False
    then have m: "length p mod 64 = length p" by simp
    show ?thesis
    proof (cases "length p + 1 > 56")
      case True
      have z: "replicate ((119 - length p) mod 64) 0 = replicate (63 - length p) 0 @ replicate 56 (0 :: u8)"
        using True False by (simp add: replicate_add [symmetric] le_mod_geq)
      have "fips_blocks (p @ [0x80] @ replicate ((119 - length p mod 64) mod 64) 0 @ sha_lunghezza bits)
          = fips_blocks ((p @ 0x80 # replicate (63 - length p) 0) @ (replicate 56 0 @ sha_lunghezza bits) @ [])"
        by (simp add: m z)
      also have "\<dots> = [p @ 0x80 # replicate (63 - length p) 0, replicate 56 0 @ sha_lunghezza bits]"
        using False by (subst fips_blocks_append, simp, subst fips_blocks_append) simp_all
      finally show ?thesis using True False by (subst sha_da.simps) (simp add: Let_def)
    next
      case short: False
      have "(119 - length p) mod 64 = 55 - length p" using short False by (simp add: le_mod_geq)
      then have "fips_blocks (p @ [0x80] @ replicate ((119 - length p mod 64) mod 64) 0 @ sha_lunghezza bits)
          = fips_blocks ((p @ 0x80 # replicate (55 - length p) 0 @ sha_lunghezza bits) @ [])"
        by (simp add: m)
      also have "\<dots> = [p @ 0x80 # replicate (55 - length p) 0 @ sha_lunghezza bits]"
        using short by (subst fips_blocks_append) simp_all
      finally show ?thesis using short False by (subst sha_da.simps) (simp add: Let_def)
    qed
  qed
qed

lemma sha_lunghezza_fips:
  assumes "n < 2 ^ 32"
  shows "sha_lunghezza (of_nat n * 8) = map (\<lambda>i. word_of_nat (8 * n div 256 ^ (7 - i))) [0..<8]"
proof -
  have u: "unat (of_nat n * 8 :: u64) = 8 * n"
    using assms by (simp add: unat_word_ariths unsigned_of_nat take_bit_nat_eq_self)
  have "(ucast (drop_bit (56 - 8 * i) (of_nat n * 8 :: u64)) :: u8) = word_of_nat (8 * n div 256 ^ (7 - i))" if "i < 8" for i
  proof -
    have "56 - 8 * i = 8 * (7 - i)" using that by simp
    then have "unat (drop_bit (56 - 8 * i) (of_nat n * 8 :: u64)) = 8 * n div 256 ^ (7 - i)"
      unfolding unat_drop_bit_eq u by (simp add: drop_bit_eq_div power_mult)
    then show ?thesis by (metis of_nat_unat)
  qed
  then show ?thesis by (simp add: sha_lunghezza_def)
qed

section \<open>The printed form\<close>

fun leggi_esa :: "string \<Rightarrow> u8 list" where
  "leggi_esa (a # b # cs) = word_of_nat (16 * length (takeWhile ((\<noteq>) a) cifre) + length (takeWhile ((\<noteq>) b) cifre)) # leggi_esa cs"
| "leggi_esa _ = []"

lemma cifre_posizione: "n < 16 \<Longrightarrow> length (takeWhile ((\<noteq>) (cifre ! n)) cifre) = n"
proof -
  have "list_all (\<lambda>n. length (takeWhile ((\<noteq>) (cifre ! n)) cifre) = n) [0..<16]" by code_simp
  then show "n < 16 \<Longrightarrow> length (takeWhile ((\<noteq>) (cifre ! n)) cifre) = n" by (simp add: list_all_iff)
qed

lemma byte_cifre:
  fixes d :: u8
  shows "unat (drop_bit 4 d) < 16" "unat (d AND 0x0F) < 16"
    "word_of_nat (16 * unat (drop_bit 4 d) + unat (d AND 0x0F)) = d"
proof -
  have "unat d < 256" using unsigned_less [of d] by simp
  then show h: "unat (drop_bit 4 d) < 16" unfolding unat_drop_bit_eq by (simp add: drop_bit_eq_div)
  have m: "unat (d AND 0x0F) = unat d mod 16"
  proof -
    have "d AND 0x0F = take_bit 4 d" by (simp add: take_bit_eq_mask mask_eq_exp_minus_1)
    then show ?thesis by (simp only: unsigned_take_bit_eq) (simp add: take_bit_eq_mod)
  qed
  then show "unat (d AND 0x0F) < 16" by simp
  have "16 * unat (drop_bit 4 d) + unat (d AND 0x0F) = unat d"
    unfolding m unat_drop_bit_eq by (simp add: drop_bit_eq_div)
  then show "word_of_nat (16 * unat (drop_bit 4 d) + unat (d AND 0x0F)) = d" by (metis of_nat_unat ucast_id)
qed

lemma leggi_scritte:
  "leggi_esa (concat (map (\<lambda>d. [cifre ! unat (drop_bit 4 d), cifre ! unat (d AND 0x0F)]) ds)) = ds"
  by (induction ds) (simp_all add: cifre_posizione byte_cifre(1,2) byte_cifre(3) [simplified])

lemma cifre_scritte:
  "set (concat (map (\<lambda>d :: u8. [cifre ! unat (drop_bit 4 d), cifre ! unat (d AND 0x0F)]) ds)) \<subseteq> set cifre"
proof -
  have "length cifre = 16" by (simp add: cifre_def)
  then have "cifre ! unat (drop_bit 4 d) \<in> set cifre" "cifre ! unat (d AND 0x0F) \<in> set cifre" for d :: u8
    using byte_cifre [of d] by (simp_all del: nth_mem add: nth_mem)
  then show ?thesis by auto
qed

section \<open>Properties\<close>

text \<open>C6. The code implements SHA-256 of the standard: for every message whose length fits the argument (32 bits) the
  block by block computation, with the padding composed on the last blocks, gives the digest of the padded message, with the
  constants the standard derives from the primes.\<close>

theorem sha256_is_fips:
  assumes "length dati < 2 ^ 32"
  shows "sha256 dati = fips_sha256 dati"
proof -
  have "sha_inizio = (case fips_H0 of [a, b, c, d, e, f, g, h] \<Rightarrow> (a, b, c, d, e, f, g, h))"
    by (simp add: fips_H0_code sha_inizio_def)
  then show ?thesis
    unfolding sha256_def fips_sha256_def fips_pad_def sha_da_blocks sha_lunghezza_fips [OF assms] sha_blocco_fips sha_uscita_def
      be32_metti_fips Let_def by simp
qed

lemma sha256_abc:
  "sha256 [0x61, 0x62, 0x63] =
    [0xba, 0x78, 0x16, 0xbf, 0x8f, 0x01, 0xcf, 0xea, 0x41, 0x41, 0x40, 0xde, 0x5d, 0xae, 0x22, 0x23,
     0xb0, 0x03, 0x61, 0xa3, 0x96, 0x17, 0x7a, 0x9c, 0xb4, 0x10, 0xff, 0x61, 0xf2, 0x00, 0x15, 0xad]"
  by code_simp

theorem sha256_is_fips_witness:
  "length [0x61, 0x62, 0x63 :: u8] < 2 ^ 32 \<and> fips_sha256 [0x61, 0x62, 0x63] =
    [0xba, 0x78, 0x16, 0xbf, 0x8f, 0x01, 0xcf, 0xea, 0x41, 0x41, 0x40, 0xde, 0x5d, 0xae, 0x22, 0x23,
     0xb0, 0x03, 0x61, 0xa3, 0x96, 0x17, 0x7a, 0x9c, 0xb4, 0x10, 0xff, 0x61, 0xf2, 0x00, 0x15, 0xad]"
  using sha256_is_fips [of "[0x61, 0x62, 0x63]"] sha256_abc by simp


end
