(* ===== verification/Exbig.thy ===== *)
theory Exbig
  imports Bytes
begin

text \<open>
  Long integers (\<^verbatim>\<open>lib/exbig/exbig.c\<close>), with which certificates are verified: conversions, comparison, sums, the product
  of Montgomery and modular exponentiation. The loops over words are recursions over the lists of the words they read.
\<close>

section \<open>Numbers\<close>

abbreviation EXBIG_PAROLE :: nat where "EXBIG_PAROLE \<equiv> 128"

record exbig =
  ex_n :: nat
  ex_p :: "u32 list"

primrec normalizza_da :: "u32 list \<Rightarrow> nat \<Rightarrow> nat" where
  "normalizza_da p 0 = 0"
| "normalizza_da p (Suc k) = (if p ! k = 0 then normalizza_da p k else Suc k)"

definition normalizza :: "exbig \<Rightarrow> exbig" where
  "normalizza a = a\<lparr>ex_n := normalizza_da (ex_p a) (ex_n a)\<rparr>"

definition exbig_zero :: exbig where
  "exbig_zero = \<lparr>ex_n = 0, ex_p = replicate EXBIG_PAROLE 0\<rparr>"

definition exbig_da_parola :: "u32 \<Rightarrow> exbig" where
  "exbig_da_parola v = (if v \<noteq> 0 then exbig_zero\<lparr>ex_p := (ex_p exbig_zero)[0 := v], ex_n := 1\<rparr> else exbig_zero)"

definition exbig_e_zero :: "exbig \<Rightarrow> bool" where
  "exbig_e_zero a \<longleftrightarrow> ex_n a = 0"

primrec cmp_da :: "u32 list \<Rightarrow> u32 list \<Rightarrow> nat \<Rightarrow> int" where
  "cmp_da p q 0 = 0"
| "cmp_da p q (Suc i) = (if p ! i \<noteq> q ! i then (if p ! i > q ! i then 1 else -1) else cmp_da p q i)"

definition exbig_cmp :: "exbig \<Rightarrow> exbig \<Rightarrow> int" where
  "exbig_cmp a b =
     (if ex_n a \<noteq> ex_n b then (if ex_n a > ex_n b then 1 else -1) else cmp_da (ex_p a) (ex_p b) (ex_n a))"

function bit_di :: "u32 \<Rightarrow> nat" where
  "bit_di alta = (if alta \<noteq> 0 then 1 + bit_di (drop_bit 1 alta) else 0)"
  by pat_completeness auto
termination
proof (relation "measure unat")
  fix alta :: u32 assume "alta \<noteq> 0"
  then have "unat alta \<noteq> 0" by (simp add: unat_eq_zero)
  then have "unat (drop_bit 1 alta) < unat alta" unfolding unat_drop_bit_eq by (simp add: drop_bit_eq_div)
  then show "(drop_bit 1 alta, alta) \<in> measure unat" by simp
qed simp

declare bit_di.simps [simp del]

definition exbig_bit :: "exbig \<Rightarrow> nat" where
  "exbig_bit a = (if ex_n a = 0 then 0 else (ex_n a - 1) * 32 + bit_di (ex_p a ! (ex_n a - 1)))"

section \<open>Bytes, the heaviest first\<close>

text \<open>\<open>b\<close> are the bytes the length names. \<open>None\<close> is the result \<^verbatim>\<open>-1\<close>.\<close>

definition metti_byte :: "u8 list \<Rightarrow> nat \<Rightarrow> u32 list \<Rightarrow> u32 list" where
  "metti_byte b i p =
     (let pos = length b - 1 - i in p[pos div 4 := p ! (pos div 4) OR push_bit (pos mod 4 * 8) (ucast (b ! i))])"

definition exbig_da_byte :: "u8 list \<Rightarrow> exbig option" where
  "exbig_da_byte b0 =
     (let b = dropWhile (\<lambda>x. x = 0) b0; len = length b in
      if len > EXBIG_PAROLE * 4 then None
      else Some (normalizza \<lparr>ex_n = (len + 3) div 4, ex_p = fold (metti_byte b) [0..<len] (ex_p exbig_zero)\<rparr>))"

definition exbig_a_byte :: "exbig \<Rightarrow> nat \<Rightarrow> u8 list option" where
  "exbig_a_byte a len =
     (if (exbig_bit a + 7) div 8 > len then None
      else Some (map (\<lambda>i. let pos = len - 1 - i in
                          if pos div 4 < ex_n a then ucast (drop_bit (pos mod 4 * 8) (ex_p a ! (pos div 4))) else 0) [0..<len]))"

section \<open>Sum and difference\<close>

text \<open>A word of a number, zero past its end.\<close>

definition parola :: "exbig \<Rightarrow> nat \<Rightarrow> u32" where
  "parola a i = (if i < ex_n a then ex_p a ! i else 0)"

fun somma_parole :: "u64 \<Rightarrow> (u32 \<times> u32) list \<Rightarrow> u32 list \<times> u64" where
  "somma_parole t [] = ([], t)"
| "somma_parole t ((x, y) # xs) =
     (let t = t + (ucast x + ucast y); (rs, t') = somma_parole (drop_bit 32 t) xs in (ucast t # rs, t'))"

definition completa :: "u32 list \<Rightarrow> u32 list" where
  "completa rs = rs @ replicate (EXBIG_PAROLE - length rs) 0"

definition somma :: "exbig \<Rightarrow> exbig \<Rightarrow> u32 \<times> exbig" where
  "somma a b =
     (let n = (if ex_n a > ex_n b then ex_n a else ex_n b);
          (rs, t) = somma_parole 0 (map (\<lambda>i. (parola a i, parola b i)) [0..<n]);
          (rs, n, t) = (if t \<noteq> 0 \<and> n < EXBIG_PAROLE then (rs @ [ucast t], n + 1, 0) else (rs, n, t))
      in (ucast t, normalizza \<lparr>ex_n = n, ex_p = completa rs\<rparr>))"

fun sottrai_parole :: "u64 \<Rightarrow> (u32 \<times> u32) list \<Rightarrow> u32 list" where
  "sottrai_parole prestito [] = []"
| "sottrai_parole prestito ((x, y) # xs) =
     (let t = ucast x - ucast y - prestito in ucast t # sottrai_parole (drop_bit 32 t AND 1) xs)"

definition sottrai :: "exbig \<Rightarrow> exbig \<Rightarrow> exbig" where
  "sottrai a b =
     normalizza \<lparr>ex_n = ex_n a,
       ex_p = completa (sottrai_parole 0 (map (\<lambda>i. (ex_p a ! i, parola b i)) [0..<ex_n a]))\<rparr>"

definition togli_m :: "exbig \<Rightarrow> exbig \<Rightarrow> nat \<Rightarrow> exbig" where
  "togli_m r m n =
     normalizza \<lparr>ex_n = n,
       ex_p = sottrai_parole 0 (map (\<lambda>i. (ex_p r ! i, parola m i)) [0..<n]) @ drop n (ex_p r)\<rparr>"

section \<open>Montgomery\<close>

definition n0_inverso :: "u32 \<Rightarrow> u32" where
  "n0_inverso m = 0 - ((\<lambda>x. x * (2 - m * x)) ^^ 5) m"

text \<open>The loop \<^verbatim>\<open>t += x * c\<close> over \<open>n\<close> words, and the two words above them.\<close>

fun mul_parole :: "u32 \<Rightarrow> u64 \<Rightarrow> (u32 \<times> u32) list \<Rightarrow> u32 list \<times> u64" where
  "mul_parole c riporto [] = ([], riporto)"
| "mul_parole c riporto ((t, x) # xs) =
     (let s = ucast t + ucast x * ucast c + riporto; (rs, r) = mul_parole c (drop_bit 32 s) xs in (ucast s # rs, r))"

definition mont_somma :: "nat \<Rightarrow> u32 list \<Rightarrow> u32 \<Rightarrow> u32 list \<Rightarrow> u32 list" where
  "mont_somma n x c t =
     (let (rs, riporto) = mul_parole c 0 (map (\<lambda>j. (t ! j, x ! j)) [0..<n]);
          s = ucast (t ! n) + riporto
      in rs @ [ucast s, t ! (n + 1) + ucast (drop_bit 32 s)])"

definition mont_giro :: "nat \<Rightarrow> u32 \<Rightarrow> u32 list \<Rightarrow> u32 list \<Rightarrow> u32 \<Rightarrow> u32 list \<Rightarrow> u32 list" where
  "mont_giro n n0 a m bi t =
     (let t = mont_somma n a bi t;
          u = ucast (ucast (t ! 0) * ucast n0 :: u64);
          t = mont_somma n m u t
      in tl t @ [0])"

definition mont_mul :: "exbig \<Rightarrow> exbig \<Rightarrow> exbig \<Rightarrow> u32 \<Rightarrow> nat \<Rightarrow> exbig" where
  "mont_mul a b m n0 n =
     (let t = fold (\<lambda>i. mont_giro n n0 (ex_p a) (ex_p m) (parola b i)) [0..<n] (replicate (n + 2) 0);
          r = normalizza \<lparr>ex_n = n, ex_p = completa (take n t)\<rparr>
      in if t ! n \<noteq> 0 then togli_m r m n
         else if exbig_cmp r m \<ge> 0 then sottrai r m else r)"

definition raddoppia :: "exbig \<Rightarrow> nat \<Rightarrow> exbig \<Rightarrow> exbig" where
  "raddoppia m n rr =
     (let (riporto, d) = somma rr rr in
      if riporto \<noteq> 0 then togli_m d m n
      else if exbig_cmp d m \<ge> 0 then sottrai d m else d)"

definition erre_quadro :: "exbig \<Rightarrow> nat \<Rightarrow> exbig" where
  "erre_quadro m n = (raddoppia m n ^^ (64 * n)) (exbig_da_parola 1)"

section \<open>Exponentiation and the prepared modulus\<close>

definition modexp_giro :: "exbig \<Rightarrow> exbig \<Rightarrow> exbig \<Rightarrow> u32 \<Rightarrow> nat \<Rightarrow> nat \<Rightarrow> exbig \<Rightarrow> exbig" where
  "modexp_giro x e m n0 n i acc =
     (let acc = mont_mul acc acc m n0 n in
      if drop_bit ((i - 1) mod 32) (ex_p e ! ((i - 1) div 32)) AND 1 \<noteq> 0 then mont_mul acc x m n0 n else acc)"

definition exbig_modexp :: "exbig \<Rightarrow> exbig \<Rightarrow> exbig \<Rightarrow> exbig option" where
  "exbig_modexp base e m =
     (if ex_n m = 0 \<or> ex_p m ! 0 AND 1 = 0 then None
      else if ex_n m > EXBIG_PAROLE then None
      else if exbig_cmp base m \<ge> 0 then None
      else
        (let n = ex_n m; n0 = n0_inverso (ex_p m ! 0) in
         if ex_n e = 0 then Some (let r = exbig_da_parola 1 in if exbig_cmp r m \<ge> 0 then exbig_zero else r)
         else
           (let rr = erre_quadro m n;
                x = mont_mul base rr m n0 n;
                uno = exbig_da_parola 1;
                acc = mont_mul uno rr m n0 n;
                acc = fold (modexp_giro x e m n0 n) (rev [1..<Suc (exbig_bit e)]) acc
            in Some (mont_mul acc uno m n0 n))))"

record exbig_mod =
  mo_m :: exbig
  mo_rr :: exbig
  mo_n :: nat
  mo_n0 :: u32

definition exbig_mod_prepara :: "exbig \<Rightarrow> exbig_mod option" where
  "exbig_mod_prepara m =
     (if ex_n m = 0 \<or> ex_p m ! 0 AND 1 = 0 then None
      else if ex_n m > EXBIG_PAROLE then None
      else Some \<lparr>mo_m = m, mo_rr = erre_quadro m (ex_n m), mo_n = ex_n m, mo_n0 = n0_inverso (ex_p m ! 0)\<rparr>)"

definition exbig_mod_mul :: "exbig \<Rightarrow> exbig \<Rightarrow> exbig_mod \<Rightarrow> exbig" where
  "exbig_mod_mul a b c = mont_mul (mont_mul a b (mo_m c) (mo_n0 c) (mo_n c)) (mo_rr c) (mo_m c) (mo_n0 c) (mo_n c)"

definition exbig_mod_add :: "exbig \<Rightarrow> exbig \<Rightarrow> exbig_mod \<Rightarrow> exbig" where
  "exbig_mod_add a b c = (let r = snd (somma a b) in if exbig_cmp r (mo_m c) \<ge> 0 then sottrai r (mo_m c) else r)"

definition exbig_mod_sub :: "exbig \<Rightarrow> exbig \<Rightarrow> exbig_mod \<Rightarrow> exbig" where
  "exbig_mod_sub a b c =
     normalizza (if exbig_cmp a b \<ge> 0 then sottrai a b else sottrai (snd (somma a (mo_m c))) b)"

section \<open>Values\<close>

primrec val :: "u32 list \<Rightarrow> nat" where
  "val [] = 0"
| "val (x # xs) = unat x + 2 ^ 32 * val xs"

definition valore :: "exbig \<Rightarrow> nat" where
  "valore a = val (take (ex_n a) (ex_p a))"

definition exbig_ok :: "exbig \<Rightarrow> bool" where
  "exbig_ok a \<longleftrightarrow> length (ex_p a) = EXBIG_PAROLE \<and> ex_n a \<le> EXBIG_PAROLE
     \<and> (\<forall>i\<in>{ex_n a..<EXBIG_PAROLE}. ex_p a ! i = 0) \<and> (ex_n a \<noteq> 0 \<longrightarrow> ex_p a ! (ex_n a - 1) \<noteq> 0)"

text \<open>What no longer fits: one more than the largest number.\<close>

definition EX_TETTO :: nat where
  "EX_TETTO = 2 ^ (32 * EXBIG_PAROLE)"

lemma val_append: "val (xs @ ys) = val xs + 2 ^ (32 * length xs) * val ys"
  by (induction xs) (simp_all add: algebra_simps power_add)

lemma val_less: "val xs < 2 ^ (32 * length xs)"
proof (induction xs)
  case (Cons x xs)
  have "unat x < 2 ^ 32" using unsigned_less [of x] by simp
  moreover have "val xs + 1 \<le> 2 ^ (32 * length xs)" using Cons by simp
  then have "2 ^ 32 * (val xs + 1) \<le> (2 :: nat) ^ 32 * 2 ^ (32 * length xs)" by (rule mult_left_mono) simp
  ultimately show ?case by (simp add: power_add)
qed simp

lemma val_zeros [simp]: "val (replicate k 0) = 0"
  by (induction k) simp_all

lemma normalizza_da_le: "normalizza_da p k \<le> k"
  by (induction k) (auto simp: le_SucI)

lemma normalizza_da_zero: "normalizza_da p k \<le> i \<Longrightarrow> i < k \<Longrightarrow> p ! i = 0"
  by (induction k) (auto split: if_splits simp: less_Suc_eq)

lemma normalizza_da_top: "normalizza_da p k \<noteq> 0 \<Longrightarrow> p ! (normalizza_da p k - 1) \<noteq> 0"
  by (induction k) auto

lemma normalizza_ok:
  assumes "length p = EXBIG_PAROLE" "k \<le> EXBIG_PAROLE" "\<And>i. k \<le> i \<Longrightarrow> i < EXBIG_PAROLE \<Longrightarrow> p ! i = 0"
  shows "exbig_ok (normalizza \<lparr>ex_n = k, ex_p = p\<rparr>)" "valore (normalizza \<lparr>ex_n = k, ex_p = p\<rparr>) = val p"
proof -
  let ?j = "normalizza_da p k"
  have j: "?j \<le> k" by (rule normalizza_da_le)
  have z: "p ! i = 0" if "?j \<le> i" "i < EXBIG_PAROLE" for i
    using normalizza_da_zero [of p k i] assms(3) [of i] that by (cases "i < k") auto
  show "exbig_ok (normalizza \<lparr>ex_n = k, ex_p = p\<rparr>)"
    using assms(1,2) j z normalizza_da_top [of p k] by (auto simp: exbig_ok_def normalizza_def)
  have "drop ?j p = replicate (EXBIG_PAROLE - ?j) 0"
    by (rule nth_equalityI) (use assms(1) z in auto)
  then have "val p = val (take ?j p @ replicate (EXBIG_PAROLE - ?j) 0)" by (metis append_take_drop_id)
  then show "valore (normalizza \<lparr>ex_n = k, ex_p = p\<rparr>) = val p"
    by (simp add: val_append valore_def normalizza_def)
qed

end
