(* ===== verification/Exbig_Spec.thy ===== *)
theory Exbig_Spec
  imports Exbig
begin

text \<open>
  What the operations of \<^verbatim>\<open>exbig.c\<close> do to the values of numbers: every loop over words against the natural numbers.
\<close>

section \<open>Words\<close>

lemma u32_less: "unat (x :: u32) < 2 ^ 32"
  using unsigned_less [of x] by simp

lemma unat_u32_u64 [simp]: "unat (ucast (x :: u32) :: u64) = unat x"
  using u32_less [of x] by (simp add: unsigned_ucast_eq take_bit_nat_eq_self)

lemma u64_split: "unat (ucast (t :: u64) :: u32) + 2 ^ 32 * unat (drop_bit 32 t) = unat t"
proof -
  have "unat (ucast t :: u32) = unat t mod 2 ^ 32" by (simp add: unsigned_ucast_eq take_bit_eq_mod)
  moreover have "unat (drop_bit 32 t) = unat t div 2 ^ 32" unfolding unat_drop_bit_eq by (simp add: drop_bit_eq_div)
  ultimately show ?thesis by (simp only: mod_mult_div_eq)
qed

lemma u64_plus: "unat a + unat b < 2 ^ 64 \<Longrightarrow> unat (a + b :: u64) = unat a + unat b"
  by (simp add: unat_word_ariths)

lemma unat_plus_u64: "unat (a + b :: u64) = (unat a + unat b) mod 2 ^ 64"
  by (simp add: unat_word_ariths)

lemma u64_mult: "unat a * unat b < 2 ^ 64 \<Longrightarrow> unat (a * b :: u64) = unat a * unat b"
  by (simp add: unat_word_ariths)

lemma high_less: "unat (drop_bit 32 (t :: u64)) < 2 ^ 32"
proof -
  have "unat t < 2 ^ 64" using unsigned_less [of t] by simp
  then show ?thesis unfolding unat_drop_bit_eq by (simp add: drop_bit_eq_div)
qed

section \<open>The loops\<close>

lemma somma_parole_spec:
  assumes "somma_parole t xs = (rs, t')" "unat t \<le> 1"
  shows "length rs = length xs \<and> unat t' \<le> 1
    \<and> val rs + 2 ^ (32 * length xs) * unat t' = unat t + val (map fst xs) + val (map snd xs)"
  using assms
proof (induction t xs arbitrary: rs t' rule: somma_parole.induct)
  case (2 t x y xs)
  let ?s = "t + (ucast x + ucast y) :: u64"
  have xy: "unat (ucast x + ucast y :: u64) = unat x + unat y"
    by (subst u64_plus) (use u32_less [of x] u32_less [of y] in simp_all)
  have s: "unat ?s = unat t + (unat x + unat y)"
    by (subst u64_plus) (use u32_less [of x] u32_less [of y] 2(3) in \<open>simp_all add: xy\<close>)
  have "unat (drop_bit 32 ?s) \<le> 1"
  proof (rule ccontr)
    assume "\<not> unat (drop_bit 32 ?s) \<le> 1"
    then have "2 ^ 32 * 2 \<le> 2 ^ 32 * unat (drop_bit 32 ?s)" by simp
    with u64_split [of ?s] s u32_less [of x] u32_less [of y] 2(3) show False by simp
  qed
  moreover obtain rs0 where r: "somma_parole (drop_bit 32 ?s) xs = (rs0, t')" "rs = ucast ?s # rs0"
    using 2(2) by (auto simp: Let_def split: prod.splits)
  ultimately have IH: "length rs0 = length xs" "unat t' \<le> 1"
    "val rs0 + 2 ^ (32 * length xs) * unat t' = unat (drop_bit 32 ?s) + val (map fst xs) + val (map snd xs)"
    using 2(1) [OF refl r(1)] by auto
  have "val rs + 2 ^ (32 * length ((x, y) # xs)) * unat t'
      = unat (ucast ?s :: u32) + 2 ^ 32 * (val rs0 + 2 ^ (32 * length xs) * unat t')"
    by (simp add: r(2) power_add algebra_simps)
  also have "\<dots> = (unat (ucast ?s :: u32) + 2 ^ 32 * unat (drop_bit 32 ?s)) + 2 ^ 32 * (val (map fst xs) + val (map snd xs))"
    unfolding IH(3) by (simp add: algebra_simps)
  also have "\<dots> = unat t + val (map fst ((x, y) # xs)) + val (map snd ((x, y) # xs))"
    unfolding u64_split s by (simp add: algebra_simps)
  finally show ?case using IH r(2) by simp
qed simp

lemma mul_parole_spec:
  assumes "mul_parole c r xs = (rs, r')" "unat r < 2 ^ 32"
  shows "length rs = length xs \<and> unat r' < 2 ^ 32
    \<and> val rs + 2 ^ (32 * length xs) * unat r' = unat r + val (map fst xs) + val (map snd xs) * unat c"
  using assms
proof (induction c r xs arbitrary: rs r' rule: mul_parole.induct)
  case (2 c r t x xs)
  let ?s = "ucast t + ucast x * ucast c + r :: u64"
  have "unat x * unat c \<le> (2 ^ 32 - 1) * (2 ^ 32 - 1)"
    using u32_less [of x] u32_less [of c] by (intro mult_mono) simp_all
  moreover have "unat t \<le> 2 ^ 32 - 1" using u32_less [of t] by simp
  ultimately have b: "unat t + unat x * unat c + unat r < 2 ^ 64" using 2(3) by simp
  have xc: "unat (ucast x * ucast c :: u64) = unat x * unat c"
    by (subst u64_mult) (use b in simp_all)
  have s: "unat ?s = unat t + unat x * unat c + unat r"
    using b by (simp add: u64_plus xc)
  obtain rs0 where r: "mul_parole c (drop_bit 32 ?s) xs = (rs0, r')" "rs = ucast ?s # rs0"
    using 2(2) by (auto simp: Let_def split: prod.splits)
  have IH: "length rs0 = length xs" "unat r' < 2 ^ 32"
    "val rs0 + 2 ^ (32 * length xs) * unat r' = unat (drop_bit 32 ?s) + val (map fst xs) + val (map snd xs) * unat c"
    using 2(1) [OF refl r(1) high_less] by auto
  have "val rs + 2 ^ (32 * length ((t, x) # xs)) * unat r'
      = unat (ucast ?s :: u32) + 2 ^ 32 * (val rs0 + 2 ^ (32 * length xs) * unat r')"
    by (simp add: r(2) power_add algebra_simps)
  also have "\<dots> = (unat (ucast ?s :: u32) + 2 ^ 32 * unat (drop_bit 32 ?s))
      + 2 ^ 32 * (val (map fst xs) + val (map snd xs) * unat c)"
    unfolding IH(3) by (simp add: algebra_simps)
  also have "\<dots> = unat r + val (map fst ((t, x) # xs)) + val (map snd ((t, x) # xs)) * unat c"
    unfolding u64_split s by (simp add: algebra_simps)
  finally show ?case using IH r(2) by simp
qed simp

text \<open>One word of a difference: the low half, and the borrow in bit 32.\<close>

lemma sottrai_parola:
  fixes x y :: u32 and pr :: u64
  assumes "unat pr \<le> 1"
  defines "t \<equiv> ucast x - ucast y - pr"
  shows "unat (drop_bit 32 t AND 1) \<le> 1"
    "unat (ucast t :: u32) + unat y + unat pr = unat x + 2 ^ 32 * unat (drop_bit 32 t AND 1)"
proof -
  have one: "unat (drop_bit 32 t AND 1) = unat (drop_bit 32 t) mod 2" by (simp add: and_one_eq unat_mod)
  then show "unat (drop_bit 32 t AND 1) \<le> 1" by simp
  note lim = u32_less [of x] u32_less [of y] u32_less [of "ucast t"] assms(1) high_less [of t]
  have yp: "unat (ucast y + pr) = unat y + unat pr" by (subst u64_plus) (use lim in simp_all)
  have "t + (ucast y + pr) = ucast x" by (simp add: t_def)
  then have "(unat t + (unat y + unat pr)) mod 2 ^ 64 = unat x" by (metis yp unat_u32_u64 unat_plus_u64)
  moreover define q where "q = (unat t + (unat y + unat pr)) div 2 ^ 64"
  ultimately have e: "unat t + unat y + unat pr = unat x + 2 ^ 64 * q" by (metis mod_mult_div_eq add.assoc)
  have "unat t < 2 ^ 64" using unsigned_less [of t] by simp
  then have "q \<le> 1" using lim by (simp add: q_def)
  then consider "q = 0" | "q = 1" by linarith
  then show "unat (ucast t :: u32) + unat y + unat pr = unat x + 2 ^ 32 * unat (drop_bit 32 t AND 1)"
  proof cases
    case 1
    then have "unat (drop_bit 32 t) = 0" using e u64_split [of t] lim by simp
    then show ?thesis using u64_split [of t] 1 e one by simp
  next
    case 2
    then have "unat (drop_bit 32 t) = 2 ^ 32 - 1" using e u64_split [of t] lim by simp
    then show ?thesis using u64_split [of t] 2 e one by simp
  qed
qed

lemma sottrai_parole_spec:
  assumes "unat pr \<le> 1"
  shows "length (sottrai_parole pr xs) = length xs
    \<and> (\<exists>q \<le> 1. val (sottrai_parole pr xs) + val (map snd xs) + unat pr = val (map fst xs) + 2 ^ (32 * length xs) * q)"
  using assms
proof (induction pr xs rule: sottrai_parole.induct)
  case (2 pr x y xs)
  let ?t = "ucast x - ucast y - pr :: u64"
  obtain q where q: "q \<le> 1" "length (sottrai_parole (drop_bit 32 ?t AND 1) xs) = length xs"
    "val (sottrai_parole (drop_bit 32 ?t AND 1) xs) + val (map snd xs) + unat (drop_bit 32 ?t AND 1)
      = val (map fst xs) + 2 ^ (32 * length xs) * q"
    using 2(1) [OF refl] sottrai_parola(1) [OF 2(2), of x y] by blast
  have "val (sottrai_parole pr ((x, y) # xs)) + val (map snd ((x, y) # xs)) + unat pr
      = (unat (ucast ?t :: u32) + unat y + unat pr) + 2 ^ 32 * (val (sottrai_parole (drop_bit 32 ?t AND 1) xs) + val (map snd xs))"
    by (simp add: Let_def algebra_simps)
  also have "\<dots> = unat x + 2 ^ 32 * (val (sottrai_parole (drop_bit 32 ?t AND 1) xs) + val (map snd xs) + unat (drop_bit 32 ?t AND 1))"
    unfolding sottrai_parola(2) [OF 2(2)] by (simp add: algebra_simps)
  also have "\<dots> = val (map fst ((x, y) # xs)) + 2 ^ (32 * length ((x, y) # xs)) * q"
    unfolding q(3) by (simp add: algebra_simps power_add)
  finally show ?case using q by (auto simp: Let_def)
qed auto

section \<open>Numbers\<close>

lemma exbig_okD:
  assumes "exbig_ok a"
  shows "length (ex_p a) = EXBIG_PAROLE" "ex_n a \<le> EXBIG_PAROLE" "\<And>i. ex_n a \<le> i \<Longrightarrow> i < EXBIG_PAROLE \<Longrightarrow> ex_p a ! i = 0"
    "ex_n a \<noteq> 0 \<Longrightarrow> ex_p a ! (ex_n a - 1) \<noteq> 0"
  using assms by (auto simp: exbig_ok_def)

lemma parola_nth: "exbig_ok a \<Longrightarrow> i < EXBIG_PAROLE \<Longrightarrow> ex_p a ! i = parola a i"
  using exbig_okD(3) [of a i] by (auto simp: parola_def not_less)

lemma val_parole:
  assumes "length (ex_p a) = EXBIG_PAROLE" "ex_n a \<le> EXBIG_PAROLE" "ex_n a \<le> n"
  shows "val (map (parola a) [0..<n]) = valore a"
proof -
  have "[0..<n] = [0..<ex_n a] @ [ex_n a..<n]" using assms(3) upt_add_eq_append [of 0 "ex_n a" "n - ex_n a"] by simp
  moreover have "map (parola a) [0..<ex_n a] = take (ex_n a) (ex_p a)"
    by (rule nth_equalityI) (use assms in \<open>auto simp: parola_def\<close>)
  moreover have "map (parola a) [ex_n a..<n] = replicate (n - ex_n a) 0"
    by (rule nth_equalityI) (auto simp: parola_def)
  ultimately show ?thesis by (simp add: val_append valore_def)
qed

lemma valore_less: "exbig_ok a \<Longrightarrow> ex_n a \<le> n \<Longrightarrow> valore a < 2 ^ (32 * n)"
proof -
  assume a: "exbig_ok a" "ex_n a \<le> n"
  have "valore a < 2 ^ (32 * ex_n a)"
    using val_less [of "take (ex_n a) (ex_p a)"] exbig_okD(1,2) [OF a(1)] by (simp add: valore_def min_absorb2)
  also have "\<dots> \<le> 2 ^ (32 * n)" using a(2) by (intro power_increasing) simp_all
  finally show "valore a < 2 ^ (32 * n)" .
qed

lemma valore_top:
  assumes "exbig_ok a" "ex_n a \<noteq> 0"
  shows "valore a = val (take (ex_n a - 1) (ex_p a)) + 2 ^ (32 * (ex_n a - 1)) * unat (ex_p a ! (ex_n a - 1))"
    "2 ^ (32 * (ex_n a - 1)) \<le> valore a"
proof -
  obtain k where k: "ex_n a = Suc k" using assms(2) not0_implies_Suc by blast
  have l: "k < length (ex_p a)" using exbig_okD(1,2) [OF assms(1)] k by simp
  show e: "valore a = val (take (ex_n a - 1) (ex_p a)) + 2 ^ (32 * (ex_n a - 1)) * unat (ex_p a ! (ex_n a - 1))"
    using l by (simp add: valore_def k take_Suc_conv_app_nth val_append)
  have "unat (ex_p a ! (ex_n a - 1)) \<noteq> 0" using exbig_okD(4) [OF assms] by (simp add: unat_eq_zero)
  then show "2 ^ (32 * (ex_n a - 1)) \<le> valore a" unfolding e by (simp add: trans_le_add2)
qed

lemma valore_n: "exbig_ok a \<Longrightarrow> valore a < 2 ^ (32 * n) \<Longrightarrow> ex_n a \<le> n"
proof (rule ccontr)
  assume a: "exbig_ok a" "valore a < 2 ^ (32 * n)" and "\<not> ex_n a \<le> n"
  then have n: "ex_n a \<noteq> 0" "n \<le> ex_n a - 1" by simp_all
  then have "(2::nat) ^ (32 * n) \<le> 2 ^ (32 * (ex_n a - 1))" by (intro power_increasing) simp_all
  with valore_top(2) [OF a(1) n(1)] a(2) show False by linarith
qed

lemma valore_zero: "exbig_ok a \<Longrightarrow> ex_n a = 0 \<longleftrightarrow> valore a = 0"
proof
  assume a: "exbig_ok a" "valore a = 0"
  show "ex_n a = 0"
  proof (rule ccontr)
    assume "ex_n a \<noteq> 0"
    then have "2 ^ (32 * (ex_n a - 1)) \<le> valore a" by (rule valore_top(2) [OF a(1)])
    then show False by (simp add: a(2))
  qed
qed (simp add: valore_def)

lemma cmp_da_spec:
  assumes "k \<le> length p" "k \<le> length q"
  shows "0 \<le> cmp_da p q k \<longleftrightarrow> val (take k q) \<le> val (take k p)"
  using assms
proof (induction k)
  case (Suc k)
  let ?W = "2 ^ (32 * k) :: nat"
  have p: "val (take (Suc k) p) = val (take k p) + ?W * unat (p ! k)" "val (take k p) < ?W"
    and q: "val (take (Suc k) q) = val (take k q) + ?W * unat (q ! k)" "val (take k q) < ?W"
    using Suc(2,3) val_less [of "take k p"] val_less [of "take k q"] by (simp_all add: take_Suc_conv_app_nth val_append)
  have *: "x < ?W \<Longrightarrow> a < b \<Longrightarrow> x + ?W * a < y + ?W * b" for x y a b :: nat
  proof -
    assume "x < ?W" "a < b"
    then have "x + ?W * a < ?W * (a + 1)" by simp
    also have "\<dots> \<le> ?W * b" using \<open>a < b\<close> by (intro mult_left_mono) simp_all
    finally show "x + ?W * a < y + ?W * b" by simp
  qed
  show ?case
  proof (cases "p ! k = q ! k")
    case True
    then show ?thesis using Suc p q by simp
  next
    case False
    then have "unat (p ! k) \<noteq> unat (q ! k)" by (simp add: word_unat_eq_iff)
    then consider "unat (p ! k) < unat (q ! k)" | "unat (q ! k) < unat (p ! k)" by linarith
    then show ?thesis
    proof cases
      case 1
      then show ?thesis using False *[OF p(2) 1, of "val (take k q)"] unfolding p q by (simp add: word_less_nat_alt)
    next
      case 2
      then show ?thesis using False *[OF q(2) 2, of "val (take k p)"] unfolding p q by (simp add: word_less_nat_alt)
    qed
  qed
qed simp

lemma exbig_cmp_spec:
  assumes "exbig_ok a" "exbig_ok b"
  shows "0 \<le> exbig_cmp a b \<longleftrightarrow> valore b \<le> valore a"
proof (cases "ex_n a = ex_n b")
  case True
  then show ?thesis
    using cmp_da_spec [of "ex_n a" "ex_p a" "ex_p b"] exbig_okD(1,2) [OF assms(1)] exbig_okD(1,2) [OF assms(2)]
    by (simp add: exbig_cmp_def valore_def)
next
  case False
  have "valore x < valore y" if "exbig_ok x" "exbig_ok y" "ex_n x < ex_n y" for x y
  proof -
    have "valore x < 2 ^ (32 * (ex_n y - 1))" by (rule valore_less) (use that in simp_all)
    then show ?thesis using valore_top(2) [OF that(2)] that(3) by simp
  qed
  from this [OF assms] this [OF assms(2,1)] False show ?thesis by (auto simp: exbig_cmp_def)
qed

lemma completa_ok:
  assumes "length rs \<le> EXBIG_PAROLE" "n = length rs"
  shows "exbig_ok (normalizza \<lparr>ex_n = n, ex_p = completa rs\<rparr>)" "valore (normalizza \<lparr>ex_n = n, ex_p = completa rs\<rparr>) = val rs"
proof -
  have "length (completa rs) = EXBIG_PAROLE" "\<And>i. length rs \<le> i \<Longrightarrow> i < EXBIG_PAROLE \<Longrightarrow> completa rs ! i = 0"
    using assms by (simp_all add: completa_def nth_append)
  note * = normalizza_ok [OF this(1) assms(1) this(2)]
  show "exbig_ok (normalizza \<lparr>ex_n = n, ex_p = completa rs\<rparr>)" unfolding assms(2) by (rule *)
  show "valore (normalizza \<lparr>ex_n = n, ex_p = completa rs\<rparr>) = val rs"
    unfolding assms(2) by (rule trans [OF *(2)]) (simp_all add: completa_def val_append)
qed

lemma somma_spec:
  assumes "exbig_ok a" "exbig_ok b" "somma a b = (c, r)"
  shows "exbig_ok r \<and> valore r + EX_TETTO * unat c = valore a + valore b \<and> unat c \<le> 1"
proof -
  define n where "n = (if ex_n a > ex_n b then ex_n a else ex_n b)"
  obtain rs t where s: "somma_parole 0 (map (\<lambda>i. (parola a i, parola b i)) [0..<n]) = (rs, t)" by fastforce
  have n: "ex_n a \<le> n" "ex_n b \<le> n" "n \<le> EXBIG_PAROLE"
    using exbig_okD(2) [OF assms(1)] exbig_okD(2) [OF assms(2)] by (simp_all add: n_def)
  have v: "val (map (parola a) [0..<n]) = valore a" "val (map (parola b) [0..<n]) = valore b"
    using val_parole [OF exbig_okD(1,2) [OF assms(1)] n(1)] val_parole [OF exbig_okD(1,2) [OF assms(2)] n(2)] by simp_all
  have l: "length rs = n" "unat t \<le> 1" and e: "val rs + 2 ^ (32 * n) * unat t = valore a + valore b"
    using somma_parole_spec [OF s] v by (simp_all add: comp_def)
  have t: "unat (ucast t :: u32) = unat t" using l(2) by (simp add: unsigned_ucast_eq take_bit_nat_eq_self)
  have c: "exbig_ok (normalizza \<lparr>ex_n = n, ex_p = completa rs\<rparr>)" "valore (normalizza \<lparr>ex_n = n, ex_p = completa rs\<rparr>) = val rs"
    by (rule completa_ok; use l(1) n(3) in simp)+
  consider (posto) "t \<noteq> 0" "n < EXBIG_PAROLE" | (zero) "t = 0" | (pieno) "t \<noteq> 0" "n = EXBIG_PAROLE" using n(3) by linarith
  then show ?thesis
  proof cases
    case posto
    then have "r = normalizza \<lparr>ex_n = n + 1, ex_p = completa (rs @ [ucast t])\<rparr>" "c = 0"
      using assms(3) s by (simp_all add: somma_def Let_def n_def [symmetric])
    then show ?thesis using completa_ok [of "rs @ [ucast t]" "n + 1"] l posto e by (simp add: val_append t)
  next
    case zero
    then have "r = normalizza \<lparr>ex_n = n, ex_p = completa rs\<rparr>" "c = 0"
      using assms(3) s by (simp_all add: somma_def Let_def n_def [symmetric])
    moreover have "val rs = valore a + valore b" using e zero by simp
    ultimately show ?thesis using c by simp
  next
    case pieno
    then have "r = normalizza \<lparr>ex_n = n, ex_p = completa rs\<rparr>" "c = ucast t"
      using assms(3) s by (simp_all add: somma_def Let_def n_def [symmetric])
    moreover have "EX_TETTO = 2 ^ (32 * n)" unfolding EX_TETTO_def pieno(2) ..
    ultimately show ?thesis using c l(2) e t by simp
  qed
qed

lemma sottrai_spec:
  assumes "exbig_ok a" "exbig_ok b" "valore b \<le> valore a"
  shows "exbig_ok (sottrai a b)" "valore (sottrai a b) = valore a - valore b"
proof -
  let ?xs = "map (\<lambda>i. (ex_p a ! i, parola b i)) [0..<ex_n a]"
  have n: "ex_n b \<le> ex_n a" using valore_n [OF assms(2), of "ex_n a"] valore_less [OF assms(1), of "ex_n a"] assms(3) by simp
  have fst: "map fst ?xs = take (ex_n a) (ex_p a)"
    by (rule nth_equalityI) (use exbig_okD(1,2) [OF assms(1)] in auto)
  have snd: "val (map snd ?xs) = valore b"
    using val_parole [of b "ex_n a"] exbig_okD(1,2) [OF assms(2)] n by (simp add: comp_def)
  obtain q where q: "val (sottrai_parole 0 ?xs) + valore b = valore a + 2 ^ (32 * ex_n a) * q" "q \<le> 1"
    and l: "length (sottrai_parole 0 ?xs) = ex_n a"
    using sottrai_parole_spec [of 0 ?xs] snd unfolding fst by (auto simp: valore_def)
  have "val (sottrai_parole 0 ?xs) < 2 ^ (32 * ex_n a)" using val_less [of "sottrai_parole 0 ?xs"] l by simp
  with q assms(3) have "q = 0" by (cases "q = 1") auto
  with q(1) have v: "val (sottrai_parole 0 ?xs) = valore a - valore b" by simp
  from completa_ok [of "sottrai_parole 0 ?xs" "ex_n a"] l exbig_okD(2) [OF assms(1)]
  show "exbig_ok (sottrai a b)" "valore (sottrai a b) = valore a - valore b" by (simp_all add: sottrai_def v)
qed

lemma togli_m_spec:
  assumes "exbig_ok r" "exbig_ok m" "ex_n r \<le> ex_n m" "valore r < valore m"
  shows "exbig_ok (togli_m r m (ex_n m))" "valore (togli_m r m (ex_n m)) = 2 ^ (32 * ex_n m) + valore r - valore m"
proof -
  let ?n = "ex_n m" and ?xs = "map (\<lambda>i. (ex_p r ! i, parola m i)) [0..<ex_n m]"
  have n: "?n \<le> EXBIG_PAROLE" by (rule exbig_okD(2) [OF assms(2)])
  have "val (map fst ?xs) = val (map (parola r) [0..<?n])"
    using parola_nth [OF assms(1)] n by (intro arg_cong [of _ _ val]) simp
  also have "\<dots> = valore r" by (rule val_parole) (use exbig_okD [OF assms(1)] assms(3) in auto)
  finally have fst: "val (map fst ?xs) = valore r" .
  have snd: "val (map snd ?xs) = valore m"
    using val_parole [of m ?n] exbig_okD(1,2) [OF assms(2)] by (simp add: comp_def)
  obtain q where q: "val (sottrai_parole 0 ?xs) + valore m = valore r + 2 ^ (32 * ?n) * q" "q \<le> 1"
    and l: "length (sottrai_parole 0 ?xs) = ?n"
    using sottrai_parole_spec [of 0 ?xs] unfolding fst snd by auto
  have "q = 1" using q assms(4) by (cases "q = 0") auto
  with q(1) have v: "val (sottrai_parole 0 ?xs) = 2 ^ (32 * ?n) + valore r - valore m" by simp
  have "drop ?n (ex_p r) = replicate (EXBIG_PAROLE - ?n) 0"
    by (rule nth_equalityI) (use exbig_okD(1,3) [OF assms(1)] assms(3) in auto)
  then have "togli_m r m ?n = normalizza \<lparr>ex_n = ?n, ex_p = completa (sottrai_parole 0 ?xs)\<rparr>"
    by (simp add: togli_m_def completa_def l)
  with completa_ok [of "sottrai_parole 0 ?xs" ?n] l n
  show "exbig_ok (togli_m r m ?n)" "valore (togli_m r m ?n) = 2 ^ (32 * ?n) + valore r - valore m" by (simp_all add: v)
qed

end
