(* ===== verification/Exbig_Mont.thy ===== *)
theory Exbig_Mont
  imports Exbig_Spec
begin

text \<open>
  The product of Montgomery: what one turn does, the invariant of the loop as an equation in the natural numbers, and the
  contract of a reduced product, from which exponentiation follows for any implementation of it.
\<close>

section \<open>The inverse of the lowest word\<close>

lemma newton: "1 - m * (x * (2 - m * x)) = (1 - m * x) ^ 2" for m x :: "'a::comm_ring_1"
  by (simp add: algebra_simps power2_eq_square)

lemma newton_pow: "1 - m * ((\<lambda>x. x * (2 - m * x)) ^^ k) x = (1 - m * x) ^ (2 ^ k)" for m x :: "'a::comm_ring_1"
  by (induction k) (simp_all add: newton power_mult [symmetric] mult.commute)

lemma quadrato_dispari:
  fixes m :: u32
  assumes "odd m"
  obtains j where "1 - m * m = 8 * j"
proof -
  obtain k where k: "m = 2 * k + 1" using assms by (rule oddE)
  have "even (k * (k + 1))" by simp
  then obtain j where j: "k * (k + 1) = 2 * j" by (rule evenE)
  have "1 - m * m = - (4 * (k * (k + 1)))" unfolding k by (simp add: algebra_simps)
  then have "1 - m * m = 8 * (- j)" unfolding j by simp
  then show thesis by (rule that)
qed

lemma n0_inverso_spec:
  assumes "odd m"
  shows "m * n0_inverso m = - 1"
proof -
  obtain j where j: "1 - m * m = 8 * j" using assms by (rule quadrato_dispari)
  have "(8 :: u32) ^ 32 = 0" by code_simp
  then have "(8 * j) ^ 32 = 0" by (simp only: power_mult_distrib mult_zero_left)
  then have "1 - m * ((\<lambda>x. x * (2 - m * x)) ^^ 5) m = 0" unfolding newton_pow j by simp
  then show ?thesis by (simp add: n0_inverso_def)
qed

section \<open>One turn\<close>

lemma unat_plus_u32: "unat (a + b :: u32) = (unat a + unat b) mod 2 ^ 32"
  by (simp add: unat_word_ariths)

lemma unat_mult_u32: "unat (a * b :: u32) = (unat a * unat b) mod 2 ^ 32"
  by (simp add: unat_word_ariths)

abbreviation W :: nat where "W \<equiv> 2 ^ 32"

lemma val_hd: "xs \<noteq> [] \<Longrightarrow> val xs mod W = unat (xs ! 0)"
  using u32_less by (cases xs) auto

lemma ucast_mult_u32: "(ucast (ucast (x :: u32) * ucast (y :: u32) :: u64) :: u32) = x * y"
proof -
  have "unat x * unat y < 2 ^ 32 * 2 ^ 32" by (intro mult_strict_mono u32_less) simp_all
  then have "unat (ucast x * ucast y :: u64) = unat x * unat y" by (subst u64_mult) simp_all
  then show ?thesis unfolding word_unat_eq_iff unsigned_ucast_eq by (simp add: unat_word_ariths take_bit_eq_mod)
qed

lemma mont_somma_spec:
  assumes "length t = n + 2" "n \<le> length x" "val t + val (take n x) * unat c < W ^ (n + 2)"
  shows "length (mont_somma n x c t) = n + 2" "val (mont_somma n x c t) = val t + val (take n x) * unat c"
proof -
  let ?xs = "map (\<lambda>j. (t ! j, x ! j)) [0..<n]"
  obtain rs rip where m: "mul_parole c 0 ?xs = (rs, rip)" by fastforce
  have "map fst ?xs = take n t" "map snd ?xs = take n x" by (rule nth_equalityI; use assms(1,2) in simp)+
  with mul_parole_spec [OF m] have l: "length rs = n" "unat rip < 2 ^ 32"
    and e: "val rs + W ^ n * unat rip = val (take n t) + val (take n x) * unat c" by (simp_all add: power_mult)
  define s :: u64 where "s = ucast (t ! n) + rip"
  have s: "unat s = unat (t ! n) + unat rip"
    unfolding s_def by (subst u64_plus) (use l(2) u32_less [of "t ! n"] in simp_all)
  have r: "mont_somma n x c t = rs @ [ucast s, t ! (n + 1) + ucast (drop_bit 32 s)]"
    by (simp add: mont_somma_def m s_def Let_def)
  then show "length (mont_somma n x c t) = n + 2" by (simp add: l)
  have "t = take n t @ [t ! n, t ! (n + 1)]"
    by (rule nth_equalityI) (use assms(1) in \<open>auto simp: nth_append less_Suc_eq\<close>)
  then have "val t = val (take n t @ [t ! n, t ! (n + 1)])" by simp
  then have vt: "val t = val (take n t) + W ^ n * (unat (t ! n) + W * unat (t ! (n + 1)))"
    using assms(1) by (simp add: val_append power_mult)
  have tot: "val t + val (take n x) * unat c
      = val rs + W ^ n * (unat (ucast s :: u32) + W * (unat (t ! (n + 1)) + unat (drop_bit 32 s)))"
  proof -
    have "val t + val (take n x) * unat c = val rs + W ^ n * (unat s + W * unat (t ! (n + 1)))"
      using e unfolding vt s by (simp add: algebra_simps)
    then show ?thesis unfolding u64_split [of s, symmetric] by (simp add: algebra_simps)
  qed
  have "unat (t ! (n + 1)) + unat (drop_bit 32 s) < W"
  proof (rule ccontr)
    assume "\<not> unat (t ! (n + 1)) + unat (drop_bit 32 s) < W"
    then have "W ^ n * (W * W) \<le> W ^ n * (W * (unat (t ! (n + 1)) + unat (drop_bit 32 s)))"
      by (intro mult_left_mono) simp_all
    also have "\<dots> \<le> val t + val (take n x) * unat c" unfolding tot by (simp add: algebra_simps)
    finally show False using assms(3) by (simp add: power_add power2_eq_square)
  qed
  moreover have "unat (ucast (drop_bit 32 s) :: u32) = unat (drop_bit 32 s)"
    using high_less [of s] by (simp add: unsigned_ucast_eq take_bit_nat_eq_self)
  ultimately have "unat (t ! (n + 1) + ucast (drop_bit 32 s)) = unat (t ! (n + 1)) + unat (drop_bit 32 s)"
    by (simp add: unat_word_ariths)
  then show "val (mont_somma n x c t) = val t + val (take n x) * unat c"
    unfolding tot r by (simp add: val_append l power_mult)
qed

lemma giro_limite:
  fixes T a b m u w :: nat
  assumes "T < 2 * m" "a \<le> m" "b < w" "u < w"
  shows "T + a * b + m * u < 2 * m * w"
proof -
  have "a * b \<le> m * (w - 1)" "m * u \<le> m * (w - 1)" using assms by (intro mult_mono; simp)+
  moreover have "m * (w - 1) + m = m * w" using assms(3) by (cases w) simp_all
  ultimately show ?thesis using assms(1) unfolding mult.assoc by linarith
qed

lemma mont_giro_spec:
  assumes "length t = n + 2" "n \<le> length a" "n \<le> length m" "0 < n"
    and "val t < 2 * val (take n m)" "val (take n a) \<le> val (take n m)" "m ! 0 * n0 = - 1"
  obtains u where "length (mont_giro n n0 a m bi t) = n + 2"
    "W * val (mont_giro n n0 a m bi t) = val t + val (take n a) * unat bi + val (take n m) * u"
    "val (mont_giro n n0 a m bi t) < 2 * val (take n m)"
proof -
  let ?A = "val (take n a)" and ?M = "val (take n m)"
  have M: "?M < W ^ n" using val_less [of "take n m"] assms(3) by (simp add: power_mult min_absorb2)
  have lim: "val t + ?A * unat bi + ?M * v < W ^ (n + 2)" if "v < W" for v
  proof -
    have "val t + ?A * unat bi + ?M * v < 2 * ?M * W" using assms(5,6) u32_less that by (rule giro_limite)
    also have "2 * ?M * W \<le> W * W ^ n * W" by (intro mult_mono) (use M in simp_all)
    finally show ?thesis by (simp add: power_add power2_eq_square algebra_simps)
  qed
  define t1 where "t1 = mont_somma n a bi t"
  have t1: "length t1 = n + 2" "val t1 = val t + ?A * unat bi"
    using mont_somma_spec [OF assms(1,2), of bi] lim [of 0] by (simp_all add: t1_def)
  define u where "u = t1 ! 0 * n0"
  define t2 where "t2 = mont_somma n m u t1"
  have t2: "length t2 = n + 2" "val t2 = val t + ?A * unat bi + ?M * unat u"
    using mont_somma_spec [OF t1(1) assms(3), of u] lim [OF u32_less] by (simp_all add: t2_def t1(2))
  have g: "mont_giro n n0 a m bi t = tl t2 @ [0]"
    by (simp add: mont_giro_def Let_def t1_def [symmetric] ucast_mult_u32 u_def [symmetric] t2_def [symmetric])
  have ne: "t1 \<noteq> []" "take n m \<noteq> []" "t2 \<noteq> []" using t1(1) t2(1) assms(3,4) by auto
  have "m ! 0 * u = (m ! 0 * n0) * t1 ! 0" by (simp add: u_def)
  then have "t1 ! 0 + m ! 0 * u = 0" unfolding assms(7) by simp
  then have "(unat (t1 ! 0) + unat (m ! 0) * unat u) mod W = 0"
    by (metis mod_add_right_eq unat_0 unat_plus_u32 unat_mult_u32)
  moreover have "val t2 mod W = (val t1 mod W + (?M mod W) * unat u) mod W"
    unfolding t2(2) t1(2) by (metis (no_types, lifting) mod_add_eq mod_mod_trivial mod_mult_left_eq)
  ultimately have "val t2 mod W = 0" using val_hd [OF ne(1)] val_hd [OF ne(2)] assms(4) by simp
  then have "unat (t2 ! 0) = 0" using val_hd [OF ne(3)] by simp
  then have "val t2 = W * val (tl t2)" using ne(3) by (cases t2) simp_all
  then have e: "W * val (tl t2 @ [0]) = val t2" by (simp add: val_append)
  have "val t2 < 2 * ?M * W" unfolding t2(2) by (rule giro_limite) (use assms(5,6) u32_less in auto)
  then have "W * val (tl t2 @ [0]) < W * (2 * ?M)" unfolding e by (simp add: mult.commute)
  then have "val (tl t2 @ [0]) < 2 * ?M" by (simp only: mult_less_cancel1)
  then show thesis using that [of "unat u"] t2 e unfolding g by simp
qed

section \<open>The loop\<close>

definition modulo_ok :: "exbig \<Rightarrow> bool" where
  "modulo_ok m \<longleftrightarrow> exbig_ok m \<and> odd (valore m)"

lemma modulo_okD:
  assumes "modulo_ok m"
  shows "exbig_ok m" "ex_n m \<noteq> 0" "odd (ex_p m ! 0)" "0 < valore m"
proof -
  show m: "exbig_ok m" "0 < valore m" using assms by (auto simp: modulo_ok_def odd_pos)
  then show n: "ex_n m \<noteq> 0" using valore_zero [of m] by simp
  have "take (ex_n m) (ex_p m) \<noteq> []" using n exbig_okD(1) [OF m(1)] by auto
  then have "valore m mod W = unat (ex_p m ! 0)" using n val_hd [of "take (ex_n m) (ex_p m)"] by (simp add: valore_def)
  moreover have "odd (valore m mod W)" using assms by (simp add: modulo_ok_def dvd_mod_iff)
  ultimately have "odd (unat (ex_p m ! 0))" by simp
  then show "odd (ex_p m ! 0)" by (simp add: bit_unsigned_iff flip: bit_0)
qed

lemma mont_loop:
  assumes "n \<le> length a" "n \<le> length m" "0 < n" "val (take n a) \<le> val (take n m)" "m ! 0 * n0 = - 1" "0 < val (take n m)"
  shows "let t = fold (\<lambda>i. mont_giro n n0 a m (c i)) [0..<i] (replicate (n + 2) 0)
         in length t = n + 2 \<and> val t < 2 * val (take n m)
            \<and> (\<exists>U. W ^ i * val t = val (take n a) * val (map c [0..<i]) + val (take n m) * U)"
proof (induction i)
  case 0
  then show ?case using assms(6) by (auto simp: Let_def)
next
  case (Suc i)
  let ?t = "fold (\<lambda>i. mont_giro n n0 a m (c i)) [0..<i] (replicate (n + 2) 0)"
  let ?A = "val (take n a)" and ?M = "val (take n m)"
  obtain U where IH: "length ?t = n + 2" "val ?t < 2 * ?M" "W ^ i * val ?t = ?A * val (map c [0..<i]) + ?M * U"
    using Suc by (auto simp: Let_def)
  obtain u where u: "length (mont_giro n n0 a m (c i) ?t) = n + 2"
    "W * val (mont_giro n n0 a m (c i) ?t) = val ?t + ?A * unat (c i) + ?M * u"
    "val (mont_giro n n0 a m (c i) ?t) < 2 * ?M"
    using mont_giro_spec [OF IH(1) assms(1-3) IH(2) assms(4,5)] by blast
  have "W ^ Suc i * val (mont_giro n n0 a m (c i) ?t) = W ^ i * (val ?t + ?A * unat (c i) + ?M * u)"
    unfolding u(2) [symmetric] by simp
  also have "\<dots> = W ^ i * val ?t + ?A * (W ^ i * unat (c i)) + ?M * (W ^ i * u)" by (simp add: algebra_simps)
  also have "\<dots> = ?A * val (map c [0..<Suc i]) + ?M * (U + W ^ i * u)"
  proof -
    have c: "val (map c [0..<Suc i]) = val (map c [0..<i]) + W ^ i * unat (c i)" by (simp add: val_append power_mult)
    show ?thesis unfolding IH(3) c by (simp only: distrib_left add_ac)
  qed
  finally show ?case using u by (auto simp: Let_def)
qed

lemma mont_fine:
  assumes "length t = n + 2" "val t < 2 * M" "M < W ^ n"
  shows "val t = val (take n t) + W ^ n * unat (t ! n)" "unat (t ! n) \<le> 1"
proof -
  have "t = take n t @ [t ! n, t ! (n + 1)]"
    by (rule nth_equalityI) (use assms(1) in \<open>auto simp: nth_append less_Suc_eq\<close>)
  then have "val t = val (take n t @ [t ! n, t ! (n + 1)])" by simp
  then have v: "val t = val (take n t) + W ^ n * (unat (t ! n) + W * unat (t ! (n + 1)))"
    using assms(1) by (simp add: val_append power_mult)
  have "unat (t ! n) + W * unat (t ! (n + 1)) \<le> 1"
  proof (rule ccontr)
    assume "\<not> unat (t ! n) + W * unat (t ! (n + 1)) \<le> 1"
    then have "W ^ n * 2 \<le> W ^ n * (unat (t ! n) + W * unat (t ! (n + 1)))" by (intro mult_left_mono) simp_all
    with v assms(2,3) show False by linarith
  qed
  moreover from this have "unat (t ! (n + 1)) = 0" by simp
  ultimately show "val t = val (take n t) + W ^ n * unat (t ! n)" "unat (t ! n) \<le> 1" using v by simp_all
qed

text \<open>The last subtraction: from a value below twice the modulus, in one word more, to its remainder.\<close>

lemma mont_riduci:
  assumes "modulo_ok m" "n = ex_n m" "length t = n + 2" "val t < 2 * valore m"
  defines "r \<equiv> normalizza \<lparr>ex_n = n, ex_p = completa (take n t)\<rparr>"
  defines "q \<equiv> if t ! n \<noteq> 0 then togli_m r m n else if exbig_cmp r m \<ge> 0 then sottrai r m else r"
  shows "exbig_ok q" "valore q = val t mod valore m"
proof -
  note m = modulo_okD [OF assms(1)]
  have n: "n \<le> EXBIG_PAROLE" unfolding assms(2) by (rule exbig_okD(2) [OF m(1)])
  have M: "valore m < W ^ n" using valore_less [OF m(1), of n] assms(2) by (simp add: power_mult)
  have l: "length (take n t) = n" using assms(3) by simp
  have r: "exbig_ok r" "valore r = val (take n t)"
    unfolding r_def by (rule completa_ok; use l n in simp)+
  have rn: "ex_n r \<le> ex_n m" unfolding r_def normalizza_def assms(2) by (simp add: normalizza_da_le)
  note f = mont_fine [OF assms(3,4) M]
  consider (alto) "t ! n \<noteq> 0" | (sopra) "t ! n = 0" "valore m \<le> valore r" | (sotto) "t ! n = 0" "valore r < valore m"
    by linarith
  then have "exbig_ok q \<and> valore q = val t mod valore m"
  proof cases
    case alto
    then have "unat (t ! n) \<noteq> 0" by (simp add: unat_eq_zero)
    then have "unat (t ! n) = 1" using f(2) by linarith
    then have t: "val t = valore r + W ^ n" using f(1) r(2) by simp
    then have "valore r < valore m" using assms(4) M by linarith
    note z = togli_m_spec [OF r(1) m(1) rn this]
    have "val t - valore m < valore m" "valore m \<le> val t" using assms(4) M t by linarith+
    then have "val t mod valore m = val t - valore m" by (simp add: le_mod_geq)
    then show ?thesis using z alto t by (simp add: q_def assms(2) power_mult add.commute)
  next
    case sopra
    then have t: "val t = valore r" using f(1) r(2) by simp
    have "0 \<le> exbig_cmp r m" using exbig_cmp_spec [OF r(1) m(1)] sopra(2) by simp
    moreover have "val t - valore m < valore m" using assms(4) sopra(2) t by linarith
    then have "val t mod valore m = val t - valore m" using sopra(2) t by (simp add: le_mod_geq)
    ultimately show ?thesis using sottrai_spec [OF r(1) m(1) sopra(2)] sopra t by (simp add: q_def)
  next
    case sotto
    then have t: "val t = valore r" using f(1) r(2) by simp
    have "\<not> 0 \<le> exbig_cmp r m" using exbig_cmp_spec [OF r(1) m(1)] sotto(2) by simp
    then show ?thesis using r sotto t by (simp add: q_def)
  qed
  then show "exbig_ok q" "valore q = val t mod valore m" by simp_all
qed

abbreviation mont :: "exbig \<Rightarrow> exbig \<Rightarrow> exbig \<Rightarrow> exbig" where
  "mont m a b \<equiv> mont_mul a b m (n0_inverso (ex_p m ! 0)) (ex_n m)"

lemma mont_mul_spec:
  assumes "modulo_ok m" "exbig_ok a" "valore a \<le> valore m" "exbig_ok b" "valore b \<le> valore m"
  shows "exbig_ok (mont m a b)" "valore (mont m a b) < valore m"
    "(valore (mont m a b) * 2 ^ (32 * ex_n m)) mod valore m = (valore a * valore b) mod valore m"
proof -
  note m = modulo_okD [OF assms(1)]
  define n where "n = ex_n m"
  have le: "ex_n x \<le> n" if "exbig_ok x" "valore x \<le> valore m" for x
    using valore_n [OF that(1), of n] valore_less [OF m(1), of n] that(2) by (simp add: n_def)
  have vn: "val (take n (ex_p x)) = valore x" if "exbig_ok x" "valore x \<le> valore m" for x
  proof -
    have "take n (ex_p x) = map (parola x) [0..<n]"
      by (rule nth_equalityI) (use exbig_okD(1) [OF that(1)] exbig_okD(2) [OF m(1)] parola_nth [OF that(1)] in \<open>auto simp: n_def\<close>)
    then show ?thesis using val_parole [OF exbig_okD(1,2) [OF that(1)] le [OF that]] by simp
  qed
  note A = vn [OF assms(2,3)] and M = vn [OF m(1) order_refl]
  let ?n0 = "n0_inverso (ex_p m ! 0)"
  define t where "t = fold (\<lambda>i. mont_giro n ?n0 (ex_p a) (ex_p m) (parola b i)) [0..<n] (replicate (n + 2) 0)"
  have len: "n \<le> length (ex_p a)" "n \<le> length (ex_p m)" "0 < n"
    using exbig_okD(1) [OF assms(2)] exbig_okD(1,2) [OF m(1)] m(2) by (simp_all add: n_def)
  obtain U where t: "length t = n + 2" "val t < 2 * valore m"
    and U: "W ^ n * val t = valore a * val (map (parola b) [0..<n]) + valore m * U"
    using mont_loop [OF len, where c = "parola b" and i = n and ?n0.0 = ?n0] n0_inverso_spec [OF m(3)] assms(3) m(4)
    unfolding A M t_def by (auto simp: Let_def)
  have B: "val (map (parola b) [0..<n]) = valore b"
    by (rule val_parole [OF exbig_okD(1,2) [OF assms(4)] le [OF assms(4,5)]])
  have q: "mont m a b = (if t ! n \<noteq> 0 then togli_m (normalizza \<lparr>ex_n = n, ex_p = completa (take n t)\<rparr>) m n
      else if exbig_cmp (normalizza \<lparr>ex_n = n, ex_p = completa (take n t)\<rparr>) m \<ge> 0
        then sottrai (normalizza \<lparr>ex_n = n, ex_p = completa (take n t)\<rparr>) m else normalizza \<lparr>ex_n = n, ex_p = completa (take n t)\<rparr>)"
    unfolding mont_mul_def n_def [symmetric] Let_def t_def [symmetric] ..
  note z = mont_riduci [OF assms(1) n_def t, folded q]
  then show "exbig_ok (mont m a b)" "valore (mont m a b) < valore m" using m(4) by simp_all
  have "(valore (mont m a b) * 2 ^ (32 * ex_n m)) mod valore m = (W ^ n * val t) mod valore m"
    unfolding z(2) n_def power_mult mod_mult_left_eq by (simp only: mult.commute)
  then show "(valore (mont m a b) * 2 ^ (32 * ex_n m)) mod valore m = (valore a * valore b) mod valore m"
    unfolding U B by simp
qed

end
