(* ===== verification/Exbig_Props.thy ===== *)
theory Exbig_Props
  imports Exbig_Mont
begin

text \<open>
  Modular exponentiation on the product of Montgomery, the operations on a prepared modulus, conversions from and to bytes,
  and the properties of \<^verbatim>\<open>exbig.c\<close>.
\<close>

section \<open>The contract of a reduced product\<close>

lemma cancella:
  fixes x y R m :: nat
  assumes "coprime R m" "(x * R) mod m = (y * R) mod m"
  shows "x mod m = y mod m"
proof -
  have "(int x * int R) mod int m = (int y * int R) mod int m" using assms(2) by (metis of_nat_mod of_nat_mult)
  then have "int m dvd (int x - int y) * int R" by (simp add: mod_eq_dvd_iff left_diff_distrib)
  moreover have "coprime (int m) (int R)" using assms(1) by (simp add: coprime_commute)
  ultimately have "int m dvd int x - int y" by (simp add: coprime_dvd_mult_left_iff)
  then have "int x mod int m = int y mod int m" by (simp add: mod_eq_dvd_iff)
  then show ?thesis by (metis of_nat_eq_iff of_nat_mod)
qed

locale prodotto_ridotto =
  fixes ok :: "'a \<Rightarrow> bool" and v :: "'a \<Rightarrow> nat" and mul :: "'a \<Rightarrow> 'a \<Rightarrow> 'a" and R m :: nat
  assumes chiuso: "ok a \<Longrightarrow> ok b \<Longrightarrow> ok (mul a b)"
    and legge: "ok a \<Longrightarrow> ok b \<Longrightarrow> (v (mul a b) * R) mod m = (v a * v b) mod m"
    and coprimi: "ok a \<Longrightarrow> coprime R m"
begin

text \<open>A number \<open>y\<close> is carried by \<open>a\<close> when the value of \<open>a\<close> is \<open>y\<close> times \<open>R\<close>: products of carriers carry products, a product
  with \<open>R * R\<close> enters this form and one with 1 leaves it.\<close>

lemma prodotto:
  assumes "ok a" "ok b" "v a mod m = (y * R) mod m" "v b mod m = (z * R) mod m"
  shows "v (mul a b) mod m = (y * z * R) mod m"
proof (rule cancella [OF coprimi [OF assms(1)]])
  have "(v (mul a b) * R) mod m = (v a mod m * (v b mod m)) mod m" using legge [OF assms(1,2)] by (simp add: mod_mult_eq)
  also have "\<dots> = (y * z * R * R) mod m" unfolding assms(3,4) by (simp add: mod_mult_eq ac_simps)
  finally show "(v (mul a b) * R) mod m = (y * z * R * R) mod m" .
qed

lemma entra:
  assumes "ok a" "ok b" "v b mod m = (R * R) mod m"
  shows "v (mul a b) mod m = (v a * R) mod m"
proof (rule cancella [OF coprimi [OF assms(1)]])
  have "(v (mul a b) * R) mod m = (v a * (v b mod m)) mod m" using legge [OF assms(1,2)] by (simp add: mod_mult_right_eq)
  then show "(v (mul a b) * R) mod m = (v a * R * R) mod m" unfolding assms(3) by (simp add: mod_mult_right_eq ac_simps)
qed

lemma esce:
  assumes "ok a" "ok b" "v b = 1" "v a mod m = (y * R) mod m"
  shows "v (mul a b) mod m = y mod m"
  by (rule cancella [OF coprimi [OF assms(1)]]) (simp add: legge [OF assms(1,2)] assms(3,4))

lemma quadra_e_moltiplica:
  assumes "ok acc" "ok x" "v acc mod m = (y ^ k * R) mod m" "v x mod m = (y * R) mod m"
  shows "v (mul acc acc) mod m = (y ^ (2 * k) * R) mod m"
    "v (mul (mul acc acc) x) mod m = (y ^ (2 * k + 1) * R) mod m"
proof -
  show q: "v (mul acc acc) mod m = (y ^ (2 * k) * R) mod m"
    using prodotto [OF assms(1,1,3,3)] by (simp add: mult_2 power_add)
  show "v (mul (mul acc acc) x) mod m = (y ^ (2 * k + 1) * R) mod m"
    using prodotto [OF chiuso [OF assms(1,1)] assms(2) q assms(4)] by (simp add: ac_simps)
qed

end

definition mont_ok :: "exbig \<Rightarrow> exbig \<Rightarrow> bool" where
  "mont_ok m a \<longleftrightarrow> modulo_ok m \<and> exbig_ok a \<and> valore a \<le> valore m"

interpretation mo: prodotto_ridotto "mont_ok m" valore "mont m" "2 ^ (32 * ex_n m)" "valore m" for m
proof
  fix a b assume a: "mont_ok m a" and "mont_ok m b"
  then show "mont_ok m (mont m a b)"
    using mont_mul_spec(1,2) [of m a b] by (simp add: mont_ok_def)
  show "(valore (mont m a b) * 2 ^ (32 * ex_n m)) mod valore m = (valore a * valore b) mod valore m"
    using mont_mul_spec(3) [of m a b] a \<open>mont_ok m b\<close> by (simp add: mont_ok_def)
next
  fix a assume "mont_ok m a"
  then have "odd (valore m)" by (simp add: mont_ok_def modulo_ok_def)
  then show "coprime (2 ^ (32 * ex_n m)) (valore m)" by simp
qed

section \<open>The square of R\<close>

lemma parola_ok: "exbig_ok (exbig_da_parola v)" "valore (exbig_da_parola v) = unat v"
proof -
  have z: "(replicate EXBIG_PAROLE (0 :: u32))[0 := v] = v # replicate 127 0" by (simp add: numeral_eq_Suc)
  show "exbig_ok (exbig_da_parola v)" "valore (exbig_da_parola v) = unat v"
    unfolding exbig_da_parola_def exbig_zero_def exbig_ok_def valore_def by (auto simp: z nth_Cons')
qed

lemma parola_uno: "exbig_ok (exbig_da_parola 1)" "valore (exbig_da_parola 1) = 1"
  using parola_ok [of 1] by simp_all

lemma raddoppia_spec:
  assumes "modulo_ok m" "exbig_ok r" "valore r < valore m \<or> valore r = 1 \<and> valore m = 1"
  shows "exbig_ok (raddoppia m (ex_n m) r)
    \<and> (valore (raddoppia m (ex_n m) r) < valore m \<or> valore (raddoppia m (ex_n m) r) = 1 \<and> valore m = 1)
    \<and> valore (raddoppia m (ex_n m) r) mod valore m = (2 * valore r) mod valore m"
proof -
  note m = modulo_okD [OF assms(1)]
  obtain c d where s: "somma r r = (c, d)" by fastforce
  note d = somma_spec [OF assms(2,2) s]
  have q: "raddoppia m (ex_n m) r = (if c \<noteq> 0 then togli_m d m (ex_n m) else if exbig_cmp d m \<ge> 0 then sottrai d m else d)"
    by (simp add: raddoppia_def s)
  have M: "valore m < 2 ^ (32 * ex_n m)" "valore m < EX_TETTO"
    using valore_less [OF m(1) order_refl] valore_less [OF m(1) exbig_okD(2) [OF m(1)]] by (simp_all only: EX_TETTO_def)
  consider (riporto) "c \<noteq> 0" | (sopra) "c = 0" "valore m \<le> valore d" | (sotto) "c = 0" "valore d < valore m" by linarith
  then show ?thesis
  proof cases
    case riporto
    then have "unat c = 1" using d by (metis le_neq_implies_less less_one unat_eq_zero)
    then have dd: "valore d + EX_TETTO = 2 * valore r" using d by simp
    have "(2 :: nat) ^ 1 < EX_TETTO" unfolding EX_TETTO_def by (rule power_strict_increasing) simp_all
    with dd assms(3) have r: "valore r < valore m" by auto
    have "ex_n m = EXBIG_PAROLE"
    proof (rule ccontr)
      assume "ex_n m \<noteq> EXBIG_PAROLE"
      then have "ex_n m \<le> 127" using exbig_okD(2) [OF m(1)] by simp
      moreover define K :: nat where "K = 2 ^ (32 * 127)"
      ultimately have "2 ^ (32 * ex_n m) \<le> K" by (simp only: K_def) (intro power_increasing; simp)
      moreover have "EX_TETTO = K * 2 ^ 32"
        unfolding EX_TETTO_def K_def power_add [symmetric] by (rule arg_cong [of _ _ "power 2"]) simp
      ultimately show False using dd r M by simp
    qed
    then have T: "EX_TETTO = 2 ^ (32 * ex_n m)" by (simp only: EX_TETTO_def)
    have "valore d < valore m" using dd M r by linarith
    moreover have "ex_n d \<le> ex_n m" using exbig_okD(2) [of d] d \<open>ex_n m = EXBIG_PAROLE\<close> by simp
    ultimately have z: "exbig_ok (togli_m d m (ex_n m))" "valore (togli_m d m (ex_n m)) = 2 * valore r - valore m"
      using togli_m_spec [of d m] d m(1) dd unfolding T by (simp_all add: add.commute)
    moreover have "valore m \<le> 2 * valore r" using dd M by linarith
    then have "(2 * valore r - valore m) mod valore m = (2 * valore r) mod valore m" by (simp add: le_mod_geq)
    ultimately show ?thesis using riporto q r by auto
  next
    case sopra
    then have dd: "valore d = 2 * valore r" using d by simp
    have "0 \<le> exbig_cmp d m" using exbig_cmp_spec [of d m] d m(1) sopra(2) by simp
    then have e: "raddoppia m (ex_n m) r = sottrai d m" using q sopra by simp
    have "(2 * valore r - valore m) mod valore m = (2 * valore r) mod valore m" using sopra(2) dd by (simp add: le_mod_geq)
    then show ?thesis using sottrai_spec [OF _ m(1) sopra(2)] d assms(3) sopra(2) unfolding e dd by auto
  next
    case sotto
    then have "\<not> 0 \<le> exbig_cmp d m" using exbig_cmp_spec [of d m] d m(1) by simp
    then have "raddoppia m (ex_n m) r = d" using q sotto by simp
    then show ?thesis using d sotto by simp
  qed
qed

lemma erre_quadro_spec:
  assumes "modulo_ok m"
  shows "mont_ok m (erre_quadro m (ex_n m))"
    "valore (erre_quadro m (ex_n m)) mod valore m = (2 ^ (32 * ex_n m) * 2 ^ (32 * ex_n m)) mod valore m"
proof -
  have "exbig_ok r \<and> (valore r < valore m \<or> valore r = 1 \<and> valore m = 1) \<and> valore r mod valore m = 2 ^ k mod valore m"
    if "r = (raddoppia m (ex_n m) ^^ k) (exbig_da_parola 1)" for k r
    using that
  proof (induction k arbitrary: r)
    case 0
    then show ?case using parola_uno modulo_okD(4) [OF assms] by auto
  next
    case (Suc k)
    let ?r = "(raddoppia m (ex_n m) ^^ k) (exbig_da_parola 1)"
    have IH: "exbig_ok ?r" "valore ?r < valore m \<or> valore ?r = 1 \<and> valore m = 1" "valore ?r mod valore m = 2 ^ k mod valore m"
      using Suc(1) [OF refl] by auto
    have "(2 * valore ?r) mod valore m = 2 ^ Suc k mod valore m" using IH(3) by (metis mod_mult_right_eq power_Suc)
    then show ?case using raddoppia_spec [OF assms IH(1,2)] Suc(2) by simp
  qed
  from this [OF refl, of "64 * ex_n m"] show "mont_ok m (erre_quadro m (ex_n m))"
    "valore (erre_quadro m (ex_n m)) mod valore m = (2 ^ (32 * ex_n m) * 2 ^ (32 * ex_n m)) mod valore m"
    using assms by (auto simp: mont_ok_def erre_quadro_def power_add [symmetric])
qed

section \<open>Bits\<close>

lemma val_Cons_or: "val (x # xs) = unat x OR push_bit 32 (val xs)"
proof -
  have "unat x AND push_bit 32 (val xs) = 0"
    by (rule bit_eqI) (auto simp: bit_simps bit_unsigned_iff dest: bit_imp_le_length)
  then have "unat x + push_bit 32 (val xs) = unat x OR push_bit 32 (val xs)" by (rule disjunctive_add_eq_or)
  then show ?thesis by (simp add: push_bit_eq_mult mult.commute)
qed

lemma bit_val: "bit (val xs) j \<longleftrightarrow> j div 32 < length xs \<and> bit (xs ! (j div 32)) (j mod 32)"
proof (induction xs arbitrary: j)
  case (Cons x xs)
  show ?case
  proof (cases "j < 32")
    case True
    then show ?thesis unfolding val_Cons_or by (simp add: bit_simps)
  next
    case False
    then have "j div 32 = Suc ((j - 32) div 32)" "(j - 32) mod 32 = j mod 32" by (simp_all add: le_div_geq le_mod_geq)
    moreover have "\<not> bit x j" using False by (auto dest: bit_imp_le_length)
    ultimately show ?thesis using False Cons [of "j - 32"] unfolding val_Cons_or by (simp add: bit_simps)
  qed
qed simp

lemma bit_di_spec: "unat w < 2 ^ bit_di w" "w \<noteq> 0 \<Longrightarrow> 0 < bit_di w \<and> 2 ^ (bit_di w - 1) \<le> unat w"
proof (induction w rule: bit_di.induct)
  case (1 w)
  have h: "unat (drop_bit 1 w) = unat w div 2" unfolding unat_drop_bit_eq by (simp add: drop_bit_eq_div)
  {
    case 1
    show ?case
    proof (cases "w = 0")
      case False
      then have b: "bit_di w = Suc (bit_di (drop_bit 1 w))" by (subst bit_di.simps) simp
      have "unat w div 2 < 2 ^ bit_di (drop_bit 1 w)" using "1.IH"(1) [OF False] unfolding h .
      then show ?thesis unfolding b by simp
    qed (simp add: bit_di.simps)
  next
    case 2
    then have b: "bit_di w = Suc (bit_di (drop_bit 1 w))" by (subst bit_di.simps) simp
    have "2 ^ bit_di (drop_bit 1 w) \<le> unat w"
    proof (cases "drop_bit 1 w = 0")
      case True
      then have "bit_di (drop_bit 1 w) = 0" by (simp add: bit_di.simps)
      moreover have "unat w \<noteq> 0" using 2 by (simp add: unat_eq_zero)
      ultimately show ?thesis by simp
    next
      case False
      then obtain k where "bit_di (drop_bit 1 w) = Suc k" "2 ^ k \<le> unat w div 2"
        using "1.IH"(2) [OF 2 False] unfolding h by (metis Suc_pred')
      then show ?thesis by simp
    qed
    then show ?case using b by simp
  }
qed

lemma exbig_bit_spec:
  assumes "exbig_ok a"
  shows "valore a < 2 ^ exbig_bit a" "valore a \<noteq> 0 \<Longrightarrow> 0 < exbig_bit a \<and> 2 ^ (exbig_bit a - 1) \<le> valore a"
proof -
  let ?k = "ex_n a - 1" and ?w = "ex_p a ! (ex_n a - 1)"
  show "valore a < 2 ^ exbig_bit a"
  proof (cases "ex_n a = 0")
    case True
    then show ?thesis using valore_zero [OF assms] by (simp add: exbig_bit_def)
  next
    case False
    have "val (take ?k (ex_p a)) < 2 ^ (32 * ?k)"
      using val_less [of "take ?k (ex_p a)"] exbig_okD(1,2) [OF assms] by (simp add: min_absorb2)
    then have "valore a < 2 ^ (32 * ?k) * (unat ?w + 1)" unfolding valore_top(1) [OF assms False] by simp
    also have "\<dots> \<le> 2 ^ (32 * ?k) * 2 ^ bit_di ?w" using bit_di_spec(1) [of ?w] by (intro mult_left_mono) simp_all
    also have "\<dots> = 2 ^ exbig_bit a" using False by (simp add: exbig_bit_def power_add mult.commute)
    finally show ?thesis .
  qed
  assume "valore a \<noteq> 0"
  then have n: "ex_n a \<noteq> 0" using valore_zero [OF assms] by simp
  have w: "0 < bit_di ?w" "2 ^ (bit_di ?w - 1) \<le> unat ?w" using bit_di_spec(2) [OF exbig_okD(4) [OF assms n]] by simp_all
  have "2 ^ (exbig_bit a - 1) = 2 ^ (32 * ?k) * (2 :: nat) ^ (bit_di ?w - 1)"
    using n w(1) by (simp add: exbig_bit_def power_add [symmetric] mult.commute)
  also have "\<dots> \<le> 2 ^ (32 * ?k) * unat ?w" using w(2) by (intro mult_left_mono) simp_all
  also have "\<dots> \<le> valore a" unfolding valore_top(1) [OF assms n] by simp
  finally show "0 < exbig_bit a \<and> 2 ^ (exbig_bit a - 1) \<le> valore a" using w(1) n by (simp add: exbig_bit_def)
qed

section \<open>Exponentiation\<close>

lemma modexp_giro_spec:
  assumes "mont_ok m x" "mont_ok m acc" "exbig_ok e" "i < exbig_bit e"
    and "valore x mod valore m = (y * 2 ^ (32 * ex_n m)) mod valore m"
    and "valore acc mod valore m = (y ^ (valore e div 2 ^ Suc i) * 2 ^ (32 * ex_n m)) mod valore m"
  defines "r \<equiv> modexp_giro x e m (n0_inverso (ex_p m ! 0)) (ex_n m) (Suc i) acc"
  shows "mont_ok m r" "valore r mod valore m = (y ^ (valore e div 2 ^ i) * 2 ^ (32 * ex_n m)) mod valore m"
proof -
  let ?k = "valore e div 2 ^ Suc i"
  have n: "i div 32 < ex_n e"
  proof -
    have "exbig_bit e \<le> 32 * ex_n e"
    proof (cases "ex_n e = 0")
      case False
      then have "valore e \<noteq> 0" using valore_zero [OF assms(3)] by simp
      then have "2 ^ (exbig_bit e - 1) < (2 :: nat) ^ (32 * ex_n e)" "0 < exbig_bit e"
        using exbig_bit_spec(2) [OF assms(3)] valore_less [OF assms(3) order_refl] by linarith+
      then show ?thesis by simp
    qed (simp add: exbig_bit_def)
    then show ?thesis using assms(4) by simp
  qed
  have b: "drop_bit (i mod 32) (ex_p e ! (i div 32)) AND 1 \<noteq> 0 \<longleftrightarrow> bit (valore e) i"
    using n exbig_okD(1,2) [OF assms(3)]
    by (auto simp: valore_def bit_val and_one_eq bit_iff_odd_drop_bit [of "ex_p e ! (i div 32)"] odd_iff_mod_2_eq_one)
  have k: "valore e div 2 ^ i = 2 * ?k + (if bit (valore e) i then 1 else 0)"
  proof -
    have "?k = valore e div 2 ^ i div 2" by (metis div_mult2_eq power_Suc2)
    then show ?thesis by (auto simp: bit_iff_odd)
  qed
  note q = mo.quadra_e_moltiplica [OF assms(2,1,6,5)]
  have "r = (if bit (valore e) i then mont m (mont m acc acc) x else mont m acc acc)"
    unfolding r_def modexp_giro_def Let_def using b by simp
  moreover have "mont_ok m (mont m acc acc)" "mont_ok m (mont m (mont m acc acc) x)"
    using mo.chiuso [OF assms(2,2)] mo.chiuso [OF mo.chiuso [OF assms(2,2)] assms(1)] .
  ultimately show "mont_ok m r" "valore r mod valore m = (y ^ (valore e div 2 ^ i) * 2 ^ (32 * ex_n m)) mod valore m"
    using q unfolding k by simp_all
qed

lemma modexp_ciclo:
  assumes "mont_ok m x" "mont_ok m acc" "exbig_ok e" "i \<le> exbig_bit e"
    and "valore x mod valore m = (y * 2 ^ (32 * ex_n m)) mod valore m"
    and "valore acc mod valore m = (y ^ (valore e div 2 ^ i) * 2 ^ (32 * ex_n m)) mod valore m"
  defines "r \<equiv> fold (modexp_giro x e m (n0_inverso (ex_p m ! 0)) (ex_n m)) (rev [1..<Suc i]) acc"
  shows "mont_ok m r \<and> valore r mod valore m = (y ^ valore e * 2 ^ (32 * ex_n m)) mod valore m"
  unfolding r_def using assms(2,4,6)
proof (induction i arbitrary: acc)
  case (Suc i)
  have "i < exbig_bit e" using Suc(3) by simp
  note g = modexp_giro_spec [OF assms(1) Suc(2) assms(3) this assms(5) Suc(4)]
  have "rev [1..<Suc (Suc i)] = Suc i # rev [1..<Suc i]" by simp
  then show ?case using Suc(1) [OF g(1) _ g(2)] \<open>i < exbig_bit e\<close> by (simp only: fold_simps less_imp_le)
qed simp

lemma pari_iff:
  assumes "exbig_ok m"
  shows "(ex_n m = 0 \<or> ex_p m ! 0 AND 1 = 0) \<longleftrightarrow> even (valore m)"
proof (cases "ex_n m = 0")
  case True
  then show ?thesis using valore_zero [OF assms] by simp
next
  case False
  have "take (ex_n m) (ex_p m) \<noteq> []" using False exbig_okD(1) [OF assms] by auto
  then have "valore m mod W = unat (ex_p m ! 0)" using False val_hd [of "take (ex_n m) (ex_p m)"] by (simp add: valore_def)
  then have "even (valore m) \<longleftrightarrow> even (unat (ex_p m ! 0))" by (metis dvd_mod_iff even_numeral even_power zero_less_numeral)
  also have "odd (unat (ex_p m ! 0)) \<longleftrightarrow> odd (ex_p m ! 0)" by (simp add: bit_unsigned_iff flip: bit_0)
  then have "even (unat (ex_p m ! 0)) \<longleftrightarrow> even (ex_p m ! 0)" by blast
  also have "\<dots> \<longleftrightarrow> ex_p m ! 0 AND 1 = 0" by (simp add: and_one_eq even_iff_mod_2_eq_zero)
  finally show ?thesis using False by simp
qed

lemma modexp_ok:
  assumes "exbig_ok base" "exbig_ok e" "modulo_ok m" "valore base < valore m"
  shows "\<exists>r. exbig_modexp base e m = Some r \<and> exbig_ok r \<and> valore r = valore base ^ valore e mod valore m"
proof -
  note m = modulo_okD [OF assms(3)]
  have no: "\<not> (ex_n m = 0 \<or> ex_p m ! 0 AND 1 = 0)" using pari_iff [OF m(1)] assms(3) by (simp add: modulo_ok_def)
  have cmp: "\<not> 0 \<le> exbig_cmp base m" using exbig_cmp_spec [OF assms(1) m(1)] assms(4) by simp
  let ?n0 = "n0_inverso (ex_p m ! 0)" and ?uno = "exbig_da_parola 1"
  note guardie = no cmp exbig_okD(2) [OF m(1)]
  show ?thesis
  proof (cases "ex_n e = 0")
    case True
    then have "valore e = 0" using valore_zero [OF assms(2)] by simp
    moreover have "0 \<le> exbig_cmp ?uno m \<longleftrightarrow> valore m = 1" using exbig_cmp_spec [OF parola_uno(1) m(1)] parola_uno(2) m(4) by auto
    moreover have "exbig_ok exbig_zero" "valore exbig_zero = 0" by (simp_all add: exbig_ok_def exbig_zero_def valore_def)
    ultimately show ?thesis
      using guardie True parola_uno m(4) by (cases "valore m = 1") (auto simp: exbig_modexp_def Let_def mod_less)
  next
    case False
    have uno: "mont_ok m ?uno" and base: "mont_ok m base"
      using assms m(4) parola_uno by (simp_all add: mont_ok_def)
    note rr = erre_quadro_spec [OF assms(3)]
    define x where "x = mont m base (erre_quadro m (ex_n m))"
    define acc where "acc = mont m ?uno (erre_quadro m (ex_n m))"
    have x: "mont_ok m x" "valore x mod valore m = (valore base * 2 ^ (32 * ex_n m)) mod valore m"
      unfolding x_def using mo.chiuso [OF base rr(1)] mo.entra [OF base rr] .
    have acc: "mont_ok m acc" "valore acc mod valore m = (valore ?uno * 2 ^ (32 * ex_n m)) mod valore m"
      unfolding acc_def using mo.chiuso [OF uno rr(1)] mo.entra [OF uno rr] .
    define fin where "fin = fold (modexp_giro x e m ?n0 (ex_n m)) (rev [1..<Suc (exbig_bit e)]) acc"
    have "valore e div 2 ^ exbig_bit e = 0" using exbig_bit_spec(1) [OF assms(2)] by simp
    then have fin: "mont_ok m fin" "valore fin mod valore m = (valore base ^ valore e * 2 ^ (32 * ex_n m)) mod valore m"
      using modexp_ciclo [OF x(1) acc(1) assms(2) order_refl x(2)] acc(2) parola_uno(2) unfolding fin_def by simp_all
    have "exbig_modexp base e m = Some (mont m fin ?uno)"
      unfolding exbig_modexp_def Let_def x_def [symmetric] acc_def [symmetric] fin_def [symmetric]
      using guardie False by (simp add: not_less)
    moreover have "valore (mont m fin ?uno) mod valore m = valore base ^ valore e mod valore m"
      using mo.esce [OF fin(1) uno parola_uno(2) fin(2)] .
    moreover have "exbig_ok (mont m fin ?uno)" "valore (mont m fin ?uno) < valore m"
      using mont_mul_spec(1,2) [of m fin ?uno] fin(1) uno by (simp_all add: mont_ok_def)
    ultimately show ?thesis by simp
  qed
qed

section \<open>Properties\<close>

text \<open>C4. Modular exponentiation is what it says: for an odd modulus of up to 4096 bits and a base below it, \<^verbatim>\<open>exbig_modexp\<close>
  returns the power in the natural numbers modulo the modulus; it refuses an even or zero modulus and a base that is not
  reduced.\<close>

theorem exbig_modexp_correct:
  assumes "exbig_ok base" "exbig_ok e" "exbig_ok m"
  shows "if odd (valore m) \<and> valore base < valore m
         then \<exists>r. exbig_modexp base e m = Some r \<and> exbig_ok r \<and> valore r = valore base ^ valore e mod valore m
         else exbig_modexp base e m = None"
proof -
  note dis = pari_iff [OF assms(3)] and cmp = exbig_cmp_spec [OF assms(1,3)]
  consider (buono) "odd (valore m)" "valore base < valore m" | (cattivo) "even (valore m) \<or> valore m \<le> valore base" by linarith
  then show ?thesis
  proof cases
    case buono
    then have m: "modulo_ok m" by (simp add: modulo_ok_def assms(3))
    obtain r where r: "exbig_modexp base e m = Some r" "exbig_ok r" "valore r = valore base ^ valore e mod valore m"
      using modexp_ok [OF assms(1,2) m buono(2)] by blast
    then show ?thesis using buono by auto
  next
    case cattivo
    then show ?thesis using dis cmp exbig_okD(2) [OF assms(3)] by (auto simp: exbig_modexp_def)
  qed
qed

theorem exbig_modexp_correct_witness:
  "exbig_ok (exbig_da_parola 4) \<and> exbig_ok (exbig_da_parola 13) \<and> exbig_ok (exbig_da_parola 497)
   \<and> (\<exists>r. exbig_modexp (exbig_da_parola 4) (exbig_da_parola 13) (exbig_da_parola 497) = Some r \<and> valore r = 445)"
  using exbig_modexp_correct [of "exbig_da_parola 4" "exbig_da_parola 13" "exbig_da_parola 497"] parola_ok
  by auto

lemma normalizza_id: "exbig_ok a \<Longrightarrow> normalizza a = a"
  using exbig_okD(4) [of a] by (cases "ex_n a") (simp_all add: normalizza_def)

lemma somma_fits:
  assumes "exbig_ok a" "exbig_ok b" "valore a + valore b < EX_TETTO"
  shows "exbig_ok (snd (somma a b))" "valore (snd (somma a b)) = valore a + valore b"
proof -
  obtain c r where s: "somma a b = (c, r)" by fastforce
  have "unat c = 0" using somma_spec [OF assms(1,2) s] assms(3) by (cases "unat c") auto
  then show "exbig_ok (snd (somma a b))" "valore (snd (somma a b)) = valore a + valore b"
    using somma_spec [OF assms(1,2) s] s by simp_all
qed

abbreviation preparato :: "exbig \<Rightarrow> exbig_mod" where
  "preparato m \<equiv> \<lparr>mo_m = m, mo_rr = erre_quadro m (ex_n m), mo_n = ex_n m, mo_n0 = n0_inverso (ex_p m ! 0)\<rparr>"

lemma exbig_mod_prepara_Some: "exbig_ok m \<Longrightarrow> odd (valore m) \<Longrightarrow> exbig_mod_prepara m = Some (preparato m)"
  using pari_iff [of m] exbig_okD(2) [of m] by (auto simp: exbig_mod_prepara_def)

lemma valore_tetto: "exbig_ok x \<Longrightarrow> valore x < EX_TETTO"
  using valore_less [OF _ exbig_okD(2), of x] by (simp only: EX_TETTO_def)

lemma exbig_mod_mul_spec:
  assumes "exbig_ok a" "exbig_ok b" "exbig_ok m" "odd (valore m)" "valore a < valore m" "valore b < valore m"
  shows "valore (exbig_mod_mul a b (preparato m)) = (valore a * valore b) mod valore m"
proof -
  have m: "modulo_ok m" using assms by (simp add: modulo_ok_def)
  have ok: "mont_ok m a" "mont_ok m b" using assms m by (simp_all add: mont_ok_def)
  note ab = mo.chiuso [OF ok] and rr = erre_quadro_spec [OF m]
  have "valore (mont m (mont m a b) (erre_quadro m (ex_n m))) mod valore m = (valore (mont m a b) * 2 ^ (32 * ex_n m)) mod valore m"
    by (rule mo.entra [OF ab rr])
  then have "valore (exbig_mod_mul a b (preparato m)) mod valore m = (valore a * valore b) mod valore m"
    using mo.legge [OF ok] by (simp add: exbig_mod_mul_def)
  moreover have "valore (exbig_mod_mul a b (preparato m)) < valore m"
    using mont_mul_spec(2) [OF m, of "mont m a b" "erre_quadro m (ex_n m)"] ab rr(1) by (simp add: exbig_mod_mul_def mont_ok_def)
  ultimately show ?thesis by simp
qed

lemma exbig_mod_add_fits:
  assumes "exbig_ok a" "exbig_ok b" "exbig_ok m" "valore a < valore m" "valore b < valore m" "valore a + valore b < EX_TETTO"
  shows "valore (exbig_mod_add a b (preparato m)) = (valore a + valore b) mod valore m"
proof -
  note s = somma_fits [OF assms(1,2,6)]
  show ?thesis using exbig_cmp_spec [OF s(1) assms(3)] sottrai_spec [OF s(1) assms(3)] s assms(4,5)
    by (auto simp: exbig_mod_add_def Let_def le_mod_geq not_le)
qed

lemma exbig_mod_add_oltre:
  assumes "exbig_ok a" "exbig_ok b" "exbig_ok m" "valore a < valore m" "valore b < valore m" "EX_TETTO \<le> valore a + valore b"
  shows "valore (exbig_mod_add a b (preparato m)) = valore a + valore b - EX_TETTO"
    "valore (exbig_mod_add a b (preparato m)) \<noteq> (valore a + valore b) mod valore m"
proof -
  obtain d r where s: "somma a b = (d, r)" by fastforce
  note r = somma_spec [OF assms(1,2) s] and lim = valore_tetto [OF assms(3)]
  have "unat d = 1" using r assms(6) valore_tetto [of r] by (cases "unat d = 0") auto
  then have v: "valore r + EX_TETTO = valore a + valore b" using r by simp
  then have "valore r < valore m" using lim assms(4,5) by linarith
  then have e: "exbig_mod_add a b (preparato m) = r" using exbig_cmp_spec [of r m] r assms(3) s by (simp add: exbig_mod_add_def)
  have "valore m \<le> valore a + valore b" "valore a + valore b - valore m < valore m" using v assms(4,5) lim by linarith+
  then have "(valore a + valore b) mod valore m = valore a + valore b - valore m" by (simp add: le_mod_geq)
  then show "valore (exbig_mod_add a b (preparato m)) = valore a + valore b - EX_TETTO"
    "valore (exbig_mod_add a b (preparato m)) \<noteq> (valore a + valore b) mod valore m"
    using v assms(6) lim e by auto
qed

lemma exbig_mod_sub_fits:
  assumes "exbig_ok a" "exbig_ok b" "exbig_ok m" "valore a < valore m" "valore b < valore m" "valore b \<le> valore a \<or> valore a + valore m < EX_TETTO"
  shows "valore (exbig_mod_sub a b (preparato m)) = (valore m + valore a - valore b) mod valore m"
proof (cases "valore b \<le> valore a")
  case True
  then have "exbig_mod_sub a b (preparato m) = sottrai a b"
    using exbig_cmp_spec [OF assms(1,2)] normalizza_id [OF sottrai_spec(1) [OF assms(1,2)]] by (simp add: exbig_mod_sub_def)
  moreover have "(valore m + valore a - valore b) mod valore m = valore a - valore b"
    unfolding diff_add_assoc [OF True] using assms(4) by simp
  ultimately show ?thesis using sottrai_spec(2) [OF assms(1,2) True] by simp
next
  case False
  then have "valore a + valore m < EX_TETTO" using assms(6) by simp
  note sm = somma_fits [OF assms(1,3) this]
  then have "valore b \<le> valore (snd (somma a m))" using assms(5) by simp
  note z = sottrai_spec [OF sm(1) assms(2) this]
  have "exbig_mod_sub a b (preparato m) = sottrai (snd (somma a m)) b"
    using False exbig_cmp_spec [OF assms(1,2)] normalizza_id [OF z(1)] by (simp add: exbig_mod_sub_def)
  moreover have "valore m + valore a - valore b < valore m" using False assms(5) by linarith
  ultimately show ?thesis using z(2) sm(2) by (simp add: add.commute)
qed

text \<open>C37. The operations on a prepared modulus, for every odd modulus of up to 4096 bits and every two remainders: the product is the one
  of the ring of the remainders; the sum is, exactly when the sum of the two remainders fits the 4096 bits of a number; the difference
  is, when it needs no borrow or the first remainder and the modulus together fit. With a modulus of at most 4095 bits both conditions hold.\<close>

theorem exbig_mod_ring:
  assumes "exbig_ok a" "exbig_ok b" "exbig_ok m" "odd (valore m)" "valore a < valore m" "valore b < valore m"
  shows "\<exists>c. exbig_mod_prepara m = Some c
    \<and> valore (exbig_mod_mul a b c) = (valore a * valore b) mod valore m
    \<and> (valore (exbig_mod_add a b c) = (valore a + valore b) mod valore m \<longleftrightarrow> valore a + valore b < EX_TETTO)
    \<and> (valore b \<le> valore a \<or> valore a + valore m < EX_TETTO \<longrightarrow>
         valore (exbig_mod_sub a b c) = (valore m + valore a - valore b) mod valore m)
    \<and> (2 * valore m \<le> EX_TETTO \<longrightarrow> valore a + valore b < EX_TETTO \<and> valore a + valore m < EX_TETTO)"
proof -
  have "valore a + valore b < EX_TETTO \<and> valore a + valore m < EX_TETTO" if "2 * valore m \<le> EX_TETTO"
    using that assms(5,6) by linarith
  moreover have "valore (exbig_mod_add a b (preparato m)) = (valore a + valore b) mod valore m \<longleftrightarrow> valore a + valore b < EX_TETTO"
    using exbig_mod_add_fits [OF assms(1-3,5,6)] exbig_mod_add_oltre(2) [OF assms(1-3,5,6)] by (cases "valore a + valore b < EX_TETTO") simp_all
  ultimately show ?thesis
    using exbig_mod_prepara_Some [OF assms(3,4)] exbig_mod_mul_spec [OF assms] exbig_mod_sub_fits [OF assms(1-3,5,6)] by blast
qed

theorem exbig_mod_ring_witness:
  "2 * valore (exbig_da_parola 497) \<le> EX_TETTO
   \<and> (\<exists>c. exbig_mod_prepara (exbig_da_parola 497) = Some c \<and> valore (exbig_mod_mul (exbig_da_parola 400) (exbig_da_parola 300) c) = 223
       \<and> valore (exbig_mod_add (exbig_da_parola 400) (exbig_da_parola 300) c) = 203
       \<and> valore (exbig_mod_sub (exbig_da_parola 300) (exbig_da_parola 400) c) = 397)"
proof -
  have "(2 :: nat) ^ 12 \<le> EX_TETTO" unfolding EX_TETTO_def by (rule power_increasing) simp_all
  then have t: "2 * valore (exbig_da_parola 497) \<le> EX_TETTO" by (simp add: parola_ok)
  from exbig_mod_ring [of "exbig_da_parola 400" "exbig_da_parola 300" "exbig_da_parola 497"]
    exbig_mod_ring [of "exbig_da_parola 300" "exbig_da_parola 400" "exbig_da_parola 497"] t
  show ?thesis by (auto simp: parola_ok)
qed

text \<open>C39. A modulus of the full 4096 bits is accepted by \<^verbatim>\<open>exbig_mod_prepara\<close>, but \<^verbatim>\<open>exbig_mod_add\<close> drops the carry of the sum: two
  remainders whose sum does not fit a number give a result that is too small by the difference between the capacity and the
  modulus.\<close>

theorem exbig_mod_add_carry:
  assumes "exbig_ok a" "exbig_ok b" "exbig_ok m" "odd (valore m)" "valore a < valore m" "valore b < valore m"
    and "EX_TETTO \<le> valore a + valore b"
  shows "\<exists>c. exbig_mod_prepara m = Some c \<and> valore (exbig_mod_add a b c) = valore a + valore b - EX_TETTO
    \<and> valore (exbig_mod_add a b c) \<noteq> (valore a + valore b) mod valore m"
  using exbig_mod_prepara_Some [OF assms(3,4)] exbig_mod_add_oltre [OF assms(1-3,5-7)] by blast

text \<open>The largest modulus, all bits one, and the remainder below it.\<close>

definition mod_pieno :: exbig where
  "mod_pieno = \<lparr>ex_n = EXBIG_PAROLE, ex_p = replicate EXBIG_PAROLE 0xFFFFFFFF\<rparr>"

definition quasi_pieno :: exbig where
  "quasi_pieno = \<lparr>ex_n = EXBIG_PAROLE, ex_p = 0xFFFFFFFE # replicate 127 0xFFFFFFFF\<rparr>"

lemma val_uni: "val (replicate k 0xFFFFFFFF) + 1 = 2 ^ (32 * k)"
proof (induction k)
  case (Suc k)
  have "val (replicate (Suc k) 0xFFFFFFFF) + 1 = 2 ^ 32 * (val (replicate k 0xFFFFFFFF) + 1)" by simp
  then show ?case unfolding Suc by (simp add: power_add)
qed simp

lemma pieni:
  "exbig_ok mod_pieno" "exbig_ok quasi_pieno" "valore mod_pieno + 1 = EX_TETTO" "valore quasi_pieno + 2 = EX_TETTO"
proof -
  show "exbig_ok mod_pieno" "exbig_ok quasi_pieno" by (auto simp: exbig_ok_def mod_pieno_def quasi_pieno_def)
  show p: "valore mod_pieno + 1 = EX_TETTO"
    using val_uni [of EXBIG_PAROLE] by (simp only: valore_def mod_pieno_def exbig.select_convs EX_TETTO_def) simp
  have "replicate EXBIG_PAROLE (0xFFFFFFFF :: u32) = 0xFFFFFFFF # replicate 127 0xFFFFFFFF" by (simp add: numeral_eq_Suc)
  then have "valore mod_pieno = valore quasi_pieno + 1" by (simp add: valore_def mod_pieno_def quasi_pieno_def)
  then show "valore quasi_pieno + 2 = EX_TETTO" using p by simp
qed

theorem exbig_mod_add_carry_witness:
  "EX_TETTO \<le> valore quasi_pieno + valore quasi_pieno
   \<and> (\<exists>c. exbig_mod_prepara mod_pieno = Some c
        \<and> valore (exbig_mod_add quasi_pieno quasi_pieno c) \<noteq> (valore quasi_pieno + valore quasi_pieno) mod valore mod_pieno)"
proof -
  have "(2 :: nat) ^ 2 \<le> EX_TETTO" unfolding EX_TETTO_def by (rule power_increasing) simp_all
  then have t: "EX_TETTO \<le> valore quasi_pieno + valore quasi_pieno" using pieni(4) by simp
  have "even EX_TETTO" by (simp add: EX_TETTO_def)
  then have "odd (valore mod_pieno)" using pieni(3) by (metis even_Suc Suc_eq_plus1)
  then show ?thesis
    using exbig_mod_add_carry [OF pieni(2,2,1)] pieni(3,4) t by fastforce
qed

end
