(* ===== verification/Exbig_Byte.thy ===== *)
theory Exbig_Byte
  imports Exbig_Props
begin

text \<open>
  Numbers from and to bytes in network order (\<^verbatim>\<open>exbig_da_byte\<close>, \<^verbatim>\<open>exbig_a_byte\<close>): the proofs compare bit by bit.
\<close>

section \<open>The value of bytes\<close>

definition rete :: "u8 list \<Rightarrow> nat" where
  "rete b = foldl (\<lambda>v x. 256 * v + unat x) 0 b"

lemma rete_snoc: "rete (b @ [x]) = 256 * rete b + unat x"
  by (simp add: rete_def)

lemma rete_snoc_or: "rete (b @ [x]) = push_bit 8 (rete b) OR unat x"
proof -
  have "push_bit 8 (rete b) AND unat x = 0"
    by (rule bit_eqI) (auto simp: bit_simps bit_unsigned_iff dest: bit_imp_le_length)
  then have "push_bit 8 (rete b) + unat x = push_bit 8 (rete b) OR unat x" by (rule disjunctive_add_eq_or)
  then show ?thesis by (simp add: rete_snoc push_bit_eq_mult mult.commute)
qed

lemma bit_rete: "bit (rete b) j \<longleftrightarrow> j div 8 < length b \<and> bit (b ! (length b - 1 - j div 8)) (j mod 8)"
proof (induction b arbitrary: j rule: rev_induct)
  case (snoc x b)
  show ?case
  proof (cases "j < 8")
    case True
    then show ?thesis unfolding rete_snoc_or by (simp add: bit_simps nth_append)
  next
    case False
    then have d: "j div 8 = Suc ((j - 8) div 8)" "(j - 8) mod 8 = j mod 8" by (simp_all add: le_div_geq le_mod_geq)
    moreover have "\<not> bit x j" using False by (auto dest: bit_imp_le_length)
    moreover have "length b - Suc ((j - 8) div 8) < length b" if "(j - 8) div 8 < length b" using that by simp
    ultimately show ?thesis
      using False snoc [of "j - 8"] unfolding rete_snoc_or by (auto simp: bit_simps nth_append)
  qed
qed (simp add: rete_def)

lemma rete_less: "rete b < 256 ^ length b"
proof (induction b rule: rev_induct)
  case (snoc x b)
  have "unat x < 256" using unsigned_less [of x] by simp
  with snoc show ?case by (simp add: rete_snoc)
qed (simp add: rete_def)

lemma rete_zeri: "rete (dropWhile (\<lambda>x. x = 0) b) = rete b"
  by (induction b) (simp_all add: rete_def)

lemma rete_inj: "length b = length c \<Longrightarrow> rete b = rete c \<Longrightarrow> b = c"
proof (induction b arbitrary: c rule: rev_induct)
  case (snoc x b)
  then obtain y d where c: "c = d @ [y]" "length d = length b" by (cases c rule: rev_cases) auto
  have "unat x < 256" "unat y < 256" using unsigned_less [of x] unsigned_less [of y] by simp_all
  moreover have e: "256 * rete b + unat x = 256 * rete d + unat y" using snoc(3) unfolding c rete_snoc .
  ultimately have "rete b = rete d" using arg_cong [OF e, of "\<lambda>v. v div 256"] by simp
  with e have "unat x = unat y" by simp
  with \<open>rete b = rete d\<close> show ?case using snoc(1) [of d] c by (simp add: word_unat_eq_iff)
qed simp

section \<open>From bytes\<close>

lemma byte_spostato:
  fixes x :: u8
  assumes "u < 4" "s < 8" "v < 4"
  shows "bit (push_bit (v * 8) (ucast x) :: u32) (8 * u + s) \<longleftrightarrow> u = v \<and> bit x s"
proof -
  consider "u < v" | "u = v" | "v < u" by linarith
  then show ?thesis
  proof cases
    case 1
    then have "\<not> v * 8 \<le> 8 * u + s" using assms by linarith
    then show ?thesis using 1 by (simp add: bit_simps)
  next
    case 2
    then show ?thesis using assms by (simp add: bit_simps)
  next
    case 3
    then have "8 \<le> 8 * u + s - v * 8" using assms by linarith
    then have "\<not> bit x (8 * u + s - v * 8)" by (auto dest: bit_imp_le_length)
    then show ?thesis using 3 by (simp add: bit_simps)
  qed
qed

lemma length_metti_fold: "length (fold (metti_byte b) is p) = length p"
  by (induction "is" arbitrary: p) (simp_all add: metti_byte_def Let_def)

lemma metti_byte_fold:
  assumes "length b \<le> EXBIG_PAROLE * 4" "i \<le> length b" "k < EXBIG_PAROLE" "u < 4" "s < 8"
  shows "bit (fold (metti_byte b) [0..<i] (replicate EXBIG_PAROLE 0) ! k) (8 * u + s)
      \<longleftrightarrow> length b - i \<le> 4 * k + u \<and> 4 * k + u < length b \<and> bit (b ! (length b - 1 - (4 * k + u))) s"
  using assms(2)
proof (induction i)
  case (Suc i)
  let ?p = "fold (metti_byte b) [0..<i] (replicate EXBIG_PAROLE 0)"
  define pos where "pos = length b - 1 - i"
  have f: "fold (metti_byte b) [0..<Suc i] (replicate EXBIG_PAROLE 0) = metti_byte b i ?p" by simp
  have l: "length ?p = EXBIG_PAROLE" by (simp add: length_metti_fold)
  have pos: "pos div 4 < EXBIG_PAROLE" "pos mod 4 < 4" "pos = 4 * (pos div 4) + pos mod 4"
    using assms(1) Suc(2) by (simp_all add: pos_def)
  have IH: "bit (?p ! k) (8 * u + s)
      \<longleftrightarrow> length b - i \<le> 4 * k + u \<and> 4 * k + u < length b \<and> bit (b ! (length b - 1 - (4 * k + u))) s"
    using Suc by simp
  have m: "metti_byte b i ?p = ?p[pos div 4 := ?p ! (pos div 4) OR push_bit (pos mod 4 * 8) (ucast (b ! i))]"
    unfolding metti_byte_def Let_def pos_def ..
  have new: "bit (metti_byte b i ?p ! k) (8 * u + s) \<longleftrightarrow> bit (?p ! k) (8 * u + s) \<or> 4 * k + u = pos \<and> bit (b ! i) s"
  proof (cases "k = pos div 4")
    case True
    have "4 * k + u = pos \<longleftrightarrow> u = pos mod 4" using pos(3) unfolding True by linarith
    then show ?thesis
      using True l pos(1) byte_spostato [OF assms(4,5) pos(2), of "b ! i"]
      by (simp add: m bit_or_iff)
  next
    case False
    have "(4 * k + u) div 4 = k" using assms(4) by simp
    then have "4 * k + u \<noteq> pos" using False by auto
    then show ?thesis using False by (simp add: m)
  qed
  have "length b - 1 - pos = i" "length b - Suc i = pos" "length b - i = Suc pos" "pos < length b"
    using Suc(2) by (simp_all add: pos_def)
  then show ?case unfolding f new IH by (auto simp: Suc_le_eq less_le)
qed (use assms(3) in auto)

lemma exbig_da_byte_spec:
  "exbig_da_byte b = None \<longleftrightarrow> EXBIG_PAROLE * 4 < length (dropWhile (\<lambda>x. x = 0) b)"
  "exbig_da_byte b = Some r \<Longrightarrow> exbig_ok r \<and> valore r = rete b"
proof -
  let ?b = "dropWhile (\<lambda>x. x = 0) b"
  define p where "p = fold (metti_byte ?b) [0..<length ?b] (replicate EXBIG_PAROLE 0)"
  define n where "n = (length ?b + 3) div 4"
  have d: "exbig_da_byte b = (if length ?b > EXBIG_PAROLE * 4 then None else Some (normalizza \<lparr>ex_n = n, ex_p = p\<rparr>))"
    unfolding exbig_da_byte_def Let_def p_def n_def exbig_zero_def by simp
  then show "exbig_da_byte b = None \<longleftrightarrow> EXBIG_PAROLE * 4 < length ?b" by simp
  assume "exbig_da_byte b = Some r"
  then have r: "r = normalizza \<lparr>ex_n = n, ex_p = p\<rparr>" and len: "length ?b \<le> EXBIG_PAROLE * 4"
    using d by (auto split: if_splits)
  have l: "length p = EXBIG_PAROLE" by (simp add: p_def length_metti_fold)
  have bits: "bit (p ! k) (8 * u + s) \<longleftrightarrow> 4 * k + u < length ?b \<and> bit (?b ! (length ?b - 1 - (4 * k + u))) s"
    if "k < EXBIG_PAROLE" "u < 4" "s < 8" for k u s
    using metti_byte_fold [OF len order_refl that] by (simp add: p_def)
  have ott: "j = 8 * (j div 8) + j mod 8" for j :: nat by simp
  have z: "p ! k = 0" if "n \<le> k" "k < EXBIG_PAROLE" for k
  proof (rule bit_word_eqI)
    fix t assume "t < LENGTH(32)"
    then have "t div 8 < 4" "t mod 8 < 8" by simp_all
    moreover have "\<not> 4 * k + t div 8 < length ?b" using that(1) by (simp add: n_def)
    ultimately show "bit (p ! k) t = bit 0 t" using bits [OF that(2), of "t div 8" "t mod 8"] ott [of t] by simp
  qed
  have "n \<le> EXBIG_PAROLE" using len by (simp add: n_def)
  from normalizza_ok [OF l this z] have ok: "exbig_ok r" "valore r = val p" unfolding r by auto
  have "val p = rete ?b"
  proof (rule bit_eqI)
    fix j :: nat
    have q: "j mod 32 div 8 < 4" "j mod 32 mod 8 = j mod 8" "4 * (j div 32) + j mod 32 div 8 = j div 8"
    proof -
      show "j mod 32 div 8 < 4" by simp
      show "j mod 32 mod 8 = j mod 8" by (rule mod_mod_cancel) simp
      have "j div 32 = j div 8 div 4" "j mod 32 div 8 = j div 8 mod 4"
        using div_mult2_eq [of j 8 4] mod_mult2_eq [of j 8 4] by simp_all
      then show "4 * (j div 32) + j mod 32 div 8 = j div 8" by simp
    qed
    show "bit (val p) j = bit (rete ?b) j"
    proof (cases "j div 32 < EXBIG_PAROLE")
      case True
      have "bit (p ! (j div 32)) (j mod 32)
          \<longleftrightarrow> j div 8 < length ?b \<and> bit (?b ! (length ?b - 1 - j div 8)) (j mod 8)"
        using bits [OF True q(1), of "j mod 8"] ott [of "j mod 32"] unfolding q by simp
      then show ?thesis using True l by (simp add: bit_val bit_rete)
    next
      case False
      then have "\<not> j div 8 < length ?b" using len q(3) by linarith
      then show ?thesis using False l by (simp add: bit_val bit_rete)
    qed
  qed
  then show "exbig_ok r \<and> valore r = rete b" using ok rete_zeri by simp
qed

section \<open>To bytes\<close>

lemma exbig_a_byte_spec:
  assumes "exbig_ok a"
  shows "exbig_a_byte a len = None \<longleftrightarrow> 256 ^ len \<le> valore a"
    "exbig_a_byte a len = Some b \<Longrightarrow> length b = len \<and> rete b = valore a"
proof -
  have fits: "(exbig_bit a + 7) div 8 > len \<longleftrightarrow> 256 ^ len \<le> valore a"
  proof -
    have p: "(256 :: nat) ^ len = 2 ^ (8 * len)" by (simp add: power_mult)
    have "(exbig_bit a + 7) div 8 > len \<longleftrightarrow> 8 * len < exbig_bit a" by linarith
    also have "\<dots> \<longleftrightarrow> 2 ^ (8 * len) \<le> valore a"
    proof
      assume l: "8 * len < exbig_bit a"
      then have "valore a \<noteq> 0" using valore_zero [OF assms] by (auto simp: exbig_bit_def)
      then have "2 ^ (exbig_bit a - 1) \<le> valore a" using exbig_bit_spec(2) [OF assms] by blast
      moreover have "(2 :: nat) ^ (8 * len) \<le> 2 ^ (exbig_bit a - 1)" using l by (intro power_increasing) simp_all
      ultimately show "2 ^ (8 * len) \<le> valore a" by (rule order_trans [rotated])
    next
      assume "2 ^ (8 * len) \<le> valore a"
      then have "(2 :: nat) ^ (8 * len) < 2 ^ exbig_bit a" using exbig_bit_spec(1) [OF assms] by (rule le_less_trans)
      then show "8 * len < exbig_bit a" by simp
    qed
    finally show ?thesis unfolding p .
  qed
  then show "exbig_a_byte a len = None \<longleftrightarrow> 256 ^ len \<le> valore a" by (simp add: exbig_a_byte_def)
  assume "exbig_a_byte a len = Some b"
  then have b: "b = map (\<lambda>i. let pos = len - 1 - i in
      if pos div 4 < ex_n a then ucast (drop_bit (pos mod 4 * 8) (ex_p a ! (pos div 4))) else 0) [0..<len]"
    and small: "valore a < 256 ^ len"
    using fits by (auto simp: exbig_a_byte_def not_le split: if_splits)
  have "rete b = valore a"
  proof (rule bit_eqI)
    fix j :: nat
    have q: "j div 8 mod 4 * 8 + j mod 8 = j mod 32" "j div 8 div 4 = j div 32"
    proof -
      show "j div 8 div 4 = j div 32" using div_mult2_eq [of j 8 4] by simp
      show "j div 8 mod 4 * 8 + j mod 8 = j mod 32" using mod_mult2_eq [of j 8 4] by simp
    qed
    show "bit (rete b) j = bit (valore a) j"
    proof (cases "j div 8 < len")
      case True
      have "b ! (len - 1 - j div 8) = (if j div 8 div 4 < ex_n a
          then ucast (drop_bit (j div 8 mod 4 * 8) (ex_p a ! (j div 8 div 4))) else 0)"
        using True by (simp add: b Let_def)
      then have "bit (b ! (len - 1 - j div 8)) (j mod 8) \<longleftrightarrow> j div 32 < ex_n a \<and> bit (ex_p a ! (j div 32)) (j mod 32)"
        unfolding q(2) by (simp add: bit_simps q(1))
      moreover have "bit (rete b) j \<longleftrightarrow> bit (b ! (len - 1 - j div 8)) (j mod 8)" using True by (simp add: bit_rete b)
      ultimately show ?thesis using exbig_okD(1,2) [OF assms] by (auto simp: valore_def bit_val)
    next
      case False
      then have "8 * len \<le> j" by linarith
      moreover have "take_bit (8 * len) (valore a) = valore a" using small by (simp add: take_bit_nat_eq_self power_mult)
      ultimately have "\<not> bit (valore a) j" by (metis bit_take_bit_iff not_le)
      then show ?thesis using False by (simp add: bit_rete b)
    qed
  qed
  then show "length b = len \<and> rete b = valore a" by (simp add: b)
qed

section \<open>Property\<close>

text \<open>C38. Bytes read and written again are the same bytes: any string of bytes with at most 512 significant ones is read, as
  its value in network order, and written back to the same length unchanged; writing refuses exactly a length that is too
  short for the value, instead of cutting it.\<close>

theorem exbig_byte_roundtrip:
  assumes "length (dropWhile (\<lambda>x. x = 0) b) \<le> 4 * EXBIG_PAROLE"
  shows "\<exists>r. exbig_da_byte b = Some r \<and> exbig_ok r \<and> valore r = rete b \<and> exbig_a_byte r (length b) = Some b
    \<and> (\<forall>len. exbig_a_byte r len = None \<longleftrightarrow> 256 ^ len \<le> rete b)"
proof -
  have "exbig_da_byte b \<noteq> None" using assms unfolding exbig_da_byte_spec(1) by simp
  then obtain r where r: "exbig_da_byte b = Some r" by blast
  note v = exbig_da_byte_spec(2) [OF r]
  then have none: "exbig_a_byte r len = None \<longleftrightarrow> 256 ^ len \<le> rete b" for len using exbig_a_byte_spec(1) by simp
  then have "exbig_a_byte r (length b) \<noteq> None" using rete_less [of b] by (simp add: not_le)
  then obtain c where c: "exbig_a_byte r (length b) = Some c" by blast
  have "c = b" using exbig_a_byte_spec(2) [OF _ c] v by (intro rete_inj) simp_all
  with r v c none show ?thesis by blast
qed

theorem exbig_byte_roundtrip_witness:
  "length (dropWhile (\<lambda>x. x = 0) [0, 1, 2 :: u8]) \<le> 4 * EXBIG_PAROLE
   \<and> (\<exists>r. exbig_da_byte [0, 1, 2] = Some r \<and> valore r = 258 \<and> exbig_a_byte r 3 = Some [0, 1, 2] \<and> exbig_a_byte r 1 = None)"
proof -
  have "rete [0, 1, 2] = 258" by (simp add: rete_def)
  then show ?thesis using exbig_byte_roundtrip [of "[0, 1, 2]"] by (auto simp: numeral_3_eq_3)
qed

end
