(* ===== verification/Lz4.thy ===== *)
theory Lz4
  imports Bytes
begin

text \<open>
  The LZ4 block of the compressed base system (\<^verbatim>\<open>lz4_blocco\<close> of \<^verbatim>\<open>kernel/boot/rdlz4.c\<close>). Every byte is read and
  written through an access that is checked against the two buffers, and an access outside them is a result of its own, so that its
  absence can be stated; the format is a list of sequences, against which the decoder is exact.
\<close>

section \<open>The decoder\<close>

text \<open>\<open>Rotto\<close> is the result \<^verbatim>\<open>-1\<close>, \<open>Scritti\<close> the bytes written, \<open>Fuori_buffer\<close> an access the source does not mean to make. The
  pointer \<^verbatim>\<open>ip\<close> is its distance from \<^verbatim>\<open>src\<close>, \<^verbatim>\<open>ie\<close> is \<open>length src\<close>; \<open>op\<close> are the bytes from \<^verbatim>\<open>dst\<close> to the pointer \<^verbatim>\<open>op\<close>, and \<^verbatim>\<open>oe\<close> is \<open>cap\<close>.
  No guard is built into an access: where the source does not test, the access itself goes wrong.\<close>

datatype lz4_esito = Scritti "u8 list" | Rotto | Fuori_buffer

definition lz4_leggi :: "u8 list \<Rightarrow> nat \<Rightarrow> lz4_esito + u8" where
  "lz4_leggi src ip = (if ip < length src then Inr (src ! ip) else Inl Fuori_buffer)"

definition lz4_scrivi :: "nat \<Rightarrow> u8 \<Rightarrow> u8 list \<Rightarrow> lz4_esito + u8 list" where
  "lz4_scrivi cap b op = (if length op < cap then Inr (op @ [b]) else Inl Fuori_buffer)"

text \<open>The loop that reads the rest of a length. The counter is 32 bits wide.\<close>

function lz4_estendi :: "u8 list \<Rightarrow> nat \<Rightarrow> nat \<Rightarrow> lz4_esito + (nat \<times> nat)" where
  "lz4_estendi src l ip =
     (if ip \<ge> length src then Inl Rotto
      else
        (case lz4_leggi src ip of
           Inl e \<Rightarrow> Inl e
         | Inr b \<Rightarrow>
             if b = 255 then lz4_estendi src ((l + unat b) mod 2 ^ 32) (ip + 1)
             else Inr ((l + unat b) mod 2 ^ 32, ip + 1)))"
  by pat_completeness auto
termination by (relation "measure (\<lambda>(src, l, ip). length src - ip)") (auto simp: lz4_leggi_def split: if_splits)

declare lz4_estendi.simps [simp del]

definition lz4_lunghezza :: "u8 list \<Rightarrow> nat \<Rightarrow> nat \<Rightarrow> lz4_esito + (nat \<times> nat)" where
  "lz4_lunghezza src l ip = (if l = 15 then lz4_estendi src 15 ip else Inr (l, ip))"

text \<open>The copy of the literals, and of a match, byte by byte: the second may read bytes it has just written.\<close>

primrec lz4_lit :: "u8 list \<Rightarrow> nat \<Rightarrow> nat \<Rightarrow> nat \<Rightarrow> u8 list \<Rightarrow> lz4_esito + (nat \<times> u8 list)" where
  "lz4_lit src cap 0 ip op = Inr (ip, op)"
| "lz4_lit src cap (Suc lit) ip op =
     (case lz4_leggi src ip of
        Inl e \<Rightarrow> Inl e
      | Inr b \<Rightarrow> (case lz4_scrivi cap b op of Inl e \<Rightarrow> Inl e | Inr op \<Rightarrow> lz4_lit src cap lit (ip + 1) op))"

primrec lz4_copia :: "nat \<Rightarrow> nat \<Rightarrow> nat \<Rightarrow> u8 list \<Rightarrow> u8 list option" where
  "lz4_copia cap off 0 op = Some op"
| "lz4_copia cap off (Suc len) op =
     (if length op < cap \<and> 0 < off \<and> off \<le> length op then lz4_copia cap off len (op @ [op ! (length op - off)]) else None)"

text \<open>The two halves of a sequence, from the test of the lengths on: the loop ends with a result or goes on with the new
  pointers.\<close>

definition lz4_letterali :: "u8 list \<Rightarrow> nat \<Rightarrow> nat \<Rightarrow> nat \<Rightarrow> u8 list \<Rightarrow> lz4_esito + (nat \<times> u8 list)" where
  "lz4_letterali src cap lit ip op =
     (if length src - ip < lit \<or> cap - length op < lit then Inl Rotto else lz4_lit src cap lit ip op)"

definition lz4_match :: "u8 list \<Rightarrow> nat \<Rightarrow> nat \<Rightarrow> nat \<Rightarrow> u8 list \<Rightarrow> lz4_esito + (nat \<times> u8 list)" where
  "lz4_match src cap nibble ip op =
     (if length src - ip < 2 then Inl Rotto
      else
        (case (lz4_leggi src ip, lz4_leggi src (ip + 1)) of
           (Inr a, Inr b) \<Rightarrow>
             (let off = unat a + 256 * unat b in
              if off = 0 \<or> off > length op then Inl Rotto
              else
                (case lz4_lunghezza src nibble (ip + 2) of
                   Inl e \<Rightarrow> Inl e
                 | Inr (l, ip) \<Rightarrow>
                     (let len = (l + 4) mod 2 ^ 32 in
                      if cap - length op < len then Inl Rotto
                      else (case lz4_copia cap off len op of None \<Rightarrow> Inl Fuori_buffer | Some op \<Rightarrow> Inr (ip, op)))))
         | _ \<Rightarrow> Inl Fuori_buffer))"

lemma lz4_leggi_Inr: "lz4_leggi src ip = Inr b \<longleftrightarrow> ip < length src \<and> b = src ! ip"
  by (auto simp: lz4_leggi_def)

lemma lz4_estendi_dopo: "lz4_estendi src l ip = Inr (l', ip') \<Longrightarrow> ip < ip'"
proof (induction src l ip rule: lz4_estendi.induct)
  case (1 src l ip)
  then show ?case by (subst (asm) lz4_estendi.simps) (fastforce split: if_splits sum.splits)
qed

lemma lz4_lunghezza_dopo: "lz4_lunghezza src l ip = Inr (l', ip') \<Longrightarrow> ip \<le> ip'"
  using lz4_estendi_dopo [of src 15 ip l' ip'] by (auto simp: lz4_lunghezza_def split: if_splits)

lemma lz4_lit_dopo: "lz4_lit src cap lit ip op = Inr (ip', op') \<Longrightarrow> ip \<le> ip'"
  by (induction lit arbitrary: ip op) (fastforce split: sum.splits)+

lemma lz4_letterali_dopo: "lz4_letterali src cap lit ip op = Inr (ip', op') \<Longrightarrow> ip \<le> ip'"
  by (auto simp: lz4_letterali_def lz4_lit_dopo split: if_splits)

lemma lz4_match_dopo: "lz4_match src cap l ip op = Inr (ip', op') \<Longrightarrow> ip < ip'"
  using lz4_lunghezza_dopo [of src l "ip + 2"]
  by (fastforce simp: lz4_match_def Let_def split: if_splits sum.splits option.splits)

function lz4_da :: "u8 list \<Rightarrow> nat \<Rightarrow> nat \<Rightarrow> u8 list \<Rightarrow> lz4_esito" where
  "lz4_da src cap ip op =
     (if ip \<ge> length src then Rotto
      else
        (case lz4_leggi src ip of
           Inl e \<Rightarrow> e
         | Inr tok \<Rightarrow>
             (case lz4_lunghezza src (unat tok div 16) (ip + 1) of
                Inl e \<Rightarrow> e
              | Inr (lit, ip1) \<Rightarrow>
                  (case lz4_letterali src cap lit ip1 op of
                     Inl e \<Rightarrow> e
                   | Inr (ip2, op2) \<Rightarrow>
                       if ip2 = length src then Scritti op2
                       else
                         (case lz4_match src cap (unat tok mod 16) ip2 op2 of
                            Inl e \<Rightarrow> e
                          | Inr (ip3, op3) \<Rightarrow> lz4_da src cap ip3 op3)))))"
  by pat_completeness auto
termination
proof (relation "measure (\<lambda>(src, cap, ip, op). length src - ip)")
  fix src op :: "u8 list" and cap ip :: nat and tok x lit ip1 y ip2 op2 z ip3 op3
  assume "lz4_leggi src ip = Inr tok" "lz4_lunghezza src (unat tok div 16) (ip + 1) = Inr x" "(lit, ip1) = x"
    "lz4_letterali src cap lit ip1 op = Inr y" "(ip2, op2) = y"
    "lz4_match src cap (unat tok mod 16) ip2 op2 = Inr z" "(ip3, op3) = z"
  then show "((src, cap, ip3, op3), src, cap, ip, op) \<in> measure (\<lambda>(src, cap, ip, op). length src - ip)"
    using lz4_lunghezza_dopo [of src _ "ip + 1" lit ip1] lz4_letterali_dopo [of src cap lit ip1 op ip2 op2]
      lz4_match_dopo [of src cap _ ip2 op2 ip3 op3]
    by (fastforce simp: lz4_leggi_Inr)
qed simp

declare lz4_da.simps [simp del]

definition lz4_blocco :: "u8 list \<Rightarrow> nat \<Rightarrow> lz4_esito" where
  "lz4_blocco src cap = lz4_da src cap 0 []"

section \<open>The decoder without addresses\<close>

text \<open>The same decoder on what is left of the block as a list, without addresses: what the format is compared with.\<close>

fun lista_estendi :: "nat \<Rightarrow> u8 list \<Rightarrow> (nat \<times> u8 list) option" where
  "lista_estendi l [] = None"
| "lista_estendi l (b # ip) = (if b = 255 then lista_estendi ((l + 255) mod 2 ^ 32) ip else Some ((l + unat b) mod 2 ^ 32, ip))"

definition lista_lunghezza :: "nat \<Rightarrow> u8 list \<Rightarrow> (nat \<times> u8 list) option" where
  "lista_lunghezza l ip = (if l = 15 then lista_estendi 15 ip else Some (l, ip))"

definition lista_letterali :: "nat \<Rightarrow> nat \<Rightarrow> u8 list \<Rightarrow> u8 list \<Rightarrow> lz4_esito + (u8 list \<times> u8 list)" where
  "lista_letterali cap lit ip op =
     (if length ip < lit \<or> cap - length op < lit then Inl Rotto else Inr (drop lit ip, op @ take lit ip))"

definition lista_match :: "nat \<Rightarrow> nat \<Rightarrow> u8 list \<Rightarrow> u8 list \<Rightarrow> lz4_esito + (u8 list \<times> u8 list)" where
  "lista_match cap nibble ip op =
     (if length ip < 2 then Inl Rotto
      else
        (let off = unat (ip ! 0) + 256 * unat (ip ! 1) in
         if off = 0 \<or> off > length op then Inl Rotto
         else
           (case lista_lunghezza nibble (drop 2 ip) of
              None \<Rightarrow> Inl Rotto
            | Some (l, ip) \<Rightarrow>
                (let len = (l + 4) mod 2 ^ 32 in
                 if cap - length op < len then Inl Rotto
                 else (case lz4_copia cap off len op of None \<Rightarrow> Inl Fuori_buffer | Some op \<Rightarrow> Inr (ip, op))))))"

lemma lista_estendi_shorter: "lista_estendi l ip = Some (l', ip') \<Longrightarrow> length ip' < length ip"
  by (induction l ip rule: lista_estendi.induct) (auto split: if_splits)

lemma lista_lunghezza_le: "lista_lunghezza l ip = Some (l', ip') \<Longrightarrow> length ip' \<le> length ip"
  using lista_estendi_shorter [of 15 ip l' ip'] by (auto simp: lista_lunghezza_def split: if_splits)

lemma lista_letterali_le: "lista_letterali cap lit ip op = Inr (ip', op') \<Longrightarrow> length ip' \<le> length ip"
  by (auto simp: lista_letterali_def split: if_splits)

lemma lista_match_shorter: "lista_match cap l ip op = Inr (ip', op') \<Longrightarrow> length ip' < length ip"
  using lista_lunghezza_le [of l "drop 2 ip"]
  by (fastforce simp: lista_match_def Let_def split: if_splits option.splits)

function lista_da :: "nat \<Rightarrow> u8 list \<Rightarrow> u8 list \<Rightarrow> lz4_esito" where
  "lista_da cap [] op = Rotto"
| "lista_da cap (tok # ip) op =
     (case lista_lunghezza (unat tok div 16) ip of
        None \<Rightarrow> Rotto
      | Some (lit, ip1) \<Rightarrow>
          (case lista_letterali cap lit ip1 op of
             Inl e \<Rightarrow> e
           | Inr (ip2, op2) \<Rightarrow>
               if ip2 = [] then Scritti op2
               else (case lista_match cap (unat tok mod 16) ip2 op2 of Inl e \<Rightarrow> e | Inr (ip3, op3) \<Rightarrow> lista_da cap ip3 op3)))"
  by pat_completeness auto
termination
proof (relation "measure (\<lambda>(cap, ip, op). length ip)")
  fix cap :: nat and tok :: u8 and ip op :: "u8 list" and x lit ip1 y ip2 op2 z ip3 op3
  assume "lista_lunghezza (unat tok div 16) ip = Some x" "(lit, ip1) = x"
    "lista_letterali cap lit ip1 op = Inr y" "(ip2, op2) = y" "ip2 \<noteq> []"
    "lista_match cap (unat tok mod 16) ip2 op2 = Inr z" "(ip3, op3) = z"
  then show "((cap, ip3, op3), cap, tok # ip, op) \<in> measure (\<lambda>(cap, ip, op). length ip)"
    using lista_lunghezza_le [of _ ip lit ip1] lista_letterali_le [of cap lit ip1 op ip2 op2] lista_match_shorter [of cap _ ip2 op2 ip3 op3]
    by fastforce
qed simp

declare lista_da.simps [simp del]

section \<open>The format\<close>

text \<open>A block is a list of sequences, each with literals, then an offset back and the length of the match, and a last one with
  literals only, whose lower nibble means nothing.\<close>

datatype lz4_seq = Seq "u8 list" nat nat

definition enc_lung :: "nat \<Rightarrow> u8 list" where
  "enc_lung l = (if l < 15 then [] else replicate ((l - 15) div 255) 255 @ [word_of_nat ((l - 15) mod 255)])"

definition enc_token :: "nat \<Rightarrow> nat \<Rightarrow> u8" where
  "enc_token a b = word_of_nat (16 * min 15 a + b)"

fun enc_seq :: "lz4_seq \<Rightarrow> u8 list" where
  "enc_seq (Seq l off n) =
     enc_token (length l) (min 15 (n - 4)) # enc_lung (length l) @ l @ [word_of_nat (off mod 256), word_of_nat (off div 256)] @ enc_lung (n - 4)"

definition codifica :: "lz4_seq list \<Rightarrow> nat \<Rightarrow> u8 list \<Rightarrow> u8 list" where
  "codifica ss x ult = concat (map enc_seq ss) @ enc_token (length ult) x # enc_lung (length ult) @ ult"

text \<open>A match repeats the last \<open>off\<close> bytes.\<close>

definition ripeti :: "nat \<Rightarrow> nat \<Rightarrow> u8 list \<Rightarrow> u8 list" where
  "ripeti off n op = op @ map (\<lambda>i. drop (length op - off) op ! (i mod off)) [0..<n]"

fun espandi :: "lz4_seq \<Rightarrow> u8 list \<Rightarrow> u8 list" where
  "espandi (Seq l off n) op = ripeti off n (op @ l)"

fun seqs_ok :: "u8 list \<Rightarrow> lz4_seq list \<Rightarrow> bool" where
  "seqs_ok op [] = True"
| "seqs_ok op (Seq l off n # ss) \<longleftrightarrow>
     0 < off \<and> off < 65536 \<and> off \<le> length (op @ l) \<and> 4 \<le> n \<and> seqs_ok (espandi (Seq l off n) op) ss"

section \<open>Lengths\<close>

lemma byte_nat: "n < 256 \<Longrightarrow> unat (word_of_nat n :: u8) = n"
  by (simp add: unsigned_of_nat take_bit_nat_eq_self)

lemma u8_less: "unat (b :: u8) < 256"
  using unsigned_less [of b] by simp

lemma u8_255: "(b :: u8) = 255 \<longleftrightarrow> unat b = 255"
  by (simp add: word_unat_eq_iff)

lemma enc_lung_step: "255 + 15 \<le> l \<Longrightarrow> enc_lung l = 255 # enc_lung (l - 255)"
proof -
  assume l: "255 + 15 \<le> l"
  then have "l - 15 = (l - 255 - 15) + 255" by simp
  then have "(l - 15) div 255 = Suc ((l - 255 - 15) div 255)" "(l - 15) mod 255 = (l - 255 - 15) mod 255"
    by (metis div_add_self2 Suc_eq_plus1 zero_neq_numeral, metis mod_add_self2)
  then show ?thesis using l by (simp add: enc_lung_def)
qed

lemma lista_estendi_enc:
  assumes "l0 + m < 2 ^ 32"
  shows "lista_estendi l0 (enc_lung (15 + m) @ r) = Some (l0 + m, r)"
  using assms
proof (induction m arbitrary: l0 rule: less_induct)
  case (less m)
  show ?case
  proof (cases "m < 255")
    case True
    then have "unat (word_of_nat m :: u8) = m" by (simp add: byte_nat)
    moreover from this have "(word_of_nat m :: u8) \<noteq> 255" using True by (simp add: u8_255)
    ultimately show ?thesis using True less(2) by (simp add: enc_lung_def)
  next
    case False
    then have "enc_lung (15 + m) = 255 # enc_lung (15 + (m - 255))" by (subst enc_lung_step) simp_all
    then show ?thesis using False less(2) less(1) [of "m - 255" "l0 + 255"] by simp
  qed
qed

lemma lista_estendi_dec:
  assumes "lista_estendi l0 ip = Some (l, r)" "l0 + 255 * length ip < 2 ^ 32"
  shows "\<exists>m. l = l0 + m \<and> ip = enc_lung (15 + m) @ r"
  using assms
proof (induction l0 ip rule: lista_estendi.induct)
  case (2 l0 b ip)
  show ?case
  proof (cases "b = 255")
    case True
    then obtain m where "l = l0 + 255 + m" "ip = enc_lung (15 + m) @ r" using 2 by auto
    moreover have "enc_lung (15 + (255 + m)) = 255 # enc_lung (15 + m)" by (subst enc_lung_step) simp_all
    ultimately show ?thesis using True by (intro exI [of _ "255 + m"]) simp
  next
    case False
    then have "unat b < 255" using u8_less [of b] by (simp add: u8_255)
    moreover have "l = l0 + unat b" "ip = r" using 2 False \<open>unat b < 255\<close> by auto
    ultimately show ?thesis by (intro exI [of _ "unat b"]) (simp add: enc_lung_def)
  qed
qed simp

lemma lista_lunghezza_exact:
  assumes "v \<le> 15" "15 + 255 * length ip < 2 ^ 32"
  shows "lista_lunghezza v ip = Some (l, r) \<longleftrightarrow> v = min 15 l \<and> ip = enc_lung l @ r"
proof
  assume "lista_lunghezza v ip = Some (l, r)"
  then show "v = min 15 l \<and> ip = enc_lung l @ r"
    using lista_estendi_dec [of 15 ip l r] assms by (auto simp: lista_lunghezza_def enc_lung_def split: if_splits)
next
  assume a: "v = min 15 l \<and> ip = enc_lung l @ r"
  show "lista_lunghezza v ip = Some (l, r)"
  proof (cases "l < 15")
    case True
    then show ?thesis using a by (simp add: lista_lunghezza_def enc_lung_def)
  next
    case False
    have "l - 15 \<le> 255 * length (enc_lung l)" using False by (simp add: enc_lung_def)
    then have "15 + (l - 15) < 2 ^ 32" using assms(2) a by simp
    then show ?thesis using lista_estendi_enc [of 15 "l - 15" r] a False by (simp add: lista_lunghezza_def)
  qed
qed

section \<open>Copies\<close>

lemma length_ripeti [simp]: "length (ripeti off n op) = length op + n"
  by (simp add: ripeti_def)

lemma ripeti_Suc:
  assumes "0 < off" "off \<le> length op"
  shows "ripeti off (Suc n) op = ripeti off n (op @ [op ! (length op - off)])"
proof -
  let ?D = "drop (length op - off) op"
  have l: "length ?D = off" "?D \<noteq> []" using assms by auto
  have d: "drop (length (op @ [op ! (length op - off)]) - off) (op @ [op ! (length op - off)]) = rotate1 ?D"
  proof -
    have "?D = op ! (length op - off) # drop (Suc (length op - off)) op" using assms by (simp add: Cons_nth_drop_Suc)
    moreover have "length (op @ [op ! (length op - off)]) - off = Suc (length op - off)" using assms by simp
    ultimately show ?thesis using assms by simp
  qed
  have "ripeti off n (op @ [op ! (length op - off)]) = op @ op ! (length op - off) # map (\<lambda>i. rotate1 ?D ! (i mod off)) [0..<n]"
    unfolding ripeti_def d by simp
  also have "map (\<lambda>i. rotate1 ?D ! (i mod off)) [0..<n] = map (\<lambda>i. ?D ! (Suc i mod off)) [0..<n]"
  proof (rule map_cong [OF refl])
    fix i
    have "rotate1 ?D ! (i mod off) = ?D ! (Suc (i mod off) mod off)" using nth_rotate1 [of "i mod off" ?D] l assms(1) by simp
    then show "rotate1 ?D ! (i mod off) = ?D ! (Suc i mod off)" by (simp add: mod_Suc_eq)
  qed
  finally show ?thesis
    using assms by (simp add: ripeti_def upt_conv_Cons map_Suc_upt [symmetric] comp_def del: upt_Suc)
qed

lemma lz4_copia_ripeti:
  assumes "0 < off" "off \<le> length op" "length op + len \<le> cap"
  shows "lz4_copia cap off len op = Some (ripeti off len op)"
  using assms
proof (induction len arbitrary: op)
  case 0
  then show ?case by (simp add: ripeti_def)
next
  case (Suc len)
  then show ?case using Suc(1) [of "op @ [op ! (length op - off)]"] by (simp add: ripeti_Suc)
qed

section \<open>One sequence\<close>

lemma token_div: "b < 16 \<Longrightarrow> unat (enc_token a b) div 16 = min 15 a" "b < 16 \<Longrightarrow> unat (enc_token a b) mod 16 = b"
proof -
  assume "b < 16"
  moreover from this have "unat (enc_token a b) = 16 * min 15 a + b" unfolding enc_token_def by (intro byte_nat) simp
  ultimately show "unat (enc_token a b) div 16 = min 15 a" "unat (enc_token a b) mod 16 = b" by simp_all
qed

lemma token_unico:
  assumes "unat (tok :: u8) div 16 = min 15 a"
  shows "tok = enc_token a (unat tok mod 16)"
proof -
  have "16 * min 15 a + unat tok mod 16 = unat tok" unfolding assms [symmetric] by simp
  then show ?thesis by (simp add: enc_token_def word_unat_eq_iff byte_nat u8_less)
qed

lemma lista_letterali_exact:
  assumes "length op \<le> cap"
  shows "lista_letterali cap lit ip op = (if lit \<le> length ip \<and> length op + lit \<le> cap then Inr (drop lit ip, op @ take lit ip) else Inl Rotto)"
  using assms by (auto simp: lista_letterali_def)

lemma enc_lung_bound: "l \<le> 15 + 255 * length (enc_lung l)"
proof (cases "l < 15")
  case False
  have "l - 15 \<le> 255 * length (enc_lung l)" using False by (simp add: enc_lung_def)
  then show ?thesis using False by linarith
qed simp

lemma lista_match_eq:
  fixes a b :: u8
  assumes "length op \<le> cap" "v \<le> 15" "15 + 255 * length r < 2 ^ 32 - 4"
  defines "off \<equiv> unat a + 256 * unat b"
  shows "lista_match cap v (a # b # r) op =
    (if off = 0 \<or> off > length op then Inl Rotto
     else (case lista_lunghezza v r of
             None \<Rightarrow> Inl Rotto
           | Some (l, ip) \<Rightarrow> if length op + (l + 4) \<le> cap then Inr (ip, ripeti off (l + 4) op) else Inl Rotto))"
proof (cases "off = 0 \<or> off > length op \<or> lista_lunghezza v r = None")
  case True
  then show ?thesis unfolding off_def lista_match_def Let_def by auto
next
  case False
  then obtain l ip where l: "lista_lunghezza v r = Some (l, ip)" by auto
  then have "r = enc_lung l @ ip" using lista_lunghezza_exact [OF assms(2)] assms(3) by simp
  then have "l + 4 < 2 ^ 32" using enc_lung_bound [of l] assms(3) by simp
  moreover have "lz4_copia cap off (l + 4) op = Some (ripeti off (l + 4) op)" if "length op + (l + 4) \<le> cap"
    using lz4_copia_ripeti False that by simp
  ultimately show ?thesis using False l assms(1) unfolding off_def by (auto simp: lista_match_def Let_def)
qed

lemma off_byte:
  "unat (word_of_nat (off mod 256) :: u8) + 256 * unat (word_of_nat (off div 256) :: u8) = off" if "off < 65536"
  using that by (subst (1 2) byte_nat) auto

lemma byte_off:
  fixes a b :: u8
  shows "a = word_of_nat ((unat a + 256 * unat b) mod 256)" "b = word_of_nat ((unat a + 256 * unat b) div 256)"
    "unat a + 256 * unat b < 65536"
  using u8_less [of a] u8_less [of b] by simp_all

lemma lista_match_exact:
  assumes "length op \<le> cap" "v \<le> 15" "15 + 255 * length ip < 2 ^ 32 - 4"
  shows "lista_match cap v ip op = Inr (ip', op') \<longleftrightarrow>
      (\<exists>off n. 0 < off \<and> off < 65536 \<and> off \<le> length op \<and> 4 \<le> n \<and> v = min 15 (n - 4) \<and> length op + n \<le> cap
        \<and> ip = [word_of_nat (off mod 256), word_of_nat (off div 256)] @ enc_lung (n - 4) @ ip' \<and> op' = ripeti off n op)"
    (is "?L \<longleftrightarrow> ?R")
proof
  assume L: ?L
  then have "\<not> length ip < 2" by (auto simp: lista_match_def)
  then obtain a b r where ip: "ip = a # b # r" by (metis One_nat_def Suc_1 length_Cons lessI less_SucI list.exhaust list.size(3) zero_less_Suc)
  have r: "15 + 255 * length r < 2 ^ 32 - 4" using assms(3) ip by simp
  define off where "off = unat a + 256 * unat b"
  note e = lista_match_eq [OF assms(1,2) r, of a b, folded off_def]
  obtain l where l: "lista_lunghezza v r = Some (l, ip')" "0 < off" "off \<le> length op" "length op + (l + 4) \<le> cap"
    "op' = ripeti off (l + 4) op"
    using L unfolding ip e by (auto split: if_splits option.splits)
  then have "v = min 15 l" "r = enc_lung l @ ip'" using lista_lunghezza_exact [OF assms(2), of r] r by auto
  then show ?R
    using l byte_off [where a = a and b = b, folded off_def] ip by (intro exI [of _ off] exI [of _ "l + 4"]) simp
next
  assume ?R
  then obtain off n where R: "0 < off" "off < 65536" "off \<le> length op" "4 \<le> n" "v = min 15 (n - 4)" "length op + n \<le> cap"
    "ip = [word_of_nat (off mod 256), word_of_nat (off div 256)] @ enc_lung (n - 4) @ ip'" "op' = ripeti off n op" by blast
  have r: "15 + 255 * length (enc_lung (n - 4) @ ip') < 2 ^ 32 - 4" using assms(3) R(7) by simp
  have "lista_lunghezza v (enc_lung (n - 4) @ ip') = Some (n - 4, ip')" using lista_lunghezza_exact [OF assms(2)] r R(5) by simp
  with lista_match_eq [OF assms(1,2) r, of "word_of_nat (off mod 256)" "word_of_nat (off div 256)", unfolded off_byte [OF R(2)]] R
  show ?L by simp
qed

lemma lista_match_esiti:
  assumes "length op \<le> cap" "v \<le> 15" "15 + 255 * length ip < 2 ^ 32 - 4"
  shows "lista_match cap v ip op = Inl e \<Longrightarrow> e = Rotto"
proof -
  consider "length ip < 2" | a b r where "ip = a # b # r"
    by (metis One_nat_def Suc_1 length_Cons lessI less_SucI list.exhaust list.size(3) zero_less_Suc)
  then show "lista_match cap v ip op = Inl e \<Longrightarrow> e = Rotto"
  proof cases
    case 1
    then show "lista_match cap v ip op = Inl e \<Longrightarrow> e = Rotto" by (simp add: lista_match_def)
  next
    case 2
    then show "lista_match cap v ip op = Inl e \<Longrightarrow> e = Rotto"
      using lista_match_eq [OF assms(1,2), of r a b] assms(3) by (auto split: if_splits option.splits)
  qed
qed

section \<open>The whole block\<close>

lemma lista_match_safe:
  assumes "length op \<le> cap"
  shows "lista_match cap v ip op \<noteq> Inl Fuori_buffer" "lista_match cap v ip op = Inr (ip', op') \<Longrightarrow> length op' \<le> cap"
proof -
  have "lz4_copia cap off len op = Some (ripeti off len op)" if "0 < off" "off \<le> length op" "\<not> cap - length op < len" for off len
    by (rule lz4_copia_ripeti) (use that assms in simp_all)
  then show "lista_match cap v ip op \<noteq> Inl Fuori_buffer" "lista_match cap v ip op = Inr (ip', op') \<Longrightarrow> length op' \<le> cap"
    using assms by (auto simp: lista_match_def Let_def split: if_splits option.splits)
qed

lemma lista_da_safe:
  assumes "length op \<le> cap"
  shows "lista_da cap ip op \<noteq> Fuori_buffer"
  using assms
proof (induction cap ip op rule: lista_da.induct)
  case (2 cap tok ip op)
  show ?case
  proof
    assume F: "lista_da cap (tok # ip) op = Fuori_buffer"
    then obtain lit ip1 where l: "lista_lunghezza (unat tok div 16) ip = Some (lit, ip1)"
      by (auto simp: lista_da.simps split: option.splits)
    from F l obtain ip2 op2 where t: "lista_letterali cap lit ip1 op = Inr (ip2, op2)" and o2: "length op2 \<le> cap"
      by (auto simp: lista_da.simps lista_letterali_exact [OF 2(2)] split: if_splits)
    note m = lista_match_safe [OF o2, of "unat tok mod 16" ip2]
    from F l t m(1) obtain ip3 op3 where ne: "ip2 \<noteq> []" and r: "lista_match cap (unat tok mod 16) ip2 op2 = Inr (ip3, op3)"
      and "lista_da cap ip3 op3 = Fuori_buffer"
      by (auto simp: lista_da.simps split: if_splits sum.splits)
    then show False using 2(1) [OF l refl t refl ne r refl m(2) [OF r]] by simp
  qed
qed (simp add: lista_da.simps)

lemma lista_da_dec:
  assumes "length op \<le> cap" "255 * length ip + 19 < 2 ^ 32" "lista_da cap ip op = Scritti out"
  shows "\<exists>ss x ult. x < 16 \<and> seqs_ok op ss \<and> ip = codifica ss x ult \<and> out = fold espandi ss op @ ult \<and> length out \<le> cap"
  using assms
proof (induction cap ip op rule: lista_da.induct)
  case (2 cap tok ip op)
  obtain lit ip1 where l: "lista_lunghezza (unat tok div 16) ip = Some (lit, ip1)"
    using 2(4) by (auto simp: lista_da.simps split: option.splits)
  have div: "unat tok div 16 \<le> 15" using u8_less [of tok] by simp
  have e: "unat tok div 16 = min 15 lit" "ip = enc_lung lit @ ip1"
    using lista_lunghezza_exact [OF div, of ip lit ip1] l 2(3) by auto
  have tk: "tok = enc_token lit (unat tok mod 16)" by (rule token_unico [OF e(1)])
  from 2(4) l have t: "lit \<le> length ip1" "length op + lit \<le> cap"
    by (auto simp: lista_da.simps lista_letterali_exact [OF 2(2)] split: if_splits)
  then have tt: "lista_letterali cap lit ip1 op = Inr (drop lit ip1, op @ take lit ip1)" by (simp add: lista_letterali_exact [OF 2(2)])
  let ?l = "take lit ip1" and ?r = "drop lit ip1"
  have len: "length ?l = lit" "ip1 = ?l @ ?r" using t by simp_all
  show ?case
  proof (cases "?r = []")
    case True
    then have "out = op @ ?l" using 2(4) l tt by (simp add: lista_da.simps)
    moreover have "tok # ip = codifica [] (unat tok mod 16) ?l" using e(2) len True tk by (simp add: codifica_def)
    ultimately show ?thesis
      using t by (intro exI [of _ "[]"] exI [of _ "unat tok mod 16"] exI [of _ ?l]) simp
  next
    case False
    have o2: "length (op @ ?l) \<le> cap" using t by simp
    have v: "unat tok mod 16 \<le> 15" "15 + 255 * length ?r < 2 ^ 32 - 4" using 2(3) e(2) by simp_all
    from 2(4) l tt False obtain ip3 op3 where m: "lista_match cap (unat tok mod 16) ?r (op @ ?l) = Inr (ip3, op3)"
      and R: "lista_da cap ip3 op3 = Scritti out"
      using lista_match_esiti [OF o2 v] by (auto simp: lista_da.simps split: if_splits sum.splits)
    obtain off n where s: "0 < off" "off < 65536" "off \<le> length (op @ ?l)" "4 \<le> n" "unat tok mod 16 = min 15 (n - 4)"
      "length (op @ ?l) + n \<le> cap" "?r = [word_of_nat (off mod 256), word_of_nat (off div 256)] @ enc_lung (n - 4) @ ip3"
      "op3 = ripeti off n (op @ ?l)"
      using m lista_match_exact [OF o2 v] by blast
    have "length op3 \<le> cap" "255 * length ip3 + 19 < 2 ^ 32"
      using s(6,8) 2(3) e(2) lista_match_shorter [OF m] by simp_all
    then obtain ss x ult where IH: "x < 16" "seqs_ok op3 ss" "ip3 = codifica ss x ult" "out = fold espandi ss op3 @ ult" "length out \<le> cap"
      using 2(1) [OF l refl tt refl False m refl] R by blast
    have "seqs_ok op (Seq ?l off n # ss)" using s IH(2) by simp
    moreover have "tok # ip = codifica (Seq ?l off n # ss) x ult"
      using e(2) len s(5,7) IH(3) tk by (simp add: codifica_def)
    moreover have "out = fold espandi (Seq ?l off n # ss) op @ ult" using IH(4) s(8) by simp
    ultimately show ?thesis using IH(1,5) by blast
  qed
qed (simp add: lista_da.simps)

lemma fold_espandi_le: "length op \<le> length (fold espandi ss op)"
proof (induction ss arbitrary: op)
  case (Cons s ss)
  obtain l off n where "s = Seq l off n" by (cases s)
  then have "length op \<le> length (espandi s op)" by simp
  also have "\<dots> \<le> length (fold espandi ss (espandi s op))" by (rule Cons)
  finally show ?case by simp
qed simp

lemma lista_da_enc:
  assumes "seqs_ok op ss" "x < 16" "length (fold espandi ss op @ ult) \<le> cap" "255 * length (codifica ss x ult) + 19 < 2 ^ 32"
  shows "lista_da cap (codifica ss x ult) op = Scritti (fold espandi ss op @ ult)"
  using assms
proof (induction ss arbitrary: op)
  case Nil
  then have "lista_lunghezza (min 15 (length ult)) (enc_lung (length ult) @ ult) = Some (length ult, ult)"
    by (subst lista_lunghezza_exact) (simp_all add: codifica_def)
  then show ?case using Nil by (simp add: codifica_def lista_da.simps token_div lista_letterali_exact)
next
  case (Cons s ss)
  obtain l off n where s: "s = Seq l off n" by (cases s)
  let ?rest = "codifica ss x ult" and ?v = "min 15 (n - 4)"
  let ?m = "[word_of_nat (off mod 256), word_of_nat (off div 256)] @ enc_lung (n - 4) @ ?rest"
  have c: "codifica (s # ss) x ult = enc_token (length l) ?v # enc_lung (length l) @ l @ ?m" by (simp add: codifica_def s)
  have ok: "0 < off" "off < 65536" "off \<le> length (op @ l)" "4 \<le> n" "seqs_ok (espandi s op) ss" using Cons(2) by (simp_all add: s)
  have cap: "length (op @ l) + n \<le> cap" using Cons(4) fold_espandi_le [of "espandi s op" ss] by (simp add: s)
  have "lista_lunghezza (min 15 (length l)) (enc_lung (length l) @ l @ ?m) = Some (length l, l @ ?m)"
    using Cons(5) unfolding c by (subst lista_lunghezza_exact) simp_all
  moreover have "lista_match cap ?v ?m (op @ l) = Inr (?rest, ripeti off n (op @ l))"
    using ok cap Cons(5) unfolding c by (subst lista_match_exact) auto
  moreover have "lista_da cap ?rest (espandi s op) = Scritti (fold espandi (s # ss) op @ ult)"
    using Cons(1) [OF ok(5) Cons(3)] Cons(4,5) unfolding c by simp
  ultimately show ?case unfolding c using cap by (simp add: lista_da.simps token_div lista_letterali_exact s)
qed

section \<open>The two decoders agree\<close>

lemma lz4_estendi_lista:
  assumes "ip \<le> length src"
  shows "case lz4_estendi src l ip of
      Inl e \<Rightarrow> e = Rotto \<and> lista_estendi l (drop ip src) = None
    | Inr (l', ip') \<Rightarrow> ip' \<le> length src \<and> lista_estendi l (drop ip src) = Some (l', drop ip' src)"
  using assms
proof (induction src l ip rule: lz4_estendi.induct)
  case (1 src l ip)
  show ?case
  proof (cases "ip < length src")
    case True
    then have d: "drop ip src = src ! ip # drop (ip + 1) src" by (simp add: Cons_nth_drop_Suc)
    have b: "lz4_leggi src ip = Inr (src ! ip)" using True by (simp add: lz4_leggi_def)
    show ?thesis
    proof (cases "src ! ip = 255")
      case f: True
      have e: "lz4_estendi src l ip = lz4_estendi src ((l + unat (src ! ip)) mod 2 ^ 32) (ip + 1)"
        using True b f by (subst lz4_estendi.simps) simp
      have e': "lista_estendi l (drop ip src) = lista_estendi ((l + unat (src ! ip)) mod 2 ^ 32) (drop (ip + 1) src)"
        unfolding d by (simp add: f)
      show ?thesis unfolding e e' by (rule 1(1) [OF _ b f]) (use True in simp_all)
    next
      case False
      then show ?thesis using True b unfolding d by (subst lz4_estendi.simps) simp
    qed
  next
    case False
    then show ?thesis using 1(2) by (subst lz4_estendi.simps) simp
  qed
qed

lemma lz4_lunghezza_lista:
  assumes "ip \<le> length src"
  shows "case lz4_lunghezza src l ip of
      Inl e \<Rightarrow> e = Rotto \<and> lista_lunghezza l (drop ip src) = None
    | Inr (l', ip') \<Rightarrow> ip' \<le> length src \<and> lista_lunghezza l (drop ip src) = Some (l', drop ip' src)"
  using lz4_estendi_lista [OF assms, of 15] assms unfolding lz4_lunghezza_def lista_lunghezza_def by (auto split: sum.splits)

lemma lz4_lit_take:
  "ip + lit \<le> length src \<Longrightarrow> length op + lit \<le> cap \<Longrightarrow> lz4_lit src cap lit ip op = Inr (ip + lit, op @ take lit (drop ip src))"
proof (induction lit arbitrary: ip op)
  case (Suc lit)
  then have "take (Suc lit) (drop ip src) = src ! ip # take lit (drop (ip + 1) src)"
    by (simp flip: Cons_nth_drop_Suc)
  then show ?case using Suc by (simp add: lz4_leggi_def lz4_scrivi_def)
qed simp

lemma lz4_letterali_lista:
  assumes "ip \<le> length src" "length op \<le> cap"
  shows "case lz4_letterali src cap lit ip op of
      Inl e \<Rightarrow> e = Rotto \<and> lista_letterali cap lit (drop ip src) op = Inl Rotto
    | Inr (ip', op') \<Rightarrow> ip' \<le> length src \<and> length op' \<le> cap \<and> lista_letterali cap lit (drop ip src) op = Inr (drop ip' src, op')"
proof (cases "length src - ip < lit \<or> cap - length op < lit")
  case False
  then have b: "ip + lit \<le> length src" "length op + lit \<le> cap" using assms by linarith+
  then have "lz4_letterali src cap lit ip op = Inr (ip + lit, op @ take lit (drop ip src))"
    using lz4_lit_take False by (simp add: lz4_letterali_def)
  then show ?thesis using False b by (simp add: lista_letterali_def add.commute)
qed (auto simp: lz4_letterali_def lista_letterali_def)

lemma lz4_match_lista:
  assumes "ip \<le> length src" "length op \<le> cap"
  shows "case lz4_match src cap v ip op of
      Inl e \<Rightarrow> e = Rotto \<and> lista_match cap v (drop ip src) op = Inl Rotto
    | Inr (ip', op') \<Rightarrow> ip' \<le> length src \<and> length op' \<le> cap \<and> lista_match cap v (drop ip src) op = Inr (drop ip' src, op')"
proof (cases "length src - ip < 2")
  case False
  then have l: "lz4_leggi src ip = Inr (src ! ip)" "lz4_leggi src (ip + 1) = Inr (src ! (ip + 1))"
    "drop ip src ! 0 = src ! ip" "drop ip src ! 1 = src ! (ip + 1)" "drop 2 (drop ip src) = drop (ip + 2) src"
    by (simp_all add: lz4_leggi_def add.commute)
  have "\<not> length (drop ip src) < 2" "ip + 2 \<le> length src" using False by simp_all
  then show ?thesis
    using lista_match_safe [OF assms(2), of v "drop ip src"] lz4_lunghezza_lista [of "ip + 2" src v] False
    unfolding lz4_match_def lista_match_def Let_def l by (auto split: sum.splits option.splits prod.splits if_splits)
qed (simp add: lz4_match_def lista_match_def)

lemma lz4_da_lista:
  assumes "ip \<le> length src" "length op \<le> cap"
  shows "lz4_da src cap ip op = lista_da cap (drop ip src) op"
  using assms
proof (induction src cap ip op rule: lz4_da.induct)
  case (1 src cap ip op)
  show ?case
  proof (cases "ip < length src")
    case True
    then have d: "drop ip src = src ! ip # drop (ip + 1) src" by (simp add: Cons_nth_drop_Suc)
    have b: "lz4_leggi src ip = Inr (src ! ip)" "\<not> length src \<le> ip" using True by (simp_all add: lz4_leggi_def)
    let ?hi = "unat (src ! ip) div 16" and ?lo = "unat (src ! ip) mod 16"
    have L: "lz4_da src cap ip op = (case lz4_lunghezza src ?hi (ip + 1) of Inl e \<Rightarrow> e | Inr (lit, ip1) \<Rightarrow>
        (case lz4_letterali src cap lit ip1 op of Inl e \<Rightarrow> e | Inr (ip2, op2) \<Rightarrow>
           if ip2 = length src then Scritti op2
           else (case lz4_match src cap ?lo ip2 op2 of Inl e \<Rightarrow> e | Inr (ip3, op3) \<Rightarrow> lz4_da src cap ip3 op3)))"
      using b by (subst lz4_da.simps) simp
    note l = lz4_lunghezza_lista [of "ip + 1" src ?hi]
    show ?thesis
    proof (cases "lz4_lunghezza src ?hi (ip + 1)")
      case (Inl e)
      then show ?thesis using l True unfolding L d by (simp add: lista_da.simps)
    next
      case (Inr x)
      obtain lit ip1 where x: "x = (lit, ip1)" by fastforce
      have l1: "ip1 \<le> length src" "lista_lunghezza ?hi (drop (ip + 1) src) = Some (lit, drop ip1 src)"
        using l True Inr x by simp_all
      note t = lz4_letterali_lista [OF l1(1) 1(3), of lit]
      show ?thesis
      proof (cases "lz4_letterali src cap lit ip1 op")
        case (Inl e)
        then show ?thesis using t l1 Inr unfolding L d x by (simp add: lista_da.simps)
      next
        case t2: (Inr y)
        obtain ip2 op2 where y: "y = (ip2, op2)" by fastforce
        have t1: "ip2 \<le> length src" "length op2 \<le> cap" "lista_letterali cap lit (drop ip1 src) op = Inr (drop ip2 src, op2)"
          using t t2 y by simp_all
        note m = lz4_match_lista [OF t1(1,2), of ?lo]
        have "lz4_da src cap ip3 op3 = lista_da cap (drop ip3 src) op3"
          if "lz4_match src cap ?lo ip2 op2 = Inr (ip3, op3)" "ip2 \<noteq> length src" for ip3 op3
          using 1(1) [OF b(2,1) Inr x [symmetric] t2 y [symmetric] that(2,1) refl] m that(1) by simp
        then show ?thesis using m l1 t1 Inr t2 unfolding L d x y
          by (auto simp: lista_da.simps split: sum.splits)
      qed
    qed
  next
    case False
    then show ?thesis using 1(2) by (subst lz4_da.simps) (simp add: lista_da.simps)
  qed
qed

lemma lz4_blocco_lista: "lz4_blocco src cap = lista_da cap src []"
  using lz4_da_lista [of 0 src "[]" cap] by (simp add: lz4_blocco_def)

section \<open>Properties\<close>

text \<open>C8. The decoder is exact: a block of less than 16 MB is expanded to \<open>out\<close> exactly when it is the encoding of a list of
  well-formed sequences whose expansion \<open>out\<close> fits the space, where a match that overlaps what it writes repeats it.\<close>

theorem lz4_blocco_exact:
  assumes "length src < 2 ^ 24"
  shows "lz4_blocco src cap = Scritti out \<longleftrightarrow>
    (\<exists>ss x ult. x < 16 \<and> seqs_ok [] ss \<and> src = codifica ss x ult \<and> out = fold espandi ss [] @ ult \<and> length out \<le> cap)"
  using lista_da_dec [of "[]" cap src out] lista_da_enc [of "[]" _ _ _ cap] assms by (auto simp: lz4_blocco_lista)

theorem lz4_blocco_exact_witness:
  "length [0x15, 0x61, 1, 0, 0 :: u8] < 2 ^ 24 \<and> lz4_blocco [0x15, 0x61, 1, 0, 0] 10 = Scritti (replicate 10 0x61)"
proof -
  have "codifica [Seq [0x61] 1 9] 0 [] = [0x15, 0x61, 1, 0, 0]" by (simp add: codifica_def enc_token_def enc_lung_def)
  moreover have "fold espandi [Seq [0x61] 1 9] [] = replicate 10 0x61" by (simp add: ripeti_def upt_rec numeral_eq_Suc)
  ultimately have "\<exists>ss x ult. x < 16 \<and> seqs_ok [] ss \<and> [0x15, 0x61, 1, 0, 0] = codifica ss x ult
      \<and> replicate 10 0x61 = fold espandi ss [] @ ult \<and> length (replicate 10 (0x61 :: u8)) \<le> 10"
    by (intro exI [of _ "[Seq [0x61] 1 9]"] exI [of _ 0] exI [of _ "[]"]) simp
  then show ?thesis using lz4_blocco_exact [of "[0x15, 0x61, 1, 0, 0]" 10 "replicate 10 0x61"] by simp
qed

text \<open>C7. Whatever the bytes of the block and the space are, nothing outside the two buffers is read or written: every token, length
  and offset byte is read inside the block, every literal and every byte of a match is read inside its buffer and written inside the
  space; the block is expanded or refused.\<close>

theorem lz4_blocco_safe: "lz4_blocco src cap \<noteq> Fuori_buffer"
  by (simp add: lz4_blocco_lista lista_da_safe)

end
