(* ===== verification/Lz4exos.thy ===== *)
theory Lz4exos
  imports Lz4
begin

text \<open>
  The compressor of the build (\<^verbatim>\<open>tools/lz4exos.py\<close>): greedy, with one table from four bytes to where they were last seen. What
  it writes is a block of the format, whose expansion is the input.
\<close>

section \<open>The compressor\<close>

abbreviation MFLIMIT :: nat where "MFLIMIT \<equiv> 12"
abbreviation LASTLITERALS :: nat where "LASTLITERALS \<equiv> 5"
abbreviation MAXOFF :: nat where "MAXOFF \<equiv> 65535"

definition fetta :: "'a list \<Rightarrow> nat \<Rightarrow> nat \<Rightarrow> 'a list" where
  "fetta d a b = take (b - a) (drop a d)"

fun py_lunghezza :: "nat \<Rightarrow> u8 list" where
  "py_lunghezza n = (if n \<ge> 255 then 255 # py_lunghezza (n - 255) else [word_of_nat n])"

declare py_lunghezza.simps [simp del]

text \<open>One sequence: the match is missing in the last one.\<close>

definition sequenza :: "u8 list \<Rightarrow> (nat \<times> nat) option \<Rightarrow> u8 list" where
  "sequenza lit m =
     (let tl = min (length lit) 15;
          tm = (case m of None \<Rightarrow> 0 | Some (mlen, off) \<Rightarrow> min (mlen - 4) 15)
      in [word_of_nat (tl * 16 + tm)] @ (if length lit \<ge> 15 then py_lunghezza (length lit - 15) else []) @ lit @
         (case m of None \<Rightarrow> []
          | Some (mlen, off) \<Rightarrow>
              [word_of_nat (off mod 256), word_of_nat (off div 256)] @ (if mlen - 4 \<ge> 15 then py_lunghezza (mlen - 4 - 15) else [])))"

function allunga64 :: "u8 list \<Rightarrow> nat \<Rightarrow> nat \<Rightarrow> nat \<Rightarrow> nat" where
  "allunga64 d cand i l =
     (if i + l + 64 \<le> length d - LASTLITERALS \<and> fetta d (cand + l) (cand + l + 64) = fetta d (i + l) (i + l + 64)
      then allunga64 d cand i (l + 64) else l)"
  by pat_completeness auto
termination by (relation "measure (\<lambda>(d, cand, i, l). length d - l)") auto

function allunga :: "u8 list \<Rightarrow> nat \<Rightarrow> nat \<Rightarrow> nat \<Rightarrow> nat" where
  "allunga d cand i l =
     (if i + l < length d - LASTLITERALS \<and> d ! (cand + l) = d ! (i + l) then allunga d cand i (l + 1) else l)"
  by pat_completeness auto
termination by (relation "measure (\<lambda>(d, cand, i, l). length d - l)") auto

declare allunga64.simps [simp del] allunga.simps [simp del]

text \<open>\<^verbatim>\<open>range(a, b, step)\<close>, and the table with the positions in it.\<close>

definition intervallo :: "nat \<Rightarrow> nat \<Rightarrow> nat \<Rightarrow> nat list" where
  "intervallo a b step = map (\<lambda>j. a + j * step) [0..<(b - a + step - 1) div step]"

definition annota :: "u8 list \<Rightarrow> nat list \<Rightarrow> (u8 list \<rightharpoonup> nat) \<Rightarrow> (u8 list \<rightharpoonup> nat)" where
  "annota d ks tab = fold (\<lambda>k t. t(fetta d k (k + 4) \<mapsto> k)) ks tab"

lemma allunga64_ge: "l \<le> allunga64 d cand i l"
proof (induction d cand i l rule: allunga64.induct)
  case (1 d cand i l)
  then show ?case by (subst allunga64.simps) (auto dest: add_leD1)
qed

lemma allunga_ge: "l \<le> allunga d cand i l"
proof (induction d cand i l rule: allunga.induct)
  case (1 d cand i l)
  then show ?case by (subst allunga.simps) (auto dest: add_leD1)
qed

function comprimi_da :: "u8 list \<Rightarrow> (u8 list \<rightharpoonup> nat) \<Rightarrow> nat \<Rightarrow> nat \<Rightarrow> u8 list" where
  "comprimi_da d tab anchor i =
     (if i < length d - MFLIMIT then
        (let chiave = fetta d i (i + 4); cand = tab chiave; tab = tab(chiave \<mapsto> i) in
         case cand of
           None \<Rightarrow> comprimi_da d tab anchor (i + 1)
         | Some c \<Rightarrow>
             if i - c > MAXOFF then comprimi_da d tab anchor (i + 1)
             else
               (let l = allunga d c i (allunga64 d c i 4);
                    tab = annota d (intervallo (i + 1) (min (i + l) (length d - MFLIMIT)) (max 1 (l div 8))) tab
                in sequenza (fetta d anchor i) (Some (l, i - c)) @ comprimi_da d tab (i + l) (i + l)))
      else sequenza (drop anchor d) None)"
  by pat_completeness auto
termination
proof (relation "measure (\<lambda>(d, tab, anchor, i). length d - i)")
  fix d tab anchor i chiave cand tab' c l tab''
  assume "i < length d - MFLIMIT" "l = allunga d c i (allunga64 d c i 4)"
  moreover have "4 \<le> allunga d c i (allunga64 d c i 4)" using order_trans [OF allunga64_ge allunga_ge] .
  ultimately show "((d, tab'', i + l, i + l), d, tab, anchor, i) \<in> measure (\<lambda>(d, tab, anchor, i). length d - i)" by simp
qed auto

declare comprimi_da.simps [simp del]

definition comprimi :: "u8 list \<Rightarrow> u8 list" where
  "comprimi d = comprimi_da d Map.empty 0 0"

section \<open>What it writes\<close>

lemma py_lunghezza_enc: "py_lunghezza n = enc_lung (15 + n)"
proof (induction n rule: py_lunghezza.induct)
  case (1 n)
  show ?case
  proof (cases "n \<ge> 255")
    case True
    then have "enc_lung (15 + n) = 255 # enc_lung (15 + (n - 255))" by (subst enc_lung_step) simp_all
    then show ?thesis using 1 True by (subst py_lunghezza.simps) simp
  next
    case False
    then show ?thesis by (subst py_lunghezza.simps) (simp add: enc_lung_def)
  qed
qed

lemma lunghezza_enc: "(if l \<ge> 15 then py_lunghezza (l - 15) else []) = enc_lung l"
  by (simp add: py_lunghezza_enc) (simp add: enc_lung_def)

lemma sequenza_enc: "sequenza lit (Some (n, off)) = enc_seq (Seq lit off n)"
  "sequenza ult None = enc_token (length ult) 0 # enc_lung (length ult) @ ult"
  unfolding sequenza_def Let_def option.case prod.case lunghezza_enc by (simp_all add: enc_token_def min.commute mult.commute)

section \<open>Matches\<close>

lemma fetta_nth: "fetta d a (a + k) = fetta d b (b + k) \<Longrightarrow> a + k \<le> length d \<Longrightarrow> b + k \<le> length d \<Longrightarrow> j < k \<Longrightarrow> d ! (a + j) = d ! (b + j)"
proof -
  assume e: "fetta d a (a + k) = fetta d b (b + k)" and l: "a + k \<le> length d" "b + k \<le> length d" "j < k"
  have "fetta d a (a + k) ! j = d ! (a + j)" "fetta d b (b + k) ! j = d ! (b + j)" using l by (simp_all add: fetta_def)
  then show "d ! (a + j) = d ! (b + j)" using e by simp
qed

definition uguali :: "u8 list \<Rightarrow> nat \<Rightarrow> nat \<Rightarrow> nat \<Rightarrow> bool" where
  "uguali d c i l \<longleftrightarrow> i + l \<le> length d \<and> (\<forall>j < l. d ! (c + j) = d ! (i + j))"

lemma allunga64_uguali:
  assumes "c \<le> i" "uguali d c i l"
  shows "uguali d c i (allunga64 d c i l)"
  using assms
proof (induction d c i l rule: allunga64.induct)
  case (1 d c i l)
  show ?case
  proof (cases "i + l + 64 \<le> length d - LASTLITERALS \<and> fetta d (c + l) (c + l + 64) = fetta d (i + l) (i + l + 64)")
    case True
    then have f: "i + l + 64 \<le> length d" "fetta d (c + l) (c + l + 64) = fetta d (i + l) (i + l + 64)" by auto
    have "d ! (c + j) = d ! (i + j)" if "j < l + 64" for j
    proof (cases "j < l")
      case False
      have "d ! (c + l + (j - l)) = d ! (i + l + (j - l))"
        by (rule fetta_nth [OF f(2)]) (use f(1) 1(2) that False in simp_all)
      then show ?thesis using False by simp
    qed (use 1(3) in \<open>simp add: uguali_def\<close>)
    then have "uguali d c i (l + 64)" using f(1) by (simp add: uguali_def)
    then show ?thesis using 1(1) [OF True 1(2)] True by (subst allunga64.simps) simp
  qed (use 1(3) in \<open>subst allunga64.simps, auto\<close>)
qed

lemma allunga_uguali:
  assumes "uguali d c i l"
  shows "uguali d c i (allunga d c i l)"
  using assms
proof (induction d c i l rule: allunga.induct)
  case (1 d c i l)
  show ?case
  proof (cases "i + l < length d - LASTLITERALS \<and> d ! (c + l) = d ! (i + l)")
    case True
    then have "uguali d c i (l + 1)" using 1(2) by (auto simp: uguali_def less_Suc_eq)
    then show ?thesis using 1(1) [OF True] True by (subst allunga.simps) simp
  qed (use 1(2) in \<open>subst allunga.simps, auto\<close>)
qed

lemma ripeti_take:
  assumes "c < i" "uguali d c i l"
  shows "ripeti (i - c) l (take i d) = take (i + l) d"
proof (rule nth_equalityI)
  let ?off = "i - c"
  have len: "i + l \<le> length d" and eq: "\<And>j. j < l \<Longrightarrow> d ! (c + j) = d ! (i + j)" using assms(2) by (auto simp: uguali_def)
  then show "length (ripeti ?off l (take i d)) = length (take (i + l) d)" by simp
  have per: "d ! (i + j) = d ! (c + j mod ?off)" if "j < l" for j
    using that
  proof (induction j rule: less_induct)
    case (less j)
    show ?case
    proof (cases "j < ?off")
      case True
      then show ?thesis using eq [OF less(2)] by simp
    next
      case False
      then have "d ! (i + j) = d ! (i + (j - ?off))" using eq [OF less(2)] assms(1) by (simp add: add.commute)
      also have "\<dots> = d ! (c + (j - ?off) mod ?off)" using False assms(1) less(2) by (intro less(1)) simp_all
      finally show ?thesis using False by (simp add: le_mod_geq)
    qed
  qed
  fix k assume "k < length (ripeti ?off l (take i d))"
  then have k: "k < i + l" using len by simp
  show "ripeti ?off l (take i d) ! k = take (i + l) d ! k"
  proof (cases "k < i")
    case True
    then show ?thesis using len by (simp add: ripeti_def nth_append)
  next
    case False
    define j where "j = k - i"
    have j: "k = i + j" "j < l" using False k by (simp_all add: j_def)
    have "c + j mod ?off < i" using assms(1) mod_less_divisor [of ?off j] by linarith
    then have "drop (i - ?off) (take i d) ! (j mod ?off) = d ! (c + j mod ?off)" using assms(1) len by (simp add: add.commute)
    then show ?thesis using j len per [OF j(2)] by (simp add: ripeti_def nth_append min_absorb2)
  qed
qed

section \<open>The table\<close>

definition tab_ok :: "u8 list \<Rightarrow> (u8 list \<rightharpoonup> nat) \<Rightarrow> nat \<Rightarrow> bool" where
  "tab_ok d tab i \<longleftrightarrow> (\<forall>k c. tab k = Some c \<longrightarrow> c < i \<and> k = fetta d c (c + 4))"

lemma tab_ok_mono: "tab_ok d tab i \<Longrightarrow> i \<le> j \<Longrightarrow> tab_ok d tab j"
  by (auto simp: tab_ok_def intro: less_le_trans)

lemma tab_ok_upd: "tab_ok d tab i \<Longrightarrow> k < i \<Longrightarrow> tab_ok d (tab(fetta d k (k + 4) \<mapsto> k)) i"
  by (auto simp: tab_ok_def)

lemma tab_ok_annota: "tab_ok d tab i \<Longrightarrow> \<forall>k \<in> set ks. k < i \<Longrightarrow> tab_ok d (annota d ks tab) i"
  unfolding annota_def by (induction ks arbitrary: tab) (simp_all add: tab_ok_upd)

lemma intervallo_lt: "0 < step \<Longrightarrow> k \<in> set (intervallo a b step) \<Longrightarrow> k < b"
proof -
  assume s: "0 < step" and "k \<in> set (intervallo a b step)"
  then obtain j where j: "k = a + j * step" "j < (b - a + step - 1) div step" by (auto simp: intervallo_def)
  then have "Suc j * step \<le> b - a + step - 1" using s by (metis Suc_leI less_eq_div_iff_mult_less_eq)
  then show "k < b" using j s by simp
qed

lemma comprimi_da_format:
  assumes "tab_ok d tab i" "anchor \<le> i" "anchor \<le> length d"
  shows "\<exists>ss ult. comprimi_da d tab anchor i = codifica ss 0 ult \<and> seqs_ok (take anchor d) ss \<and> fold espandi ss (take anchor d) @ ult = d"
  using assms
proof (induction d tab anchor i rule: comprimi_da.induct)
  case (1 d tab anchor i)
  let ?k = "fetta d i (i + 4)" and ?tab = "tab(fetta d i (i + 4) \<mapsto> i)"
  show ?case
  proof (cases "i < length d - MFLIMIT")
    case False
    then have "comprimi_da d tab anchor i = codifica [] 0 (drop anchor d)"
      by (subst comprimi_da.simps) (simp add: sequenza_enc codifica_def)
    then show ?thesis by (intro exI [of _ "[]"] exI [of _ "drop anchor d"]) simp
  next
    case go: True
    have t1: "tab_ok d ?tab (i + 1)" using tab_ok_upd [OF tab_ok_mono [OF 1(4)], of "i + 1" i] by simp
    show ?thesis
    proof (cases "\<exists>c. tab ?k = Some c \<and> i - c \<le> MAXOFF")
      case False
      then have "comprimi_da d tab anchor i = comprimi_da d ?tab anchor (i + 1)"
        using go by (subst comprimi_da.simps) (auto simp: Let_def split: option.split)
      moreover have "\<exists>ss ult. comprimi_da d ?tab anchor (i + 1) = codifica ss 0 ult \<and> seqs_ok (take anchor d) ss
          \<and> fold espandi ss (take anchor d) @ ult = d"
      proof (cases "tab ?k")
        case None
        then show ?thesis using 1(1) [OF go refl refl refl] t1 1(5,6) by (simp add: fun_upd_def)
      next
        case (Some c)
        then show ?thesis using False 1(2) [OF go refl refl refl Some] t1 1(5,6) by (simp add: fun_upd_def)
      qed
      ultimately show ?thesis by simp
    next
      case True
      then obtain c where c: "tab ?k = Some c" "i - c \<le> MAXOFF" by blast
      then have ci: "c < i" "?k = fetta d c (c + 4)" using 1(4) by (auto simp: tab_ok_def)
      define l where "l = allunga d c i (allunga64 d c i 4)"
      define tab' where "tab' = annota d (intervallo (i + 1) (min (i + l) (length d - MFLIMIT)) (max 1 (l div 8))) ?tab"
      have l4: "4 \<le> l" unfolding l_def using order_trans [OF allunga64_ge allunga_ge] .
      have "uguali d c i 4" using go ci fetta_nth [of d c 4 i] by (auto simp: uguali_def)
      then have u: "uguali d c i l" unfolding l_def using ci by (intro allunga_uguali allunga64_uguali) simp_all
      have "\<forall>k \<in> set (intervallo (i + 1) (min (i + l) (length d - MFLIMIT)) (max 1 (l div 8))). k < i + l"
      proof
        fix k assume "k \<in> set (intervallo (i + 1) (min (i + l) (length d - MFLIMIT)) (max 1 (l div 8)))"
        then have "k < min (i + l) (length d - MFLIMIT)" by (rule intervallo_lt [rotated]) simp
        then show "k < i + l" by (rule less_le_trans) simp
      qed
      then have t': "tab_ok d tab' (i + l)" unfolding tab'_def using l4 by (intro tab_ok_annota tab_ok_mono [OF t1]) simp_all
      have e: "comprimi_da d tab anchor i = sequenza (fetta d anchor i) (Some (l, i - c)) @ comprimi_da d tab' (i + l) (i + l)"
        using go c by (subst comprimi_da.simps) (simp add: Let_def l_def tab'_def)
      have il: "i + l \<le> length d" using u by (simp add: uguali_def)
      obtain ss ult where IH: "comprimi_da d tab' (i + l) (i + l) = codifica ss 0 ult" "seqs_ok (take (i + l) d) ss"
        "fold espandi ss (take (i + l) d) @ ult = d"
        using 1(3) [OF go refl refl refl c(1) _ l_def tab'_def t' order_refl il] c(2) by auto
      let ?s = "Seq (fetta d anchor i) (i - c) l"
      have op: "take anchor d @ fetta d anchor i = take i d"
        using 1(5) by (simp add: fetta_def) (metis le_add_diff_inverse take_add)
      have "espandi ?s (take anchor d) = take (i + l) d" using ripeti_take [OF ci(1) u] op by simp
      moreover from this have "seqs_ok (take anchor d) (?s # ss)" using IH(2) ci c(2) l4 op il by simp
      moreover have "comprimi_da d tab anchor i = codifica (?s # ss) 0 ult" unfolding e IH(1) by (simp add: sequenza_enc codifica_def)
      ultimately show ?thesis using IH(3) by (intro exI [of _ "?s # ss"] exI [of _ ult]) simp
    qed
  qed
qed

end
