(* ===== verification/Rdlz4.thy ===== *)
theory Rdlz4
  imports Lz4exos Pmm_Props
begin

text \<open>
  The compressed base system at start-up (\<^verbatim>\<open>rd_decomprimi\<close> of \<^verbatim>\<open>kernel/boot/rdlz4.c\<close>), from the file the build writes
  (\<^verbatim>\<open>tools/lz4exos.py\<close>) to the memory the page allocator keeps for the expanded volume.
\<close>

section \<open>The code\<close>

abbreviation EXLZ_FIRMA :: u32 where "EXLZ_FIRMA \<equiv> 0x5A4C5845"
abbreviation RD_ESPANSO :: nat where "RD_ESPANSO \<equiv> 0x600000"
abbreviation RD_ESPANSO_MAX :: nat where "RD_ESPANSO_MAX \<equiv> 4 * 1024 * 1024"

definition senza :: "boot_info \<Rightarrow> boot_info" where
  "senza info = info\<lparr>rb_addr := 0, rb_byte := 0\<rparr>"

definition somma_byte :: "u8 list \<Rightarrow> u32" where
  "somma_byte d = fold (\<lambda>b s. s + ucast b) d 0"

text \<open>\<open>f\<close> are the \<^verbatim>\<open>rb_byte\<close> bytes in memory at \<^verbatim>\<open>rb_addr\<close>; the first result is the volume left at \<^verbatim>\<open>RD_ESPANSO\<close>, if there is
  one. The guard on the addresses keeps the two apart, so the file does not change while it is read, unless its
  end wraps past 4 GB.\<close>

definition rd_decomprimi :: "u8 list \<Rightarrow> boot_info \<Rightarrow> u8 list option \<times> boot_info" where
  "rd_decomprimi f info =
     (if \<not> rb_valida info then (None, info)
      else if rb_addr info = 0 \<or> rb_byte info < 16 then (None, info)
      else if le32 f \<noteq> EXLZ_FIRMA then (None, info)
      else
        (let orig = unat (le32 (drop 4 f)); comp = unat (le32 (drop 8 f)) in
         if comp > rb_byte info - 16 \<or> orig = 0 \<or> orig > RD_ESPANSO_MAX
            \<or> (rb_addr info < RD_ESPANSO + orig \<and> (rb_addr info + rb_byte info) mod 2 ^ 32 > RD_ESPANSO)
         then (None, senza info)
         else
           (case lz4_blocco (take comp (drop 16 f)) orig of
              Scritti d \<Rightarrow>
                if length d \<noteq> orig then (None, senza info)
                else if somma_byte d \<noteq> le32 (drop 12 f) then (None, senza info)
                else (Some d, info\<lparr>rb_addr := RD_ESPANSO, rb_byte := orig\<rparr>)
            | _ \<Rightarrow> (None, senza info))))"

text \<open>The step of \<^verbatim>\<open>kernel_main\<close> that expands the base system and hands the memory to the page allocator, in that order.\<close>

definition avvio_memoria :: "nat \<Rightarrow> nat \<Rightarrow> u8 list \<Rightarrow> boot_info \<Rightarrow> (u8 list option \<times> boot_info \<times> pmm) option" where
  "avvio_memoria ks ke f info =
     (let (v, info) = rd_decomprimi f info in
      case pmm_init ks ke info of None \<Rightarrow> None | Some (info, s) \<Rightarrow> Some (v, info, s))"

text \<open>The tool's own decoder, which checks every block before it is written. An exception is \<open>None\<close>.\<close>

fun py_leggi :: "nat \<Rightarrow> u8 list \<Rightarrow> (nat \<times> u8 list) option" where
  "py_leggi l [] = None"
| "py_leggi l (b # s) = (if b \<noteq> 255 then Some (l + unat b, s) else py_leggi (l + 255) s)"

definition py_leggi_lunghezza :: "nat \<Rightarrow> u8 list \<Rightarrow> (nat \<times> u8 list) option" where
  "py_leggi_lunghezza l s = (if l = 15 then py_leggi 15 s else Some (l, s))"

primrec py_copia :: "nat \<Rightarrow> nat \<Rightarrow> u8 list \<Rightarrow> u8 list" where
  "py_copia off 0 out = out"
| "py_copia off (Suc ml) out = py_copia off ml (out @ [out ! (length out - off)])"

definition py_match :: "nat \<Rightarrow> u8 list \<Rightarrow> u8 list \<Rightarrow> (u8 list \<times> u8 list) option" where
  "py_match nibble s out =
     (if length s < 2 then None
      else
        (let off = unat (s ! 0) + 256 * unat (s ! 1) in
         if off = 0 \<or> off > length out then None
         else map_option (\<lambda>(ml, s). (s, py_copia off (ml + 4) out)) (py_leggi_lunghezza nibble (drop 2 s))))"

lemma py_leggi_shorter: "py_leggi l s = Some (l', s') \<Longrightarrow> length s' \<le> length s"
  by (induction l s rule: py_leggi.induct) (auto split: if_splits)

lemma py_leggi_lunghezza_le: "py_leggi_lunghezza l s = Some (l', s') \<Longrightarrow> length s' \<le> length s"
  using py_leggi_shorter [of 15 s l' s'] by (auto simp: py_leggi_lunghezza_def split: if_splits)

lemma py_match_shorter: "py_match l s out = Some (s', out') \<Longrightarrow> length s' < length s"
  using py_leggi_lunghezza_le [of l "drop 2 s"] by (fastforce simp: py_match_def Let_def split: if_splits)

function decomprimi_da :: "u8 list \<Rightarrow> u8 list \<Rightarrow> u8 list option" where
  "decomprimi_da [] out = None"
| "decomprimi_da (tok # s) out =
     (case py_leggi_lunghezza (unat tok div 16) s of
        None \<Rightarrow> None
      | Some (lit, s1) \<Rightarrow>
          if length s1 < lit then None
          else if length s1 = lit then Some (out @ s1)
          else (case py_match (unat tok mod 16) (drop lit s1) (out @ take lit s1) of
                  None \<Rightarrow> None | Some (s2, out2) \<Rightarrow> decomprimi_da s2 out2))"
  by pat_completeness auto
termination
proof (relation "measure (\<lambda>(s, out). length s)")
  fix tok :: u8 and s out :: "u8 list" and x lit s1 y s2 out2
  assume "py_leggi_lunghezza (unat tok div 16) s = Some x" "(lit, s1) = x"
    "py_match (unat tok mod 16) (drop lit s1) (out @ take lit s1) = Some y" "(s2, out2) = y"
  then show "((s2, out2), tok # s, out) \<in> measure (\<lambda>(s, out). length s)"
    using py_leggi_lunghezza_le [of _ s lit s1] py_match_shorter [of _ "drop lit s1" "out @ take lit s1" s2 out2] by fastforce
qed simp

declare decomprimi_da.simps [simp del]

definition decomprimi :: "u8 list \<Rightarrow> nat \<Rightarrow> u8 list option" where
  "decomprimi s attesi = (case decomprimi_da s [] of None \<Rightarrow> None | Some out \<Rightarrow> if length out \<noteq> attesi then None else Some out)"

text \<open>The file the tool writes, if it writes one; \<^verbatim>\<open>struct.pack\<close> raises on a length that does not fit 32 bits.\<close>

definition lz4exos :: "u8 list \<Rightarrow> u8 list option" where
  "lz4exos d =
     (let c = comprimi d in
      if decomprimi c (length d) \<noteq> Some d then None
      else
        (let somma = sum_list (map unat d) mod 2 ^ 32 in
         if length d < 2 ^ 32 \<and> length c < 2 ^ 32
         then Some ([0x45, 0x58, 0x4C, 0x5A] @ metti32 (word_of_nat (length d)) @ metti32 (word_of_nat (length c)) @ metti32 (word_of_nat somma) @ c)
         else None))"

section \<open>Sizes\<close>

lemma length_enc_lung: "length (enc_lung l) \<le> l"
  by (simp add: enc_lung_def) (metis Suc_leI diff_less div_le_dividend le_less_trans not_less zero_less_numeral less_le_trans)

lemma length_codifica:
  "seqs_ok op ss \<Longrightarrow> length (codifica ss x ult) + 2 * length op \<le> 2 * length (fold espandi ss op @ ult) + 1"
proof (induction ss arbitrary: op)
  case Nil
  then show ?case using length_enc_lung [of "length ult"] by (simp add: codifica_def)
next
  case (Cons s ss)
  obtain l off n where s: "s = Seq l off n" by (cases s)
  have "length (codifica ss x ult) + 2 * length (espandi s op) \<le> 2 * length (fold espandi ss (espandi s op) @ ult) + 1"
    using Cons(1) [of "espandi s op"] Cons(2) by (simp add: s)
  moreover have "length (codifica (s # ss) x ult) = length (enc_seq s) + length (codifica ss x ult)" by (simp add: codifica_def)
  moreover have "length (enc_seq s) + 2 * length op \<le> 2 * length (espandi s op)"
    using Cons(2) length_enc_lung [of "length l"] length_enc_lung [of "n - 4"] by (auto simp: s)
  ultimately show ?case by simp
qed

lemma comprimi_format:
  "\<exists>ss ult. comprimi d = codifica ss 0 ult \<and> seqs_ok [] ss \<and> fold espandi ss [] @ ult = d" "length (comprimi d) \<le> 2 * length d + 1"
proof -
  obtain ss ult where "comprimi d = codifica ss 0 ult" "seqs_ok [] ss" "fold espandi ss [] @ ult = d"
    using comprimi_da_format [of d Map.empty 0 0] by (auto simp: comprimi_def tab_ok_def)
  then show "\<exists>ss ult. comprimi d = codifica ss 0 ult \<and> seqs_ok [] ss \<and> fold espandi ss [] @ ult = d"
    "length (comprimi d) \<le> 2 * length d + 1" using length_codifica [of "[]" ss 0 ult] by auto
qed

lemma lz4_comprimi:
  assumes "length d \<le> RD_ESPANSO_MAX"
  shows "lz4_blocco (comprimi d) (length d) = Scritti d"
proof -
  obtain ss ult where s: "comprimi d = codifica ss 0 ult" "seqs_ok [] ss" "fold espandi ss [] @ ult = d" using comprimi_format(1) by blast
  have "255 * length (codifica ss 0 ult) + 19 < 2 ^ 32" using comprimi_format(2) [of d] assms s(1) by simp
  then show ?thesis using lista_da_enc [OF s(2), of 0 ult "length d"] s(1,3) by (simp add: lz4_blocco_lista)
qed

section \<open>The tool's decoder agrees with the kernel's\<close>

lemma py_leggi_estendi: "lista_estendi l ip = Some r \<Longrightarrow> l + 255 * length ip < 2 ^ 32 \<Longrightarrow> py_leggi l ip = Some r \<and> fst r \<le> l + 255 * length ip"
proof (induction l ip rule: lista_estendi.induct)
  case (2 l b ip)
  have "unat b \<le> 255" using u8_less [of b] by simp
  then show ?case using 2 by (auto split: if_splits)
qed simp

lemma py_leggi_lunghezza_eq:
  assumes "lista_lunghezza l ip = Some (l', ip')" "l \<le> 15" "255 * length ip + 19 < 2 ^ 32"
  shows "py_leggi_lunghezza l ip = Some (l', ip')" "l' + 4 < 2 ^ 32"
proof -
  have "py_leggi_lunghezza l ip = Some (l', ip') \<and> l' + 4 < 2 ^ 32"
    using assms py_leggi_estendi [of 15 ip "(l', ip')"]
    by (auto simp: lista_lunghezza_def py_leggi_lunghezza_def split: if_splits)
  then show "py_leggi_lunghezza l ip = Some (l', ip')" "l' + 4 < 2 ^ 32" by simp_all
qed

lemma py_copia_eq: "lz4_copia cap off n op = Some op' \<Longrightarrow> py_copia off n op = op'"
  by (induction n arbitrary: op) (auto split: if_splits)

lemma py_match_eq:
  assumes "lista_match cap l ip op = Inr r" "l \<le> 15" "255 * length ip + 19 < 2 ^ 32"
  shows "py_match l ip op = Some r"
proof -
  let ?off = "unat (ip ! 0) + 256 * unat (ip ! 1)"
  have off: "2 \<le> length ip" "?off \<noteq> 0" "?off \<le> length op"
    using assms(1) by (auto simp: lista_match_def Let_def split: if_splits)
  then obtain l' ip' where l: "lista_lunghezza l (drop 2 ip) = Some (l', ip')"
    using assms(1) by (auto simp: lista_match_def Let_def split: if_splits option.splits)
  have p: "py_leggi_lunghezza l (drop 2 ip) = Some (l', ip')" "(l' + 4) mod 2 ^ 32 = l' + 4"
    using py_leggi_lunghezza_eq [OF l assms(2)] assms(3) by simp_all
  obtain op' where "lz4_copia cap ?off (l' + 4) op = Some op'" "r = (ip', op')"
    using assms(1) off l unfolding lista_match_def Let_def by (auto simp: p(2) [simplified] split: if_splits option.splits)
  then show ?thesis using off p(1) py_copia_eq by (auto simp: py_match_def Let_def)
qed

lemma decomprimi_da_eq:
  "lista_da cap ip op = Scritti d \<Longrightarrow> 255 * length ip + 19 < 2 ^ 32 \<Longrightarrow> decomprimi_da ip op = Some d"
proof (induction cap ip op rule: lista_da.induct)
  case (2 cap tok ip op)
  have t: "unat tok div 16 \<le> 15" "unat tok mod 16 \<le> 15" using u8_less [of tok] by simp_all
  obtain lit ip1 where l: "lista_lunghezza (unat tok div 16) ip = Some (lit, ip1)"
    using 2(2) by (auto simp: lista_da.simps split: option.splits)
  have pl: "py_leggi_lunghezza (unat tok div 16) ip = Some (lit, ip1)" "length ip1 \<le> length ip"
    using py_leggi_lunghezza_eq(1) [OF l t(1)] 2(3) lista_lunghezza_le [OF l] by simp_all
  obtain ip2 op2 where lt: "lista_letterali cap lit ip1 op = Inr (ip2, op2)"
    using 2(2) l by (auto simp: lista_da.simps lista_letterali_def split: sum.splits if_splits)
  have s: "lit \<le> length ip1" "ip2 = drop lit ip1" "op2 = op @ take lit ip1"
    using lt by (auto simp: lista_letterali_def split: if_splits)
  show ?case
  proof (cases "ip2 = []")
    case True
    then show ?thesis using 2(2) l lt pl s by (simp add: lista_da.simps decomprimi_da.simps)
  next
    case False
    then obtain ip3 op3 where m: "lista_match cap (unat tok mod 16) ip2 op2 = Inr (ip3, op3)" "lista_da cap ip3 op3 = Scritti d"
      using 2(2) l lt by (auto simp: lista_da.simps lista_match_def Let_def split: sum.splits if_splits option.splits)
    have "255 * length ip3 + 19 < 2 ^ 32" "255 * length ip2 + 19 < 2 ^ 32"
      using lista_match_shorter [OF m(1)] pl(2) s(2) 2(3) by simp_all
    then have "decomprimi_da ip3 op3 = Some d" "py_match (unat tok mod 16) ip2 op2 = Some (ip3, op3)"
      using 2(1) [OF l refl lt refl False m(1) refl m(2)] py_match_eq [OF m(1) t(2)] by simp_all
    then show ?thesis using False s pl(1) by (simp add: decomprimi_da.simps)
  qed
qed (simp add: lista_da.simps)

lemma somma_byte_eq: "somma_byte d = word_of_nat (sum_list (map unat d) mod 2 ^ 32)"
proof -
  have "fold (\<lambda>b s. s + ucast b) d (a :: u32) = a + word_of_nat (sum_list (map unat d))" for a
    by (induction d arbitrary: a) (simp_all add: algebra_simps)
  then show ?thesis by (simp add: somma_byte_def word_of_nat_eq_iff take_bit_eq_mod)
qed

lemma lz4exos_file:
  assumes "length d \<le> RD_ESPANSO_MAX"
  shows "lz4exos d = Some ([0x45, 0x58, 0x4C, 0x5A] @ metti32 (word_of_nat (length d)) @ metti32 (word_of_nat (length (comprimi d)))
                           @ metti32 (somma_byte d) @ comprimi d)"
proof -
  have "length (comprimi d) \<le> 8388609" using comprimi_format(2) [of d] assms by simp
  moreover from this have "decomprimi_da (comprimi d) [] = Some d"
    using lz4_comprimi [OF assms] by (intro decomprimi_da_eq) (simp_all add: lz4_blocco_lista)
  ultimately show ?thesis using assms unfolding somma_byte_eq by (simp add: lz4exos_def decomprimi_def Let_def)
qed

lemma rd_decomprimi_lz4exos:
  assumes "0 < length d" "length d \<le> RD_ESPANSO_MAX"
    and "rb_valida info" "rb_byte info = 16 + length (comprimi d)" "RD_ESPANSO + length d \<le> rb_addr info"
  shows "\<exists>f. lz4exos d = Some f \<and> length f = rb_byte info \<and>
    rd_decomprimi f info = (Some d, info\<lparr>rb_addr := RD_ESPANSO, rb_byte := length d\<rparr>)"
proof -
  let ?c = "comprimi d"
  define f where "f = [0x45, 0x58, 0x4C, 0x5A] @ metti32 (word_of_nat (length d)) @ metti32 (word_of_nat (length ?c)) @ metti32 (somma_byte d) @ ?c"
  have p: "le32 f = EXLZ_FIRMA" by (simp add: f_def le32_def push_bit_eq_mult)
  have d: "drop 4 f = metti32 (word_of_nat (length d)) @ metti32 (word_of_nat (length ?c)) @ metti32 (somma_byte d) @ ?c"
    "drop 8 f = metti32 (word_of_nat (length ?c)) @ metti32 (somma_byte d) @ ?c" "drop 12 f = metti32 (somma_byte d) @ ?c" "drop 16 f = ?c"
    by (simp_all add: f_def)
  have n: "unat (word_of_nat (length d) :: u32) = length d" "unat (word_of_nat (length ?c) :: u32) = length ?c"
    using assms(2) comprimi_format(2) [of d] by (simp_all add: unat_of_nat)
  have "rd_decomprimi f info = (Some d, info\<lparr>rb_addr := RD_ESPANSO, rb_byte := length d\<rparr>)"
    using assms lz4_comprimi [OF assms(2)] unfolding rd_decomprimi_def p d le32_metti32 n Let_def by simp
  moreover have "length f = rb_byte info" using assms(4) by (simp add: f_def)
  ultimately show ?thesis using lz4exos_file [OF assms(2)] unfolding f_def by blast
qed

lemma comprimi_14_7: "comprimi (replicate 14 7) = [0x14, 7, 1, 0, 0x50, 7, 7, 7, 7, 7]"
proof -
  let ?d = "replicate 14 7 :: u8 list"
  have a: "allunga64 ?d 0 1 4 = 4" by (simp add: allunga64.simps)
  have s: "allunga ?d 0 1 l = (if l < 8 then allunga ?d 0 1 (l + 1) else l)" for l by (subst allunga.simps) simp
  have l: "allunga ?d 0 1 4 = 8" using s [of 4] s [of 5] s [of 6] s [of 7] s [of 8] by simp
  have e: "comprimi_da ?d t 9 9 = [0x50, 7, 7, 7, 7, 7]" for t
    by (subst comprimi_da.simps) (simp add: sequenza_def Let_def numeral_eq_Suc)
  have "comprimi_da ?d t 0 1 = [0x14, 7, 1, 0, 0x50, 7, 7, 7, 7, 7]" if "t (replicate 4 7) = Some 0" for t
    using that a l e by (subst comprimi_da.simps) (simp add: fetta_def Let_def sequenza_def)
  then show ?thesis unfolding comprimi_def by (subst comprimi_da.simps) (simp add: fetta_def Let_def)
qed
section \<open>Properties\<close>

text \<open>C5. The base system survives the build and the start: for every volume of 1 byte to 4 MB the tool writes a file (its
  self-check never refuses one), and that file, loaded anywhere behind the space for the expanded volume, is expanded by the
  kernel to the same bytes, with the start-up information describing them.\<close>

theorem rdboot_roundtrip:
  assumes "0 < length d" "length d \<le> RD_ESPANSO_MAX"
    and "rb_valida info" "rb_byte info = 16 + length (comprimi d)" "RD_ESPANSO + length d \<le> rb_addr info"
  shows "\<exists>f. lz4exos d = Some f \<and> length f = rb_byte info \<and>
    rd_decomprimi f info = (Some d, info\<lparr>rb_addr := RD_ESPANSO, rb_byte := length d\<rparr>)"
  using assms by (rule rd_decomprimi_lz4exos)

definition stage2 :: "u8 list \<Rightarrow> boot_info" where
  "stage2 d = firmware\<lparr>rb_valida := True, rb_addr := 0xA00000, rb_byte := 16 + length (comprimi d)\<rparr>"

theorem rdboot_roundtrip_witness:
  "comprimi (replicate 14 7) = [0x14, 7, 1, 0, 0x50, 7, 7, 7, 7, 7] \<and>
   (\<exists>f. lz4exos (replicate 14 7) = Some f \<and> fst (rd_decomprimi f (stage2 (replicate 14 7))) = Some (replicate 14 7))"
  using rdboot_roundtrip [of "replicate 14 7" "stage2 (replicate 14 7)"] comprimi_14_7 by (auto simp: stage2_def)

text \<open>C9. Expanding first and protecting after is safe: when the start expands a base system and the kernel with its bitmap and
  references ends below it, then after \<^verbatim>\<open>pmm_init\<close> every byte of the expanded volume lies in a page in use, and the start-up
  information still names the volume.\<close>

theorem rdboot_protected:
  assumes "avvio_memoria ks ke f info = Some (Some d, info', s)" and "regioni_alte_sane info"
  defines "tot \<equiv> ALIGN_UP (max_addr_di info) div PAGE_SIZE"
  assumes "256 \<le> tot" "tot \<le> 8 * bitmap_size_di tot"
    and "(ALIGN_UP ke + bitmap_size_di tot + ALIGN_UP tot) mod 2 ^ 32 \<le> RD_ESPANSO"
  shows "rb_addr info' = RD_ESPANSO \<and> rb_byte info' = length d \<and>
    (\<forall>a. RD_ESPANSO \<le> a \<and> a < RD_ESPANSO + length d \<and> addr_to_page a < tot \<longrightarrow> page_used s (addr_to_page a))"
proof -
  obtain info1 where r: "rd_decomprimi f info = (Some d, info1)" and i: "pmm_init ks ke info1 = Some (info', s)"
    using assms(1) by (auto simp: avvio_memoria_def split: prod.splits option.splits)
  from r have v: "rb_valida info" "info1 = info\<lparr>rb_addr := RD_ESPANSO, rb_byte := length d\<rparr>" "0 < length d" "length d \<le> RD_ESPANSO_MAX"
    by (auto simp: rd_decomprimi_def Let_def split: if_splits lz4_esito.splits)
  have e: "max_addr_di info1 = max_addr_di info" "regioni_alte_sane info1 = regioni_alte_sane info"
    by (simp_all add: v max_addr_di_def regioni_alte_sane_def split: option.split)
  have i': "info' = info1" using i assms(6) unfolding pmm_init_def Let_def e tot_def [symmetric] by (auto simp: v(2) split: if_splits)
  note p = pmm_init_riserve [OF i, unfolded e, OF assms(2), folded tot_def, OF assms(4,5)]
  have "page_used s (addr_to_page a)" if "RD_ESPANSO \<le> a" "a < RD_ESPANSO + length d" "addr_to_page a < tot" for a
  proof -
    have "addr_to_page a \<in> coperte_usate RD_ESPANSO (length d)"
      using that(1,2) v(4) by (auto simp: coperte_usate_def addr_to_page_def)
    then have "addr_to_page a \<in> riserva info' ks fine" for fine
      using v by (auto simp: riserva_def riservate_def i')
    then show ?thesis using p that(3) by blast
  qed
  then show ?thesis by (simp add: i' v(2))
qed

theorem rdboot_protected_witness:
  "\<exists>f info' s. avvio_memoria 0x100000 0x200000 f (stage2 (replicate 14 7)) = Some (Some (replicate 14 7), info', s) \<and>
     rb_addr info' = RD_ESPANSO \<and> page_used s 0x600"
proof -
  let ?d = "replicate 14 7 :: u8 list" and ?i = "stage2 (replicate 14 7)"
  have i: "max_addr_di (firmware\<lparr>rb_valida := True, rb_addr := x, rb_byte := y\<rparr>) = 0x2000000"
    "regioni_alte_sane (firmware\<lparr>rb_valida := True, rb_addr := x, rb_byte := y\<rparr>)" for x y
    using firmware_max firmware_sane by (simp_all add: max_addr_di_def regioni_alte_sane_def split: option.splits)
  then have sane: "regioni_alte_sane ?i" and m: "ALIGN_UP (max_addr_di ?i) div PAGE_SIZE = 8192" by (simp_all add: stage2_def ALIGN_UP_def)
  obtain f where f: "rd_decomprimi f ?i = (Some ?d, ?i\<lparr>rb_addr := RD_ESPANSO, rb_byte := length ?d\<rparr>)"
    using rd_decomprimi_lz4exos [of ?d ?i] by (auto simp: stage2_def)
  have "pmm_init 0x100000 0x200000 (?i\<lparr>rb_addr := RD_ESPANSO, rb_byte := length ?d\<rparr>) \<noteq> None"
    unfolding pmm_init_def Let_def by (simp add: stage2_def i)
  then obtain info' s where a: "avvio_memoria 0x100000 0x200000 f ?i = Some (Some ?d, info', s)"
    unfolding avvio_memoria_def f by auto
  have b: "8192 \<le> 8 * bitmap_size_di 8192" "(ALIGN_UP 0x200000 + bitmap_size_di 8192 + ALIGN_UP 8192) mod 2 ^ 32 \<le> RD_ESPANSO"
    by (simp_all add: bitmap_size_di_def ALIGN_UP_def)
  have h: "rb_addr info' = RD_ESPANSO \<and> rb_byte info' = length ?d \<and>
      (\<forall>a. RD_ESPANSO \<le> a \<and> a < RD_ESPANSO + length ?d \<and> addr_to_page a < 8192 \<longrightarrow> page_used s (addr_to_page a))"
    by (rule rdboot_protected [OF a sane, unfolded m, OF _ b]) simp
  have "addr_to_page RD_ESPANSO < 8192" by (simp add: addr_to_page_def)
  then have "page_used s (addr_to_page RD_ESPANSO)" using h by (metis le_refl length_replicate less_add_same_cancel1 zero_less_numeral)
  then show ?thesis using a h by (auto simp: addr_to_page_def)
qed

end
