(* ===== verification/Spec2Isabelle.thy ===== *)
theory Spec2Isabelle
  imports Exos_Prelude Sched Segnali Attese Pipe Ipc Pty Bytes Mbr Vol Pmm_Props Sha256 Exbig_Byte Rdlz4
begin

text \<open>
  EX-OS: a verification development of the parts of its kernel that are state machines over data, and of its arithmetic
  and data formats, translated from the C sources under \<^verbatim>\<open>src/kernel\<close> and \<^verbatim>\<open>src/lib\<close> and from a tool of its build.

  \<^bold>\<open>The program.\<close> The scheduler keeps the process table and one circular run queue per priority. Signals are bits in the
  table that the scheduler's wake-ups carry out. Pipes, pseudo terminals and mailboxes are stores with callers that sleep:
  a call runs until it must wait, puts its process among the waiters of the object and blocks it; whoever changes the
  object wakes the waiters. Below them the page allocator gives out physical pages and counts their owners, and the block
  layer reads and writes partition tables and recognises volumes. At start-up the base system, compressed by the build, is
  expanded and its memory is given to the page allocator as used. Packages and certificates rest on a digest and on
  modular exponentiation with long integers.

  \<^bold>\<open>How code is translated.\<close> A pointer to a table slot is the index of the slot, a null pointer is \<open>None\<close>. A call that can fail
  returns \<open>errno + 'a\<close>. A pointer from a program is an \<open>'a uptr\<close>: the copy from or to it succeeds or gives EFAULT. A
  blocking loop is one function for one turn, with a value of \<open>giro\<close> saying whether the call returns or sleeps; what
  happens between turns is any sequence of steps of the other processes. Integers that can wrap are words (\<open>u8\<close>, \<open>u32\<close>,
  \<open>u64\<close>); where the source cuts a wider value the \<open>mod\<close> is written out. Memory from the kernel heap, sectors from a driver
  and the room for a frame on the user stack are parameters.

  \<^bold>\<open>The theories.\<close>

  \<^item> \<open>Exos_Prelude\<close>: the types and error numbers; rings over an array (\<open>ring_read\<close>, \<open>ring_write\<close>), circular doubly linked lists
    (\<open>circ\<close>), and the contract \<open>bounded_fifo\<close> of a bounded store with its laws on sequences of puts and takes.

  \<^item> \<open>Sched\<close> (\<^verbatim>\<open>sched/sched.c\<close>): \<open>process\<close>, \<open>sched\<close>, the queues (\<^verbatim>\<open>runq_add\<close>, \<^verbatim>\<open>runq_remove\<close>), \<^verbatim>\<open>sched_pick_next\<close>, switch,
    block, unblock, sleep, the timer. The queues refine lists; exactly the runnable processes are queued; the choice
    refines round robin by priority; the timer wakes exactly those who are due.

  \<^item> \<open>Segnali\<close> (\<^verbatim>\<open>sched/segnali.c\<close>): sending, delivery with the entry into a handler, exceptions, masks, actions, waiting, alarms; what no
    program can do to SIGKILL and SIGSTOP; the relation \<open>kstep\<close> of
    everything the scheduler and the signals do, and the invariant over its runs.

  \<^item> \<open>Attese\<close> (\<^verbatim>\<open>include/attese.h\<close>): the waiters of an object, the contract \<open>waiter_set\<close> and its interpretation.

  \<^item> \<open>Pipe\<close> (\<^verbatim>\<open>ipc/pipe.c\<close>), \<open>Ipc\<close> (\<^verbatim>\<open>ipc/ipc.c\<close>), \<open>Pty\<close> (\<^verbatim>\<open>ipc/pty.c\<close>): each file whole. The rings interpret
    \<open>bounded_fifo\<close>; for pipes the relation \<open>pstep\<close> interleaves calls, signals and ticks, and no sleeper is forgotten;
    the line discipline refines a line editor on lists; the registry of names is a map.

  \<^item> \<open>Bytes\<close>: little-endian numbers in sectors. \<open>Mbr\<close> (\<^verbatim>\<open>block/mbr.c\<close>): reading, criticising and writing a partition table,
    the chain of logical partitions. \<open>Vol\<close> (\<^verbatim>\<open>block/vol.c\<close>): what a volume is, and how large.

  \<^item> \<open>Oltre\<close>, \<open>Oltre_Spec\<close> (the table \<^verbatim>\<open>g_oltre\<close> of \<^verbatim>\<open>mm/pmm.c\<close>): open addressing with linear probing, growth and removal
    by shifting back; the invariant is that an entry is reached from its home slot over occupied slots. The contract
    \<open>contatore\<close> says it is a map from pages to counts.

  \<^item> \<open>Bitmap\<close>, \<open>Pmm\<close>, \<open>Pmm_Spec\<close>, \<open>Pmm_Ops\<close>, \<open>Pmm_Alloc\<close>, \<open>Pmm_Avvio\<close>, \<open>Pmm_Props\<close> (\<^verbatim>\<open>mm/pmm.c\<close>, 64 bit): a bitmap as a set of
    pages (contract \<open>insieme_pagine\<close>); the definitions; the invariant \<open>pmm_ok\<close> and the abstraction \<open>proprietari\<close>, the
    number of owners of every page; what each operation does to it; start-up from the map of the firmware, compared byte by byte with the memory it calls usable; the properties.

  \<^item> \<open>Sha256\<close> (\<^verbatim>\<open>crypto/sha256.c\<close>): the digest block by block, and a reference written after FIPS 180-4, whose constants are
    computed from the roots of the primes; the two are equal.

  \<^item> \<open>Exbig\<close>, \<open>Exbig_Spec\<close>, \<open>Exbig_Mont\<close>, \<open>Exbig_Props\<close>, \<open>Exbig_Byte\<close> (\<^verbatim>\<open>lib/exbig/exbig.c\<close>): the definitions on lists of words;
    the value of a list and what each loop does to it; the product of Montgomery with its invariant; the contract
    \<open>prodotto_ridotto\<close> of a reduced product and exponentiation by squaring over it; numbers from and to bytes.

  \<^item> \<open>Lz4\<close> (\<^verbatim>\<open>boot/rdlz4.c\<close>, the decoder), \<open>Lz4exos\<close> (\<^verbatim>\<open>tools/lz4exos.py\<close>, the compressor), \<open>Rdlz4\<close> (\<^verbatim>\<open>rd_decomprimi\<close>, the tool's own
    decoder and its file, the order of start-up in \<^verbatim>\<open>kernel_main\<close>): every access of the decoder goes through a check of its buffer, so that leaving one
    is a result that can be excluded; the same decoder on lists, the format of a block as a list of sequences, its exactness; the way from the build to the expanded volume, and its protection by \<open>pmm_init\<close>.

  \<^bold>\<open>Bounds and fuel.\<close> The loops of the source end and are total functions here: structural recursion, or a measure proved
  in place (the search for contiguous pages, probing, shifting back). The delivery of signals runs at most once
  per signal number and the chain of extended records at most as often as the source allows; both are counted the way
  the source counts. Blocking loops have no bound, so they are given by their turns.

  \<^bold>\<open>Not modelled.\<close> Registers, descriptor tables, page tables and device input and output (\<^verbatim>\<open>arch\<close>, the drivers, \<^verbatim>\<open>mm/paging.c\<close>,
  the loader): their effect is on the machine and not on a state of the program. Creation and end of processes, which
  consist of such effects. Diagnostic printing. The file systems, the kernel heap, the libraries, the programs and the
  graphic system are outside this development. Processors run one at a time: interrupts happen between the operations, not
  inside them, which is what the source's disabling of interrupts around them gives on one processor.
\<close>

end
